(* ===== verification/Aesd_Prelude.thy ===== *)
theory Aesd_Prelude
  imports Main "HOL-Library.Word"
begin

text \<open>
  Shared vocabulary of the development: the C integer types at their widths, pointers and the
  byte heap of the kernel, the outcome type in which a memory error of the C code is a value,
  the error numbers the sources return, and the generic lemmas on lists and words that the
  component theories use.

  Every model function that touches memory returns \<open>fault + 'a\<close>: \<open>Inl f\<close> is undefined behaviour of
  the C code (or a thread that waits for a lock it already holds), \<open>Inr x\<close> a normal return.  The
  theorems about the components show which states exclude \<open>Inl\<close>.
\<close>

section \<open>Collections of facts\<close>

named_theorems word_nat \<open>equations that move machine words to \<open>nat\<close>\<close>
named_theorems keep_simps \<open>laws of the list of the last \<open>n\<close> elements\<close>
named_theorems fault_simps \<open>sequencing of computations that may fault\<close>

section \<open>C types\<close>

type_synonym u8 = "8 word"
type_synonym u32 = "32 word"
type_synonym size_t = "64 word"
type_synonym ssize_t = "64 word"
type_synonym loff_t = "64 word"

text \<open>A pointer to dynamically allocated bytes; the allocation is named by a number.\<close>

datatype ptr = NULL | Ptr nat

type_synonym kheap = "nat \<rightharpoonup> string"

fun ptr_addrs :: "ptr \<Rightarrow> nat list" where
  "ptr_addrs NULL = []"
| "ptr_addrs (Ptr a) = [a]"

datatype fault = Out_of_bounds | Null_deref | Dangling | Bad_free | Self_deadlock | Stream_order | Uninitialised | Overflow

definition bind_fault :: "fault + 'a \<Rightarrow> ('a \<Rightarrow> fault + 'b) \<Rightarrow> fault + 'b" where
  "bind_fault m f = (case m of Inl e \<Rightarrow> Inl e | Inr x \<Rightarrow> f x)"

lemma bind_fault_simps [simp, fault_simps]:
  "bind_fault (Inl e) f = Inl e"
  "bind_fault (Inr x) f = f x"
  by (simp_all add: bind_fault_def)

lemma bind_fault_eq_Inr [fault_simps]:
  "bind_fault m f = Inr y \<longleftrightarrow> (\<exists>x. m = Inr x \<and> f x = Inr y)"
  by (cases m) auto

text \<open>Computations that may fault or not return at all: \<open>None\<close> stands for a loop that never ends.\<close>

type_synonym 'a run = "(fault + 'a) option"

definition ret :: "'a \<Rightarrow> 'a run" where
  "ret x = Some (Inr x)"

definition run_bind :: "'a run \<Rightarrow> ('a \<Rightarrow> 'b run) \<Rightarrow> 'b run" where
  "run_bind m f = Option.bind m (\<lambda>r. case r of Inl e \<Rightarrow> Some (Inl e) | Inr x \<Rightarrow> f x)"

lemma run_bind_simps [simp, fault_simps]:
  "run_bind (Some (Inr x)) f = f x"
  "run_bind (ret x) f = f x"
  "run_bind (Some (Inl e)) f = Some (Inl e)"
  "run_bind None f = None"
  by (simp_all add: run_bind_def ret_def)

lemma ret_inject [simp]: "ret x = ret y \<longleftrightarrow> x = y"
  by (simp add: ret_def)

lemma run_bind_eq_ret [fault_simps]:
  "run_bind m f = ret y \<longleftrightarrow> (\<exists>x. m = ret x \<and> f x = ret y)"
proof (cases m)
  case None
  then show ?thesis by (simp add: ret_def)
next
  case (Some r)
  then show ?thesis by (cases r) (simp_all add: ret_def)
qed

lemma run_bind_mono [partial_function_mono]:
  assumes "mono_option m" and "\<And>x. mono_option (\<lambda>g. f x g)"
  shows "mono_option (\<lambda>g. run_bind (m g) (\<lambda>x. f x g))"
  unfolding run_bind_def
proof (intro partial_function_mono assms)
  show "mono_option (\<lambda>g. case r of Inl e \<Rightarrow> Some (Inl e) | Inr x \<Rightarrow> f x g)" for r
    using assms(2) by (cases r) (simp_all add: option.const_mono)
qed

section \<open>Error numbers\<close>

definition ENOMEM :: ssize_t where "ENOMEM = 12"
definition EFAULT :: ssize_t where "EFAULT = 14"
definition EINVAL :: ssize_t where "EINVAL = 22"
definition ENOTTY :: ssize_t where "ENOTTY = 25"

lemmas errno_defs = ENOMEM_def EFAULT_def EINVAL_def ENOTTY_def

abbreviation newline :: char where "newline \<equiv> CHR 0x0A"
abbreviation nul :: char where "nul \<equiv> CHR 0x00"

section \<open>The last elements of a list\<close>

definition keep_last :: "nat \<Rightarrow> 'a list \<Rightarrow> 'a list" where
  "keep_last n xs = drop (length xs - n) xs"

lemma keep_last_short [simp, keep_simps]: "length xs \<le> n \<Longrightarrow> keep_last n xs = xs"
  by (simp add: keep_last_def)

lemma length_keep_last [simp, keep_simps]: "length (keep_last n xs) = min n (length xs)"
  by (simp add: keep_last_def min_def)

lemma keep_last_Nil [simp, keep_simps]: "keep_last n [] = []"
  by (simp add: keep_last_def)

lemma keep_last_snoc_full [keep_simps]:
  assumes "length xs = n" and "0 < n"
  shows "keep_last n (xs @ [x]) = tl xs @ [x]"
  using assms by (cases xs) (simp_all add: keep_last_def)

lemma keep_last_append_keep [keep_simps]:
  "keep_last n (keep_last n xs @ ys) = keep_last n (xs @ ys)"
proof (cases "length xs \<le> n")
  case True
  then show ?thesis by simp
next
  case False
  then have "length (keep_last n xs @ ys) - n = length ys" by simp
  moreover have "drop (length ys) (drop (length xs - n) xs @ ys)
    = drop (length xs + length ys - n) (xs @ ys)"
  proof (cases "length ys \<le> n")
    case True
    then show ?thesis using False by (simp add: add.commute)
  next
    case ys: False
    then show ?thesis using False by simp
  qed
  ultimately show ?thesis by (simp add: keep_last_def)
qed

lemma set_keep_last_subset: "set (keep_last n xs) \<subseteq> set xs"
  by (simp add: keep_last_def set_drop_subset)

lemma map_keep_last [keep_simps]: "map f (keep_last n xs) = keep_last n (map f xs)"
  by (simp add: keep_last_def drop_map)

section \<open>Words and modular indices\<close>

lemma mod_sub_once: "n \<le> m \<Longrightarrow> m < 2 * n \<Longrightarrow> m mod n = m - (n::nat)"
  by (simp add: le_mod_geq)

lemma mod_add_wraps:
  fixes a k n :: nat
  assumes "a < n" and "k < n"
  shows "(a + Suc k) mod n = a \<longleftrightarrow> Suc k = n"
proof (cases "a + Suc k < n")
  case True
  then show ?thesis by simp
next
  case False
  with assms have "(a + Suc k) mod n = a + Suc k - n" by (intro mod_sub_once) auto
  with False assms show ?thesis by auto
qed


lemma mod_add_self_iff:
  fixes a k n :: nat
  assumes "a < n" and "k < n"
  shows "(a + k) mod n = a \<longleftrightarrow> k = 0"
  using assms mod_add_wraps [of a n "k - 1"] by (cases k) auto

lemma unat_small_add [word_nat]:
  fixes a b :: "'a::len word"
  assumes "unat a + unat b < 2 ^ LENGTH('a)"
  shows "unat (a + b) = unat a + unat b"
  using assms by (simp add: unat_word_ariths)

lemma unat_of_nat_small [word_nat]:
  "n < 2 ^ LENGTH('a) \<Longrightarrow> unat (of_nat n :: 'a::len word) = n"
  by (simp add: unat_of_nat take_bit_eq_mod)

lemma unat_size_t_less: "unat (w :: size_t) < 2 ^ 64"
  by (rule order_less_le_trans [OF unsigned_less]) simp

lemma of_nat_unat_eq [simp]: "of_nat (unat (w :: 'a::len word)) = w"
  by simp

lemma unat_ucast_u32_u64 [simp]: "unat (ucast (w :: u32) :: size_t) = unat w"
  by transfer (simp add: take_bit_eq_mod)

lemma word_eq_of_nat: "unat (w :: 'a::len word) = n \<Longrightarrow> w = of_nat n"
  by auto

lemma word_eq_iff_unat_eq: "(a :: 'a::len word) = b \<longleftrightarrow> unat a = unat b"
  by (simp add: word_unat_eq_iff)

section \<open>Positions in a sequence of blocks\<close>

text \<open>The block and the offset in it of a position in the concatenation of blocks of given sizes.\<close>

fun locate :: "nat list \<Rightarrow> nat \<Rightarrow> (nat \<times> nat) option" where
  "locate [] c = None"
| "locate (s # ss) c =
     (if c < s then Some (0, c) else map_option (\<lambda>(k, off). (Suc k, off)) (locate ss (c - s)))"

lemma sum_list_take_nth_le:
  "k < length xs \<Longrightarrow> sum_list (take k xs) + xs ! k \<le> sum_list (xs :: nat list)"
proof (induction xs arbitrary: k)
  case (Cons x xs)
  then show ?case by (cases k) auto
qed simp

lemma sum_list_map_update_less:
  assumes "i < length xs" and "f x < f (xs ! i)"
  shows "sum_list (map f (xs[i := x])) < sum_list (map f xs :: nat list)"
  using assms elem_le_sum_list [of i "map f xs"] by (simp add: map_update sum_list_update)

lemma sum_list_map_le:
  "(\<And>x. x \<in> set xs \<Longrightarrow> f x \<le> m) \<Longrightarrow> sum_list (map f xs) \<le> length xs * (m :: nat)"
  by (induction xs) (force simp: add_mono)+

lemma locate_None_iff: "locate ss c = None \<longleftrightarrow> sum_list ss \<le> c"
proof (induction ss arbitrary: c)
  case Nil
  show ?case by simp
next
  case (Cons s ss)
  show ?case
  proof (cases "c < s")
    case True
    then show ?thesis by simp
  next
    case False
    then show ?thesis using Cons.IH [of "c - s"] by (simp add: le_diff_conv2 add.commute)
  qed
qed

lemma locate_Some_iff:
  "locate ss c = Some (k, off) \<longleftrightarrow>
     k < length ss \<and> off < ss ! k \<and> sum_list (take k ss) + off = c"
proof (induction ss arbitrary: c k)
  case Nil
  show ?case by simp
next
  case (Cons s ss)
  show ?case
  proof (cases "c < s")
    case True
    then show ?thesis by (cases k) auto
  next
    case False
    then have eq: "locate (s # ss) c = Some (k, off) \<longleftrightarrow> (\<exists>j. k = Suc j \<and> locate ss (c - s) = Some (j, off))"
      by auto
    show ?thesis
    proof (cases k)
      case 0
      with eq False show ?thesis by auto
    next
      case (Suc j)
      have "sum_list (take j ss) + off = c - s \<longleftrightarrow> s + sum_list (take j ss) + off = c"
        using False by auto
      with eq Suc Cons.IH [of "c - s" j] show ?thesis by simp
    qed
  qed
qed

lemma locate_append_zeros: "locate (ss @ replicate n 0) c = locate ss c"
proof (induction ss arbitrary: c)
  case Nil
  show ?case by (induction n) auto
qed simp

lemma locate_None_iff_concat: "locate (map length bss) c = None \<longleftrightarrow> length (concat bss) \<le> c"
  by (simp add: locate_None_iff length_concat)

lemma locate_drop_concat:
  assumes "locate (map length bss) c = Some (k, off)"
  shows "drop c (concat bss) = drop off (bss ! k) @ concat (drop (Suc k) bss)"
proof -
  have k: "k < length bss" and off: "off < length (bss ! k)"
    and c: "c = sum_list (take k (map length bss)) + off"
    using assms by (auto simp: locate_Some_iff)
  have "concat bss = concat (take k bss) @ bss ! k @ concat (drop (Suc k) bss)"
    using k by (metis concat.simps(2) concat_append id_take_nth_drop)
  moreover have "length (concat (take k bss)) = sum_list (take k (map length bss))"
    by (simp add: length_concat take_map)
  ultimately show ?thesis using off c by simp
qed

section \<open>Interface: a store that keeps the most recent elements\<close>

text \<open>
  A step that may fault, run over a list; and the contract of a store that keeps the last \<open>cap\<close>
  elements it was given.  The ring of entries and the device of complete lines both provide it.
\<close>

fun fold_fault :: "('b \<Rightarrow> 'e \<Rightarrow> fault + 'b) \<Rightarrow> 'b \<Rightarrow> 'e list \<Rightarrow> fault + 'b" where
  "fold_fault f b [] = Inr b"
| "fold_fault f b (e # es) = bind_fault (f b e) (\<lambda>b'. fold_fault f b' es)"

locale recent_store =
  fixes new :: 'b
    and add :: "'b \<Rightarrow> 'e \<Rightarrow> fault + 'b"
    and contents :: "'b \<Rightarrow> 'e list"
    and inv :: "'b \<Rightarrow> bool"
    and cap :: nat
  assumes inv_new: "inv new"
    and contents_new: "contents new = []"
    and add_ok: "inv b \<Longrightarrow> \<exists>b'. add b e = Inr b' \<and> inv b' \<and> contents b' = keep_last cap (contents b @ [e])"
begin

lemma add_all:
  "inv b \<Longrightarrow> \<exists>b'. fold_fault add b es = Inr b' \<and> inv b'
     \<and> keep_last cap (contents b') = keep_last cap (contents b @ es)"
proof (induction es arbitrary: b)
  case Nil
  then show ?case by simp
next
  case (Cons e es)
  from add_ok [OF Cons.prems, of e] obtain b1 where
    b1: "add b e = Inr b1" "inv b1" "contents b1 = keep_last cap (contents b @ [e])" by blast
  from Cons.IH [OF b1(2)] obtain b' where
    "fold_fault add b1 es = Inr b'" "inv b'"
    "keep_last cap (contents b') = keep_last cap (contents b1 @ es)" by blast
  with b1 show ?case by (simp add: keep_last_append_keep)
qed

lemma add_all_new:
  "\<exists>b. fold_fault add new es = Inr b \<and> inv b \<and> keep_last cap (contents b) = keep_last cap es"
  using add_all [OF inv_new, of es] by (simp add: contents_new)

end

section \<open>Interface: a system that ends\<close>

text \<open>
  A transition system with an invariant, a measure that every move decreases, and a move in every state that is not at
  the end: a run can always go on, cannot go on for ever, and so comes to the end under every schedule.  The threads of
  the server after a stop signal, the processes inside a system call and the threads of the example provide it.
\<close>

locale ending_system =
  fixes moves :: "'s \<Rightarrow> 's \<Rightarrow> bool"
    and inv :: "'s \<Rightarrow> bool"
    and work :: "'s \<Rightarrow> nat"
    and ended :: "'s \<Rightarrow> bool"
  assumes inv_moves: "inv s \<Longrightarrow> moves s s' \<Longrightarrow> inv s'"
    and work_moves: "inv s \<Longrightarrow> moves s s' \<Longrightarrow> work s' < work s"
    and progress: "inv s \<Longrightarrow> \<not> ended s \<Longrightarrow> \<exists>s'. moves s s'"
begin

lemma run_keeps: "(moves ^^ n) s s' \<Longrightarrow> inv s \<Longrightarrow> inv s' \<and> n + work s' \<le> work s"
proof (induction n arbitrary: s')
  case (Suc n)
  then obtain s1 where "(moves ^^ n) s s1" "moves s1 s'" by auto
  then show ?case using Suc inv_moves work_moves by fastforce
qed simp

lemma run_extends: "(moves ^^ n) s s' \<Longrightarrow> inv s \<Longrightarrow> ended s' \<or> (\<exists>s''. (moves ^^ Suc n) s s'')"
  using run_keeps progress by (meson relpowp_Suc_I)

lemma run_to_end: "inv s \<Longrightarrow> \<exists>n s'. (moves ^^ n) s s' \<and> ended s'"
proof (induction "work s" arbitrary: s rule: less_induct)
  case less
  show ?case
  proof (cases "ended s")
    case True
    then show ?thesis by (intro exI [of _ 0] exI [of _ s]) simp
  next
    case False
    then obtain s1 where s1: "moves s s1" using progress less.prems by blast
    then obtain n s' where "(moves ^^ n) s1 s'" "ended s'"
      using less.hyps inv_moves work_moves less.prems by meson
    then show ?thesis using s1 relpowp_Suc_I2 by metis
  qed
qed

lemma every_run_ends:
  assumes "inv s"
  shows "(\<exists>n s'. (moves ^^ n) s s' \<and> ended s')
    \<and> (\<forall>n s'. (moves ^^ n) s s' \<longrightarrow> n \<le> work s \<and> (ended s' \<or> (\<exists>s''. (moves ^^ Suc n) s s'')))"
  using run_to_end [OF assms] run_keeps [OF _ assms] run_extends [OF _ assms] add_leD1 by blast

end

end
