(* ===== verification/Circular_Buffer.thy ===== *)
theory Circular_Buffer
  imports Aesd_Prelude
begin

text \<open>
  The ring of the last ten write commands, \<^verbatim>\<open>aesd-char-driver/aesd-circular-buffer.c\<close> and
  \<^verbatim>\<open>aesd-circular-buffer.h\<close>.  First the structures and the six operations as the C code has them:
  \<^verbatim>\<open>uint8_t\<close> offsets, \<^verbatim>\<open>size_t\<close> sizes that wrap at \<open>2 ^ 64\<close>, array accesses that fault out of range,
  and the \<^verbatim>\<open>do ... while\<close> loop shared by three of them as one combinator.  Then the invariant of the
  buffer, its contents as a list, and the theorems that the operations implement a bounded queue
  which keeps the last ten entries, and that file positions and (entry, offset) pairs correspond.
\<close>

section \<open>Structures\<close>

definition AESDCHAR_MAX_WRITE_OPERATIONS_SUPPORTED :: nat where
  "AESDCHAR_MAX_WRITE_OPERATIONS_SUPPORTED = 10"

abbreviation MAXW :: nat where
  "MAXW \<equiv> AESDCHAR_MAX_WRITE_OPERATIONS_SUPPORTED"

lemma MAXW_eq [simp]: "MAXW = 10"
  by (simp add: AESDCHAR_MAX_WRITE_OPERATIONS_SUPPORTED_def)

record aesd_buffer_entry =
  buffptr :: ptr
  entry_size :: size_t

record aesd_circular_buffer =
  entry :: "aesd_buffer_entry list"
  in_offs :: u8
  out_offs :: u8
  full :: bool

definition null_entry :: aesd_buffer_entry where
  "null_entry = \<lparr>buffptr = NULL, entry_size = 0\<rparr>"

section \<open>Operations\<close>

text \<open>
  The loop \<^verbatim>\<open>do { body; index = (index+1) % 10; } while( index != buffer->out_offs )\<close> of the three
  scanning functions.  The body sees the entry, its index and the loop variable; \<open>Inl r\<close> is a
  \<^verbatim>\<open>return\<close> from inside the loop, \<open>fin\<close> the return after it.  \<open>None\<close> is a loop that does not end.
\<close>

partial_function (option) ring_scan ::
  "(aesd_buffer_entry \<Rightarrow> u32 \<Rightarrow> 'acc \<Rightarrow> 'r + 'acc) \<Rightarrow> ('acc \<Rightarrow> 'r) \<Rightarrow> aesd_circular_buffer \<Rightarrow>
    u32 \<Rightarrow> 'acc \<Rightarrow> (fault + 'r) option"
where
  "ring_scan body fin b index acc =
     (if unat index < length (entry b)
      then case body (entry b ! unat index) index acc of
          Inl r \<Rightarrow> Some (Inr r)
        | Inr acc' \<Rightarrow>
            (if (index + 1) mod of_nat MAXW \<noteq> ucast (out_offs b)
             then ring_scan body fin b ((index + 1) mod of_nat MAXW) acc'
             else Some (Inr (fin acc')))
      else Some (Inl Out_of_bounds))"

text \<open>A pointer to a slot of the array is the slot's index; \<open>None\<close> as a result is \<^verbatim>\<open>NULL\<close>.\<close>

definition aesd_circular_buffer_find_entry_offset_for_fpos ::
  "aesd_circular_buffer \<Rightarrow> size_t \<Rightarrow> (fault + (u32 \<times> size_t) option) option"
where
  "aesd_circular_buffer_find_entry_offset_for_fpos b char_offset =
     ring_scan
       (\<lambda>e index pos_bytes.
          if char_offset < pos_bytes + entry_size e
          then Inl (Some (index, char_offset - pos_bytes))
          else Inr (pos_bytes + entry_size e))
       (\<lambda>_. None)
       b (ucast (out_offs b)) 0"

text \<open>The result \<open>None\<close> is the return value 1, \<open>Some fpos\<close> the return value 0 with \<^verbatim>\<open>*fpos\<close> set.\<close>

definition aesd_circular_buffer_fpos_for_entry ::
  "aesd_circular_buffer \<Rightarrow> u32 \<Rightarrow> size_t \<Rightarrow> (fault + size_t option) option"
where
  "aesd_circular_buffer_fpos_for_entry b ent entry_offset =
     ring_scan
       (\<lambda>e index pos_bytes.
          if index = ent
          then (if entry_offset \<ge> entry_size e then Inl None
                else Inl (Some (pos_bytes + entry_offset)))
          else Inr (pos_bytes + entry_size e))
       (\<lambda>_. None)
       b (ucast (out_offs b)) 0"

definition aesd_circular_buffer_get_count :: "aesd_circular_buffer \<Rightarrow> u32" where
  "aesd_circular_buffer_get_count b =
     (if \<not> full b then
        (if out_offs b \<le> in_offs b
         then ucast (in_offs b) - ucast (out_offs b)
         else (ucast (in_offs b) + of_nat MAXW) - ucast (out_offs b))
      else of_nat MAXW)"

definition aesd_circular_buffer_get_size :: "aesd_circular_buffer \<Rightarrow> (fault + size_t) option" where
  "aesd_circular_buffer_get_size b =
     ring_scan (\<lambda>e _ sz. Inr (sz + entry_size e)) (\<lambda>sz. sz) b (ucast (out_offs b)) 0"

text \<open>The offset after \<open>i\<close>: \<^verbatim>\<open>(i + 1) % 10\<close> in \<^verbatim>\<open>int\<close>, stored back into a \<^verbatim>\<open>uint8_t\<close>.\<close>

definition next_offs :: "u8 \<Rightarrow> u8" where
  "next_offs i = ucast (((ucast i :: u32) + 1) mod of_nat MAXW)"

definition aesd_circular_buffer_add_entry ::
  "aesd_circular_buffer \<Rightarrow> aesd_buffer_entry \<Rightarrow> fault + aesd_circular_buffer"
where
  "aesd_circular_buffer_add_entry b add_entry =
     (let entry_count = aesd_circular_buffer_get_count b in
      if unat (in_offs b) < length (entry b) then
        let b1 = b\<lparr>entry := (entry b)[unat (in_offs b) := add_entry],
                   in_offs := next_offs (in_offs b)\<rparr>
        in Inr (if entry_count < of_nat MAXW
                then (if entry_count + 1 = of_nat MAXW then b1\<lparr>full := True\<rparr> else b1)
                else b1\<lparr>out_offs := in_offs b1\<rparr>)
      else Inl Out_of_bounds)"

definition aesd_circular_buffer_init :: aesd_circular_buffer where
  "aesd_circular_buffer_init =
     \<lparr>entry = replicate MAXW null_entry, in_offs = 0, out_offs = 0, full = False\<rparr>"

text \<open>
  The macro \<^verbatim>\<open>AESD_CIRCULAR_BUFFER_FOREACH\<close>: a \<^verbatim>\<open>uint8_t\<close> index from 0, the loop body applied to
  the slot it names while it is below ten.
\<close>

function foreach_from :: "(aesd_buffer_entry \<Rightarrow> 's \<Rightarrow> 's) \<Rightarrow> aesd_circular_buffer \<Rightarrow> u8 \<Rightarrow> 's \<Rightarrow> fault + 's"
where
  "foreach_from f b index s =
     (if index < of_nat MAXW
      then if unat index < length (entry b)
           then foreach_from f b (index + 1) (f (entry b ! unat index) s)
           else Inl Out_of_bounds
      else Inr s)"
  by pat_completeness auto
termination
proof (relation "measure (\<lambda>(f, b, index, s). 10 - unat index)", goal_cases)
  case 1
  then show ?case by simp
next
  case (2 f b index s)
  then have "unat index < 10" by (simp add: word_less_nat_alt)
  then have "unat (index + 1) = unat index + 1"
    by (simp add: unat_small_add)
  with \<open>unat index < 10\<close> show ?case by simp
qed

declare foreach_from.simps [simp del]

definition AESD_CIRCULAR_BUFFER_FOREACH ::
  "(aesd_buffer_entry \<Rightarrow> 's \<Rightarrow> 's) \<Rightarrow> aesd_circular_buffer \<Rightarrow> 's \<Rightarrow> fault + 's"
where
  "AESD_CIRCULAR_BUFFER_FOREACH f b s = foreach_from f b 0 s"


section \<open>The scan order, the invariant and the contents\<close>

text \<open>The \<open>k\<close>-th slot the scanning loops visit, and the ten entries in that order.\<close>

definition ring_slot :: "aesd_circular_buffer \<Rightarrow> nat \<Rightarrow> nat" where
  "ring_slot b k = (unat (out_offs b) + k) mod 10"

definition ring_entries :: "aesd_circular_buffer \<Rightarrow> aesd_buffer_entry list" where
  "ring_entries b = map (\<lambda>k. entry b ! ring_slot b k) [0..<10]"

definition cb_shape :: "aesd_circular_buffer \<Rightarrow> bool" where
  "cb_shape b \<longleftrightarrow> length (entry b) = 10 \<and> unat (in_offs b) < 10 \<and> unat (out_offs b) < 10"

text \<open>
  The invariant of every buffer that starts from \<open>aesd_circular_buffer_init\<close> and is changed by
  \<open>aesd_circular_buffer_add_entry\<close> only: before the ring is full nothing has wrapped and the unused
  slots are zero, afterwards both offsets agree.
\<close>

definition cb_inv :: "aesd_circular_buffer \<Rightarrow> bool" where
  "cb_inv b \<longleftrightarrow> cb_shape b \<and>
     (if full b then in_offs b = out_offs b
      else out_offs b = 0 \<and> list_all (\<lambda>e. e = null_entry) (drop (unat (in_offs b)) (entry b)))"

definition cb_list :: "aesd_circular_buffer \<Rightarrow> aesd_buffer_entry list" where
  "cb_list b = take (unat (aesd_circular_buffer_get_count b)) (ring_entries b)"

abbreviation sizes :: "aesd_buffer_entry list \<Rightarrow> nat list" where
  "sizes es \<equiv> map (\<lambda>e. unat (entry_size e)) es"

lemma cb_shapeD:
  "cb_shape b \<Longrightarrow> length (entry b) = 10"
  "cb_shape b \<Longrightarrow> unat (in_offs b) < 10"
  "cb_shape b \<Longrightarrow> unat (out_offs b) < 10"
  by (simp_all add: cb_shape_def)

lemma cb_inv_shape [simp]: "cb_inv b \<Longrightarrow> cb_shape b"
  by (simp add: cb_inv_def)

lemma length_ring_entries [simp]: "length (ring_entries b) = 10"
  by (simp add: ring_entries_def)

lemma ring_slot_less: "ring_slot b k < 10"
  by (simp add: ring_slot_def)

lemma ring_entries_nth: "k < 10 \<Longrightarrow> ring_entries b ! k = entry b ! ring_slot b k"
  by (simp add: ring_entries_def)

section \<open>The scanning loop\<close>

text \<open>The loop over a list of entries with their indices, which the ring scan unrolls to.\<close>

fun list_scan :: "('e \<Rightarrow> 'i \<Rightarrow> 'acc \<Rightarrow> 'r + 'acc) \<Rightarrow> ('acc \<Rightarrow> 'r) \<Rightarrow> ('e \<times> 'i) list \<Rightarrow> 'acc \<Rightarrow> 'r" where
  "list_scan body fin [] acc = fin acc"
| "list_scan body fin ((e, i) # xs) acc =
     (case body e i acc of Inl r \<Rightarrow> r | Inr acc' \<Rightarrow> list_scan body fin xs acc')"

definition ring_pairs :: "aesd_circular_buffer \<Rightarrow> (aesd_buffer_entry \<times> u32) list" where
  "ring_pairs b = map (\<lambda>k. (entry b ! ring_slot b k, of_nat (ring_slot b k))) [0..<10]"

lemma length_ring_pairs [simp]: "length (ring_pairs b) = 10"
  by (simp add: ring_pairs_def)

lemma ring_pairs_nth:
  "k < 10 \<Longrightarrow> ring_pairs b ! k = (entry b ! ring_slot b k, of_nat (ring_slot b k))"
  by (simp add: ring_pairs_def)

lemma unat_ring_index [simp]: "unat (of_nat (ring_slot b k) :: u32) = ring_slot b k"
  using ring_slot_less [of b k] by (intro unat_of_nat_small) simp

lemma unat_ucast_u8 [simp]: "unat (ucast (i :: u8) :: u32) = unat i"
  by transfer (simp add: take_bit_eq_mod)

lemma unat_ucast_u32_u8: "unat (ucast (w :: u32) :: u8) = unat w mod 256"
  by (simp add: unsigned_ucast_eq unsigned_take_bit_eq take_bit_eq_mod unat_mod)

lemma ring_index_step:
  "((of_nat (ring_slot b k) :: u32) + 1) mod 10 = of_nat (ring_slot b (Suc k))"
proof -
  have "unat (((of_nat (ring_slot b k) :: u32) + 1) mod 10) = Suc (ring_slot b k) mod 10"
    using ring_slot_less [of b k]
    by (simp add: unat_mod unat_small_add)
  also have "\<dots> = ring_slot b (Suc k)"
    by (simp add: ring_slot_def mod_Suc_eq)
  finally show ?thesis
    by (simp add: word_unat_eq_iff)
qed

lemma ring_index_last:
  assumes "cb_shape b" and "k < 10"
  shows "of_nat (ring_slot b (Suc k)) = (ucast (out_offs b) :: u32) \<longleftrightarrow> k = 9"
proof -
  have o: "unat (out_offs b) < 10" using assms(1) by (rule cb_shapeD)
  have "of_nat (ring_slot b (Suc k)) = (ucast (out_offs b) :: u32)
    \<longleftrightarrow> (unat (out_offs b) + Suc k) mod 10 = unat (out_offs b)"
    unfolding ring_slot_def [symmetric] by (simp add: word_unat_eq_iff)
  also have "\<dots> \<longleftrightarrow> k = 9"
    using mod_add_wraps [OF o assms(2)] by simp
  finally show ?thesis .
qed

lemma ring_scan_from:
  assumes "cb_shape b" and "k < 10"
  shows "ring_scan body fin b (of_nat (ring_slot b k)) acc
    = Some (Inr (list_scan body fin (drop k (ring_pairs b)) acc))"
  using assms(2)
proof (induction "9 - k" arbitrary: k acc)
  case 0
  then have k: "k = 9" by simp
  have "drop 9 (ring_pairs b) = [ring_pairs b ! 9]"
    using Cons_nth_drop_Suc [of 9 "ring_pairs b"] by simp
  then show ?case
    using assms(1) k ring_index_last [OF assms(1), of 9]
    by (subst ring_scan.simps)
      (auto simp: cb_shapeD ring_slot_less ring_index_step ring_pairs_nth split: sum.split)
next
  case (Suc n)
  have k: "k < 9" using Suc.hyps(2) by simp
  have d: "drop k (ring_pairs b) = ring_pairs b ! k # drop (Suc k) (ring_pairs b)"
    using k by (simp add: Cons_nth_drop_Suc)
  have IH: "\<And>acc. ring_scan body fin b (of_nat (ring_slot b (Suc k))) acc
    = Some (Inr (list_scan body fin (drop (Suc k) (ring_pairs b)) acc))"
    using Suc.hyps k by simp
  show ?case
    using assms(1) k ring_index_last [OF assms(1), of k] IH
    by (subst ring_scan.simps)
      (auto simp: d cb_shapeD ring_slot_less ring_index_step ring_pairs_nth split: sum.split)
qed

text \<open>The loop ends and never leaves the array, whatever the body does.\<close>

lemma ring_scan_list:
  assumes "cb_shape b"
  shows "ring_scan body fin b (ucast (out_offs b)) acc
    = Some (Inr (list_scan body fin (ring_pairs b) acc))"
proof -
  have "ring_slot b 0 = unat (out_offs b)"
    using cb_shapeD(3) [OF assms] by (simp add: ring_slot_def)
  then have "of_nat (ring_slot b 0) = (ucast (out_offs b) :: u32)"
    by (simp add: word_unat_eq_iff)
  then show ?thesis
    using ring_scan_from [OF assms, of 0 body fin acc] by simp
qed

section \<open>Count and contents\<close>

lemma unat_next_offs: "unat i < 10 \<Longrightarrow> unat (next_offs i) = Suc (unat i) mod 10"
proof -
  assume i: "unat i < 10"
  have "unat (((ucast i :: u32) + 1) mod 10) = Suc (unat i) mod 10"
    using i by (simp add: unat_mod unat_small_add)
  then show ?thesis
    by (simp add: next_offs_def unat_ucast_u32_u8 less_le_trans [OF mod_less_divisor])
qed

lemma unat_get_count:
  "cb_inv b \<Longrightarrow> unat (aesd_circular_buffer_get_count b) = (if full b then 10 else unat (in_offs b))"
  by (simp add: aesd_circular_buffer_get_count_def cb_inv_def)

lemma ring_entries_rotate:
  assumes "cb_shape b"
  shows "ring_entries b = rotate (unat (out_offs b)) (entry b)"
  using cb_shapeD(1) [OF assms]
  by (intro nth_equalityI) (simp_all add: ring_entries_nth ring_slot_def nth_rotate)

lemma cb_list_not_full:
  assumes "cb_inv b" and "\<not> full b"
  shows "cb_list b = take (unat (in_offs b)) (entry b)"
proof -
  have "out_offs b = 0" using assms by (simp add: cb_inv_def)
  then show ?thesis
    using assms by (simp add: cb_list_def unat_get_count ring_entries_rotate)
qed

lemma cb_list_full:
  "cb_inv b \<Longrightarrow> full b \<Longrightarrow> cb_list b = rotate (unat (out_offs b)) (entry b)"
  by (simp add: cb_list_def unat_get_count ring_entries_rotate cb_shapeD)

lemma length_cb_list:
  "cb_inv b \<Longrightarrow> length (cb_list b) = unat (aesd_circular_buffer_get_count b)"
  using cb_shapeD(2) [of b] by (simp add: cb_list_def unat_get_count)

lemma length_cb_list_le: "length (cb_list b) \<le> 10"
  by (simp add: cb_list_def)

lemma cb_list_nth: "k < length (cb_list b) \<Longrightarrow> cb_list b ! k = entry b ! ring_slot b k"
  by (simp add: cb_list_def ring_entries_nth)

lemma ring_entries_padded:
  assumes "cb_inv b"
  shows "ring_entries b = cb_list b @ replicate (10 - length (cb_list b)) null_entry"
proof (cases "full b")
  case True
  with assms show ?thesis
    by (simp add: cb_list_full ring_entries_rotate cb_shapeD)
next
  case False
  let ?n = "unat (in_offs b)"
  have len: "length (entry b) = 10" using assms by (simp add: cb_shapeD)
  have n: "?n < 10" using assms by (simp add: cb_shapeD)
  have "drop ?n (entry b) = replicate (10 - ?n) null_entry"
    using assms False len by (intro replicate_eqI) (simp_all add: cb_inv_def list_all_iff)
  then have "entry b = take ?n (entry b) @ replicate (10 - ?n) null_entry"
    by (metis append_take_drop_id)
  moreover have "out_offs b = 0" using assms False by (simp add: cb_inv_def)
  ultimately show ?thesis
    using assms False len n by (simp add: cb_list_not_full ring_entries_rotate)
qed

section \<open>Adding an entry\<close>

lemma cb_inv_init: "cb_inv aesd_circular_buffer_init"
  by (simp add: cb_inv_def cb_shape_def aesd_circular_buffer_init_def list_all_iff)

lemma cb_list_init: "cb_list aesd_circular_buffer_init = []"
  by (simp add: cb_list_def aesd_circular_buffer_init_def aesd_circular_buffer_get_count_def)

lemma add_entry_not_full:
  fixes e :: aesd_buffer_entry
  assumes inv: "cb_inv b" and nf: "\<not> full b"
  defines "b' \<equiv> b\<lparr>entry := (entry b)[unat (in_offs b) := e], in_offs := next_offs (in_offs b),
                   full := unat (in_offs b) = 9\<rparr>"
  shows "aesd_circular_buffer_add_entry b e = Inr b'" and "cb_inv b'"
    and "cb_list b' = cb_list b @ [e]"
proof -
  let ?n = "unat (in_offs b)"
  have len: "length (entry b) = 10" and n: "?n < 10" and out: "out_offs b = 0"
    using inv nf by (simp_all add: cb_inv_def cb_shape_def)
  have cnt: "aesd_circular_buffer_get_count b = of_nat ?n"
    using unat_get_count [OF inv] nf by (metis of_nat_unat_eq)
  have "(of_nat ?n :: u32) < 10" and "((of_nat ?n :: u32) + 1 = 10) = (?n = 9)"
    using n by (simp_all add: word_less_nat_alt word_unat_eq_iff unat_small_add)
  then show add: "aesd_circular_buffer_add_entry b e = Inr b'"
    using n nf len cnt
    by (auto simp: aesd_circular_buffer_add_entry_def b'_def Let_def)
  have nxt: "unat (next_offs (in_offs b)) = (if ?n = 9 then 0 else Suc ?n)"
    using unat_next_offs [OF n] n by simp
  then have nxt0: "?n = 9 \<Longrightarrow> next_offs (in_offs b) = 0"
    by (simp add: word_unat_eq_iff)
  show inv': "cb_inv b'"
    using inv nf n len out nxt nxt0 set_drop_subset_set_drop [of ?n "Suc ?n" "entry b"]
    by (auto simp: cb_inv_def cb_shape_def b'_def list_all_iff)
  have upd: "take (Suc ?n) ((entry b)[?n := e]) = take ?n (entry b) @ [e]"
    using n len by (simp add: take_Suc_conv_app_nth)
  show "cb_list b' = cb_list b @ [e]"
  proof (cases "?n = 9")
    case True
    then have "cb_list b' = (entry b)[9 := e]"
      using cb_list_full [OF inv'] out by (simp add: b'_def)
    then show ?thesis
      using True upd len cb_list_not_full [OF inv nf] by simp
  next
    case False
    then have "cb_list b' = take (Suc ?n) ((entry b)[?n := e])"
      using cb_list_not_full [OF inv'] nxt by (simp add: b'_def)
    then show ?thesis
      using upd cb_list_not_full [OF inv nf] by simp
  qed
qed

lemma rotate_update_hd:
  assumes "i < length xs"
  shows "rotate i (xs[i := e]) = e # tl (rotate i xs)"
proof -
  have "rotate i (xs[i := e]) = (rotate i xs)[0 := e]"
  proof (rule nth_equalityI)
    fix k
    assume "k < length (rotate i (xs[i := e]))"
    then have k: "k < length xs" by simp
    show "rotate i (xs[i := e]) ! k = (rotate i xs)[0 := e] ! k"
      using assms k mod_add_self_iff [OF assms k] by (cases "k = 0") (auto simp: nth_rotate)
  qed simp
  also have "\<dots> = e # tl (rotate i xs)"
    using assms by (cases "rotate i xs") auto
  finally show ?thesis .
qed

lemma rotate_update_front:
  "i < length xs \<Longrightarrow> rotate (Suc i) (xs[i := e]) = tl (rotate i xs) @ [e]"
  by (simp add: rotate_update_hd)

lemma add_entry_full:
  fixes e :: aesd_buffer_entry
  assumes inv: "cb_inv b" and f: "full b"
  defines "b' \<equiv> b\<lparr>entry := (entry b)[unat (in_offs b) := e], in_offs := next_offs (in_offs b),
                   out_offs := next_offs (in_offs b)\<rparr>"
  shows "aesd_circular_buffer_add_entry b e = Inr b'" and "cb_inv b'"
    and "cb_list b' = tl (cb_list b) @ [e]"
proof -
  let ?i = "unat (in_offs b)"
  have len: "length (entry b) = 10" and i: "?i < 10" and io: "in_offs b = out_offs b"
    using inv f by (simp_all add: cb_inv_def cb_shape_def)
  show "aesd_circular_buffer_add_entry b e = Inr b'"
    using f i len
    by (simp add: aesd_circular_buffer_add_entry_def b'_def aesd_circular_buffer_get_count_def)
  show inv': "cb_inv b'"
    using inv f i unat_next_offs [OF i]
    by (simp add: cb_inv_def cb_shape_def b'_def)
  have "cb_list b' = rotate (unat (next_offs (in_offs b))) ((entry b)[?i := e])"
    using cb_list_full [OF inv'] f by (simp add: b'_def)
  also have "\<dots> = rotate (Suc ?i) ((entry b)[?i := e])"
    using unat_next_offs [OF i] len by (subst (2) rotate_conv_mod) simp
  also have "\<dots> = tl (cb_list b) @ [e]"
    using rotate_update_front [of ?i "entry b" e] i len cb_list_full [OF inv f] io by simp
  finally show "cb_list b' = tl (cb_list b) @ [e]" .
qed

lemma add_entry_spec:
  assumes inv: "cb_inv b"
  obtains b' where "aesd_circular_buffer_add_entry b e = Inr b'" and "cb_inv b'"
    and "cb_list b' = keep_last 10 (cb_list b @ [e])"
proof (cases "full b")
  case True
  have "length (cb_list b) = 10" using True inv by (simp add: length_cb_list unat_get_count)
  then have "keep_last 10 (cb_list b @ [e]) = tl (cb_list b) @ [e]"
    by (simp add: keep_last_snoc_full)
  then show ?thesis
    using add_entry_full [OF inv True, of e] that by simp
next
  case False
  have "length (cb_list b) < 10"
    using False inv cb_shapeD(2) [of b] by (simp add: length_cb_list unat_get_count)
  then have "keep_last 10 (cb_list b @ [e]) = cb_list b @ [e]" by simp
  then show ?thesis
    using add_entry_not_full [OF inv False, of e] that by simp
qed

interpretation ring: recent_store aesd_circular_buffer_init aesd_circular_buffer_add_entry
  cb_list cb_inv 10
proof (unfold_locales, goal_cases)
  case 1
  show ?case by (rule cb_inv_init)
next
  case 2
  show ?case by (rule cb_list_init)
next
  case (3 b e)
  then show ?case by (rule add_entry_spec [of b e]) blast
qed

section \<open>Positions\<close>

lemma ring_slot_inj: "j < 10 \<Longrightarrow> k < 10 \<Longrightarrow> ring_slot b j = ring_slot b k \<longleftrightarrow> j = k"
proof -
  have "j = k" if "j \<le> k" "k < 10" "ring_slot b j = ring_slot b k" for j k
  proof -
    have "(ring_slot b j + (k - j)) mod 10 = ring_slot b k"
      unfolding ring_slot_def using that(1) by (subst mod_add_left_eq) simp
    then have "(ring_slot b j + (k - j)) mod 10 = ring_slot b j"
      using that(3) by simp
    moreover have "k - j < 10" using that(2) by simp
    ultimately have "k - j = 0"
      using mod_add_self_iff [OF ring_slot_less, of "k - j" b j] by blast
    with that(1) show "j = k" by simp
  qed
  then show "j < 10 \<Longrightarrow> k < 10 \<Longrightarrow> ring_slot b j = ring_slot b k \<longleftrightarrow> j = k"
    by (metis nat_le_linear)
qed

lemma map_fst_ring_pairs [simp]: "map fst (ring_pairs b) = ring_entries b"
  by (simp add: ring_pairs_def ring_entries_def)

lemma find_scan:
  assumes "unat acc + sum_list (sizes (map fst xs)) < 2 ^ 64" and "acc \<le> c"
  shows "list_scan
      (\<lambda>e index pos_bytes. if c < pos_bytes + entry_size e then Inl (Some (index, c - pos_bytes))
         else Inr (pos_bytes + entry_size e)) (\<lambda>_. None) xs acc
    = (case locate (sizes (map fst xs)) (unat c - unat acc) of None \<Rightarrow> None
       | Some (k, off) \<Rightarrow> Some (snd (xs ! k), of_nat off))"
  using assms
proof (induction xs arbitrary: acc)
  case Nil
  then show ?case by simp
next
  case (Cons x xs)
  obtain e i where x: "x = (e, i)" by fastforce
  have le: "unat acc \<le> unat c" using Cons.prems(2) by (simp add: word_le_nat_alt)
  have sum: "unat (acc + entry_size e) = unat acc + unat (entry_size e)"
    using Cons.prems(1) x by (intro unat_small_add) simp
  have lt: "c < acc + entry_size e \<longleftrightarrow> unat c - unat acc < unat (entry_size e)"
    using le by (auto simp: word_less_nat_alt sum)
  show ?case
  proof (cases "c < acc + entry_size e")
    case True
    moreover have "c - acc = of_nat (unat c - unat acc)"
      using le by (simp add: of_nat_diff)
    ultimately show ?thesis using lt x by simp
  next
    case False
    have "list_scan
      (\<lambda>e index pos_bytes. if c < pos_bytes + entry_size e then Inl (Some (index, c - pos_bytes))
         else Inr (pos_bytes + entry_size e)) (\<lambda>_. None) xs (acc + entry_size e)
      = (case locate (sizes (map fst xs)) (unat c - unat (acc + entry_size e)) of None \<Rightarrow> None
         | Some (k, off) \<Rightarrow> Some (snd (xs ! k), of_nat off))"
      using Cons.prems False x by (intro Cons.IH) (simp_all add: sum)
    with False lt x sum show ?thesis
      by (auto split: option.splits)
  qed
qed

lemma find_entry_locate:
  assumes "cb_inv b" and "sum_list (sizes (cb_list b)) < 2 ^ 64"
  shows "aesd_circular_buffer_find_entry_offset_for_fpos b c
    = Some (Inr (case locate (sizes (cb_list b)) (unat c) of None \<Rightarrow> None
        | Some (k, off) \<Rightarrow> Some (of_nat (ring_slot b k), of_nat off)))"
proof -
  have sz: "sizes (ring_entries b) = sizes (cb_list b) @ replicate (10 - length (cb_list b)) 0"
    using ring_entries_padded [OF assms(1)] by (simp add: null_entry_def)
  have loc: "locate (sizes (ring_entries b)) n = locate (sizes (cb_list b)) n" for n
    by (simp only: sz locate_append_zeros)
  have "sum_list (sizes (ring_entries b)) < 2 ^ 64"
    using assms(2) by (simp add: sz sum_list_replicate)
  then have "aesd_circular_buffer_find_entry_offset_for_fpos b c
    = Some (Inr (case locate (sizes (ring_entries b)) (unat c) of None \<Rightarrow> None
        | Some (k, off) \<Rightarrow> Some (snd (ring_pairs b ! k), of_nat off)))"
    using assms(1) find_scan [of 0 "ring_pairs b" c]
    by (simp add: aesd_circular_buffer_find_entry_offset_for_fpos_def ring_scan_list)
  moreover have "k < 10" if "locate (sizes (ring_entries b)) n = Some (k, off)" for n k off
    using that by (simp add: locate_Some_iff)
  ultimately show ?thesis
    by (auto simp: loc ring_pairs_nth split: option.splits)
qed

lemma fpos_scan:
  fixes i :: "'i" and acc :: size_t
  assumes "k < length xs" and "\<And>j. j < length xs \<Longrightarrow> snd (xs ! j) = i \<longleftrightarrow> j = k"
  shows "list_scan
      (\<lambda>e index pos_bytes. if index = i
         then (if off \<ge> entry_size e then Inl None else Inl (Some (pos_bytes + off)))
         else Inr (pos_bytes + entry_size e)) (\<lambda>_. None) xs acc
    = (if off < entry_size (fst (xs ! k))
       then Some (acc + of_nat (sum_list (sizes (take k (map fst xs)))) + off) else None)"
  using assms
proof (induction xs arbitrary: k acc)
  case Nil
  then show ?case by simp
next
  case (Cons x xs)
  obtain e ix where x: "x = (e, ix)" by fastforce
  show ?case
  proof (cases k)
    case 0
    then show ?thesis using Cons.prems(2) [of 0] x by (auto simp: not_le)
  next
    case (Suc j)
    have "ix \<noteq> i" using Cons.prems(2) [of 0] Suc x by simp
    moreover have "snd (xs ! m) = i \<longleftrightarrow> m = j" if "m < length xs" for m
      using Cons.prems(2) [of "Suc m"] Suc that by simp
    ultimately show ?thesis
      using Cons.IH [of j "acc + entry_size e"] Cons.prems(1) Suc x
      by (simp add: algebra_simps)
  qed
qed

lemma fpos_for_entry_eq:
  assumes "cb_shape b" and "k < 10"
  shows "aesd_circular_buffer_fpos_for_entry b (of_nat (ring_slot b k)) off
    = Some (Inr (if off < entry_size (ring_entries b ! k)
        then Some (of_nat (sum_list (sizes (take k (ring_entries b)))) + off) else None))"
proof -
  have "snd (ring_pairs b ! j) = of_nat (ring_slot b k) \<longleftrightarrow> j = k" if "j < 10" for j
    using that assms(2) ring_slot_inj [of j k b] by (simp add: ring_pairs_nth word_unat_eq_iff)
  then show ?thesis
    using assms fpos_scan [of k "ring_pairs b" "of_nat (ring_slot b k)" off 0]
    by (simp add: aesd_circular_buffer_fpos_for_entry_def ring_scan_list ring_pairs_nth ring_entries_nth)
qed

lemma fpos_for_entry_stray:
  assumes "cb_shape b" and "10 \<le> unat ent"
  shows "aesd_circular_buffer_fpos_for_entry b ent off = Some (Inr None)"
proof -
  have no: "\<forall>p \<in> set (ring_pairs b). snd p \<noteq> ent"
    using assms(2) ring_slot_less [of b] by (auto simp: ring_pairs_def word_unat_eq_iff) (metis leD)
  have "list_scan
      (\<lambda>e index pos_bytes. if index = ent
         then (if off \<ge> entry_size e then Inl None else Inl (Some (pos_bytes + off)))
         else Inr (pos_bytes + entry_size e)) (\<lambda>_. None) xs acc = None"
    if "\<forall>p \<in> set xs. snd p \<noteq> ent" for xs acc
    using that by (induction xs arbitrary: acc) auto
  from this [OF no] show ?thesis
    using assms(1) by (simp add: aesd_circular_buffer_fpos_for_entry_def ring_scan_list)
qed

lemma get_size_eq:
  assumes "cb_inv b"
  shows "aesd_circular_buffer_get_size b = Some (Inr (of_nat (sum_list (sizes (cb_list b)))))"
proof -
  have "list_scan (\<lambda>e _ sz. Inr (sz + entry_size e)) (\<lambda>sz. sz) xs acc
      = acc + of_nat (sum_list (sizes (map fst xs)))" for xs :: "(aesd_buffer_entry \<times> u32) list" and acc
    by (induction xs arbitrary: acc) (auto simp: algebra_simps)
  then have "aesd_circular_buffer_get_size b
      = Some (Inr (of_nat (sum_list (sizes (ring_entries b)))))"
    using assms by (simp add: aesd_circular_buffer_get_size_def ring_scan_list flip: map_fst_ring_pairs)
  also have "sum_list (sizes (ring_entries b)) = sum_list (sizes (cb_list b))"
    using ring_entries_padded [OF assms] by (simp add: null_entry_def sum_list_replicate)
  finally show ?thesis .
qed

lemma ring_slot_surj:
  assumes "i < 10"
  obtains k where "k < 10" and "ring_slot b k = i"
proof
  let ?o = "unat (out_offs b) mod 10"
  show "(i + (10 - ?o)) mod 10 < 10" by simp
  have "?o < 10" by simp
  then have "?o + (i + (10 - ?o)) = i + 10" by arith
  then have "(?o + (i + (10 - ?o)) mod 10) mod 10 = i"
    using assms by (simp only: mod_add_right_eq) simp
  then show "ring_slot b ((i + (10 - ?o)) mod 10) = i"
    by (simp add: ring_slot_def mod_add_left_eq)
qed

lemma find_entry_Some_iff:
  assumes "cb_inv b" and "sum_list (sizes (cb_list b)) < 2 ^ 64" and "k < 10"
  shows "aesd_circular_buffer_find_entry_offset_for_fpos b c
      = Some (Inr (Some (of_nat (ring_slot b k), off)))
    \<longleftrightarrow> locate (sizes (cb_list b)) (unat c) = Some (k, unat off)"
proof -
  have "j < 10 \<and> m < 2 ^ 64" if "locate (sizes (cb_list b)) (unat c) = Some (j, m)" for j m
  proof -
    have "j < length (cb_list b)" and "m < unat (entry_size (cb_list b ! j))"
      using that by (auto simp: locate_Some_iff)
    then show ?thesis
      using length_cb_list_le [of b] unat_size_t_less [of "entry_size (cb_list b ! j)"] by simp
  qed
  note bound = this
  have slot: "(of_nat (ring_slot b j) :: u32) = of_nat (ring_slot b k) \<longleftrightarrow> j = k" if "j < 10" for j
    using that assms(3) ring_slot_inj [of j k b] by (simp add: word_unat_eq_iff)
  have m: "(of_nat m :: size_t) = off \<longleftrightarrow> m = unat off" if "m < 2 ^ 64" for m
    using that by (auto simp: word_unat_eq_iff unat_of_nat_small)
  show ?thesis
  proof (cases "locate (sizes (cb_list b)) (unat c)")
    case None
    then show ?thesis by (simp add: find_entry_locate [OF assms(1,2)])
  next
    case (Some p)
    obtain j m where p: "p = (j, m)" by fastforce
    have "j < 10" and "m < 2 ^ 64" using bound [of j m] Some p by simp_all
    then show ?thesis
      using Some p slot [of j] m [of m] by (simp add: find_entry_locate [OF assms(1,2)])
  qed
qed

lemma fpos_for_entry_Some_iff:
  assumes "cb_inv b" and "sum_list (sizes (cb_list b)) < 2 ^ 64" and "k < 10"
  shows "aesd_circular_buffer_fpos_for_entry b (of_nat (ring_slot b k)) off = Some (Inr (Some c))
    \<longleftrightarrow> locate (sizes (cb_list b)) (unat c) = Some (k, unat off)"
proof -
  let ?S = "sizes (cb_list b)" and ?R = "sizes (ring_entries b)"
  have R: "?R = ?S @ replicate (10 - length (cb_list b)) 0"
    using ring_entries_padded [OF assms(1)] by (simp add: null_entry_def)
  have sumR: "sum_list ?R < 2 ^ 64" using assms(2) by (simp add: R sum_list_replicate)
  have split: "sum_list (take k ?R) + ?R ! k \<le> sum_list ?R"
    using assms(3) by (intro sum_list_take_nth_le) simp
  have "aesd_circular_buffer_fpos_for_entry b (of_nat (ring_slot b k)) off = Some (Inr (Some c))
    \<longleftrightarrow> unat off < ?R ! k \<and> of_nat (sum_list (take k ?R)) + off = c"
    using fpos_for_entry_eq [of b k off] assms(1,3) by (simp add: word_less_nat_alt take_map)
  also have "\<dots> \<longleftrightarrow> unat off < ?R ! k \<and> sum_list (take k ?R) + unat off = unat c"
  proof (cases "unat off < ?R ! k")
    case True
    then have "sum_list (take k ?R) + unat off < 2 ^ 64" using split sumR by linarith
    then have "unat (of_nat (sum_list (take k ?R)) + off) = sum_list (take k ?R) + unat off"
      by (simp add: unat_small_add unat_of_nat_small)
    then show ?thesis by (auto simp: word_unat_eq_iff)
  qed simp
  also have "\<dots> \<longleftrightarrow> locate ?R (unat c) = Some (k, unat off)"
    using assms(3) by (simp add: locate_Some_iff)
  also have "\<dots> \<longleftrightarrow> locate ?S (unat c) = Some (k, unat off)"
    by (simp only: R locate_append_zeros)
  finally show ?thesis .
qed

lemma foreach_from_fold:
  assumes "length (entry b) = 10" and "n \<le> 10"
  shows "foreach_from f b (of_nat n) s = Inr (fold f (drop n (entry b)) s)"
  using assms(2)
proof (induction "10 - n" arbitrary: n s)
  case 0
  then have "n = 10" by simp
  then show ?case using assms(1) by (subst foreach_from.simps) simp
next
  case (Suc m)
  then have n: "n < 10" by simp
  then have u: "unat (of_nat n :: u8) = n" by (intro unat_of_nat_small) simp
  then have "(of_nat n :: u8) < of_nat MAXW" using n by (simp add: word_less_nat_alt)
  moreover have "(of_nat n :: u8) + 1 = of_nat (Suc n)" by simp
  moreover have "foreach_from f b (of_nat (Suc n)) (f (entry b ! n) s)
      = Inr (fold f (drop (Suc n) (entry b)) (f (entry b ! n) s))"
    using Suc.hyps(1) [of "Suc n"] Suc.hyps(2) n by simp
  moreover have "drop n (entry b) = entry b ! n # drop (Suc n) (entry b)"
    using n assms(1) by (simp add: Cons_nth_drop_Suc)
  ultimately show ?case
    using u n assms(1) by (subst foreach_from.simps) (simp del: of_nat_Suc)
qed

section \<open>Properties of the circular buffer\<close>

text \<open>C9. Adding an entry refines "append to the list and keep the last ten": on every buffer that
  satisfies the invariant it stays inside the array, keeps the invariant, the contents become the
  last ten of the old contents followed by the new entry, and the count grows by one up to ten.\<close>

theorem ring_add_refines_keep_last:
  assumes "cb_inv b"
  shows "\<exists>b'. aesd_circular_buffer_add_entry b e = Inr b' \<and> cb_inv b'
    \<and> cb_list b' = keep_last 10 (cb_list b @ [e])
    \<and> unat (aesd_circular_buffer_get_count b') = min 10 (Suc (unat (aesd_circular_buffer_get_count b)))"
proof -
  obtain b' where "aesd_circular_buffer_add_entry b e = Inr b'" "cb_inv b'"
    "cb_list b' = keep_last 10 (cb_list b @ [e])"
    using assms by (rule add_entry_spec)
  moreover from this have "length (cb_list b') = min 10 (Suc (length (cb_list b)))" by simp
  ultimately show ?thesis
    using length_cb_list [OF assms] length_cb_list [of b'] by (intro exI [of _ b']) simp
qed

theorem ring_add_refines_keep_last_witness:
  "cb_inv aesd_circular_buffer_init
   \<and> (\<exists>b'. aesd_circular_buffer_add_entry aesd_circular_buffer_init \<lparr>buffptr = Ptr 3, entry_size = 7\<rparr> = Inr b'
        \<and> cb_list b' = keep_last 10 [\<lparr>buffptr = Ptr 3, entry_size = 7\<rparr>])"
  using cb_inv_init ring_add_refines_keep_last
    [OF cb_inv_init, of "\<lparr>buffptr = Ptr 3, entry_size = 7\<rparr>"]
  by (auto simp: cb_list_init)

text \<open>After any sequence of additions to a fresh buffer, of any length, the buffer holds exactly the
  last ten entries in the order of their addition, and no addition left the array.\<close>

theorem ring_holds_last_ten:
  "\<exists>b. fold_fault aesd_circular_buffer_add_entry aesd_circular_buffer_init es = Inr b
     \<and> cb_inv b \<and> cb_list b = keep_last 10 es"
  using ring.add_all_new [of es] keep_last_short [OF length_cb_list_le] by auto

text \<open>C19. Looking up a file position: at or past the total size the result is NULL; before it, the
  result is the slot of the entry that holds this byte of the concatenation and the byte's offset
  in the entry.\<close>

theorem find_entry_for_position:
  assumes "cb_inv b" and "sum_list (sizes (cb_list b)) < 2 ^ 64"
  shows "if sum_list (sizes (cb_list b)) \<le> unat c
    then aesd_circular_buffer_find_entry_offset_for_fpos b c = Some (Inr None)
    else \<exists>k off. aesd_circular_buffer_find_entry_offset_for_fpos b c
             = Some (Inr (Some (of_nat (ring_slot b k), of_nat off)))
           \<and> k < length (cb_list b) \<and> off < unat (entry_size (cb_list b ! k))
           \<and> sum_list (take k (sizes (cb_list b))) + off = unat c"
proof (cases "locate (sizes (cb_list b)) (unat c)")
  case None
  then show ?thesis using locate_None_iff [of "sizes (cb_list b)" "unat c"]
    by (simp add: find_entry_locate [OF assms])
next
  case (Some p)
  obtain k off where p: "p = (k, off)" by fastforce
  have "\<not> sum_list (sizes (cb_list b)) \<le> unat c"
    using Some locate_None_iff [of "sizes (cb_list b)" "unat c"] by simp
  moreover have "k < length (cb_list b)" "off < unat (entry_size (cb_list b ! k))"
    "sum_list (take k (sizes (cb_list b))) + off = unat c"
    using Some p by (auto simp: locate_Some_iff)
  ultimately show ?thesis using Some p by (auto simp: find_entry_locate [OF assms])
qed

definition sample_ring :: aesd_circular_buffer where
  "sample_ring =
     \<lparr>entry = [\<lparr>buffptr = Ptr 1, entry_size = 3\<rparr>, \<lparr>buffptr = Ptr 2, entry_size = 4\<rparr>]
              @ replicate 8 null_entry,
      in_offs = 2, out_offs = 0, full = False\<rparr>"

lemma sample_ring_inv: "cb_inv sample_ring"
  by (simp add: cb_inv_def cb_shape_def sample_ring_def list_all_iff)

lemma sample_ring_list: "cb_list sample_ring
    = [\<lparr>buffptr = Ptr 1, entry_size = 3\<rparr>, \<lparr>buffptr = Ptr 2, entry_size = 4\<rparr>]"
  using cb_list_not_full [OF sample_ring_inv] by (simp add: sample_ring_def)

theorem find_entry_for_position_witness:
  "cb_inv sample_ring \<and> sum_list (sizes (cb_list sample_ring)) < 2 ^ 64
   \<and> aesd_circular_buffer_find_entry_offset_for_fpos sample_ring 9 = Some (Inr None)"
  using find_entry_for_position [OF sample_ring_inv, of 9] sample_ring_inv
  by (simp add: sample_ring_list)

text \<open>C21. The two position functions are inverse to each other: a position is found at (slot, offset)
  exactly when the slot and offset are inside the array and translate back to this position.\<close>

theorem fpos_find_roundtrip:
  assumes "cb_inv b" and "sum_list (sizes (cb_list b)) < 2 ^ 64" and "unat i < 10"
  shows "aesd_circular_buffer_find_entry_offset_for_fpos b c = Some (Inr (Some (i, off)))
    \<longleftrightarrow> aesd_circular_buffer_fpos_for_entry b i off = Some (Inr (Some c))"
proof -
  obtain k where k: "k < 10" and "ring_slot b k = unat i"
    using assms(3) by (rule ring_slot_surj)
  then have "i = of_nat (ring_slot b k)" by simp
  then show ?thesis
    using find_entry_Some_iff [OF assms(1,2) k] fpos_for_entry_Some_iff [OF assms(1,2) k] by simp
qed

theorem fpos_find_roundtrip_witness:
  "cb_inv sample_ring \<and> aesd_circular_buffer_fpos_for_entry sample_ring 1 2 = Some (Inr (Some 5))
   \<and> aesd_circular_buffer_find_entry_offset_for_fpos sample_ring 5 = Some (Inr (Some (1, 2)))"
proof -
  have "aesd_circular_buffer_fpos_for_entry sample_ring 1 2 = Some (Inr (Some 5))"
    by (simp add: aesd_circular_buffer_fpos_for_entry_def sample_ring_def ring_scan.simps)
  then show ?thesis
    using fpos_find_roundtrip [OF sample_ring_inv, of 1 5 2] sample_ring_inv
    by (simp add: sample_ring_list)
qed

text \<open>The reported size is the sum of the sizes of the stored entries (modulo \<open>2 ^ 64\<close>, so exact
  when the sum fits a \<^verbatim>\<open>size_t\<close>), and it is the first position the lookup rejects.\<close>

theorem get_size_is_first_free_position:
  assumes "cb_inv b" and "sum_list (sizes (cb_list b)) < 2 ^ 64"
  shows "\<exists>n. aesd_circular_buffer_get_size b = Some (Inr n) \<and> unat n = sum_list (sizes (cb_list b))
    \<and> (\<forall>c. aesd_circular_buffer_find_entry_offset_for_fpos b c = Some (Inr None) \<longleftrightarrow> n \<le> c)"
proof -
  let ?n = "of_nat (sum_list (sizes (cb_list b))) :: size_t"
  have n: "unat ?n = sum_list (sizes (cb_list b))" using assms(2) by (simp add: unat_of_nat_small)
  have "aesd_circular_buffer_find_entry_offset_for_fpos b c = Some (Inr None) \<longleftrightarrow> ?n \<le> c" for c
    using locate_None_iff [of "sizes (cb_list b)" "unat c"] n
    by (auto simp: find_entry_locate [OF assms] word_le_nat_alt split: option.splits)
  then show ?thesis using get_size_eq [OF assms(1)] n by blast
qed

theorem get_size_is_first_free_position_witness:
  "\<exists>n. aesd_circular_buffer_get_size sample_ring = Some (Inr n) \<and> unat n = 7"
  using get_size_is_first_free_position [OF sample_ring_inv] by (auto simp: sample_ring_list)

text \<open>The three scanning loops end and stay inside the array on every buffer whose offsets are
  below ten, whatever the entries are and whatever position is asked for.\<close>

theorem ring_scans_return:
  assumes "length (entry b) = 10" and "out_offs b < 10" and "in_offs b < 10"
  shows "\<exists>r s n. aesd_circular_buffer_find_entry_offset_for_fpos b c = Some (Inr r)
    \<and> aesd_circular_buffer_fpos_for_entry b i off = Some (Inr s)
    \<and> aesd_circular_buffer_get_size b = Some (Inr n)"
proof -
  have "cb_shape b" using assms by (simp add: cb_shape_def word_less_nat_alt)
  then show ?thesis
    by (simp add: aesd_circular_buffer_find_entry_offset_for_fpos_def
        aesd_circular_buffer_fpos_for_entry_def aesd_circular_buffer_get_size_def ring_scan_list)
qed

theorem ring_scans_return_witness:
  "\<exists>n. aesd_circular_buffer_get_size sample_ring = Some (Inr n)"
  using ring_scans_return [of sample_ring] by (simp add: sample_ring_def)

text \<open>The FOREACH macro runs its body on each of the ten slots once, in array order, and ends.\<close>

theorem foreach_visits_every_slot:
  assumes "length (entry b) = 10"
  shows "AESD_CIRCULAR_BUFFER_FOREACH f b s = Inr (fold f (entry b) s)"
  using foreach_from_fold [OF assms, of 0 f s] by (simp add: AESD_CIRCULAR_BUFFER_FOREACH_def)

theorem foreach_visits_every_slot_witness:
  "AESD_CIRCULAR_BUFFER_FOREACH (\<lambda>e n. n + unat (entry_size e)) sample_ring 0 = Inr 7"
  using foreach_visits_every_slot [of sample_ring "\<lambda>e n. n + unat (entry_size e)" 0]
  by (simp add: sample_ring_def null_entry_def flip: id_def)

end
