(* ===== verification/Char_Driver.thy ===== *)
theory Char_Driver
  imports Circular_Buffer
begin

text \<open>
  The character device \<^verbatim>\<open>aesd-char-driver/main.c\<close>: the file operations \<^verbatim>\<open>aesd_open\<close>, \<^verbatim>\<open>aesd_release\<close>,
  \<^verbatim>\<open>aesd_read\<close>, \<^verbatim>\<open>aesd_write\<close>, \<^verbatim>\<open>llseek\<close>, \<^verbatim>\<open>unlocked_ioctl\<close>, and the module's set-up and clean-up, over the
  device structure of \<^verbatim>\<open>aesdchar.h\<close> and an explicit heap of the blocks it allocates.  The kernel
  services the driver calls are not part of the repository: they are the fields of the record
  \<open>kernel\<close>, an argument of every operation, and what the driver relies on is the hypothesis
  \<open>kernel_ok\<close>.  The theorems show that the device implements a log of the last ten complete lines
  with one line under construction, that no operation faults, that the lock is released on every
  path, and that unloading the module frees every block exactly once.
\<close>

section \<open>The kernel services\<close>

record aesd_seekto =
  write_cmd :: u32
  write_cmd_offset :: u32

text \<open>
  \<open>kmalloc\<close> and \<open>krealloc\<close> return the new heap and the block, or NULL; \<open>copy_from_user\<close> the bytes now in
  the destination and the number not copied; \<open>copy_to_user\<close> the user's buffer and the number not
  copied; \<open>fixed_size_llseek\<close> the return value and the new file position.  \<open>get_seekto\<close> is
  \<^verbatim>\<open>copy_from_user\<close> of a \<^verbatim>\<open>struct aesd_seekto\<close> at a user address.  The last three fields are the macros of
  \<^verbatim>\<open>asm-generic/ioctl.h\<close>.
\<close>

record kernel =
  kmalloc :: "kheap \<Rightarrow> size_t \<Rightarrow> kheap \<times> ptr"
  krealloc :: "kheap \<Rightarrow> nat \<Rightarrow> size_t \<Rightarrow> kheap \<times> ptr"
  kfree :: "kheap \<Rightarrow> nat \<Rightarrow> kheap"
  kmalloc_max :: nat
  copy_from_user :: "string \<Rightarrow> size_t \<Rightarrow> string \<times> size_t"
  copy_to_user :: "string \<Rightarrow> string \<Rightarrow> string \<times> size_t"
  get_seekto :: "size_t \<Rightarrow> aesd_seekto \<times> size_t"
  fixed_size_llseek :: "loff_t \<Rightarrow> loff_t \<Rightarrow> int \<Rightarrow> loff_t \<Rightarrow> loff_t \<times> loff_t"
  IOC_TYPE :: "u32 \<Rightarrow> u32"
  IOC_NR :: "u32 \<Rightarrow> u32"
  IOWR :: "u32 \<Rightarrow> u32 \<Rightarrow> u32 \<Rightarrow> u32"

text \<open>An allocation fails and changes nothing, or gives a fresh block of the size asked for; sizes
  above the allocator's limit (which is far below \<open>2 ^ 32\<close>) fail.\<close>

definition kmalloc_ok :: "kernel \<Rightarrow> bool" where
  "kmalloc_ok K \<longleftrightarrow> kmalloc_max K < 2 ^ 32 \<and>
     (\<forall>h n h' p. kmalloc K h n = (h', p) \<longrightarrow>
        (case p of NULL \<Rightarrow> h' = h
         | Ptr a \<Rightarrow> h a = None \<and> unat n \<le> kmalloc_max K
             \<and> (\<exists>bs. length bs = unat n \<and> h' = h(a \<mapsto> bs))))"

text \<open>Reallocation of a live block to a larger size: on failure the old block stays as it is, on
  success the contents are preserved and the block may have moved.\<close>

definition krealloc_ok :: "kernel \<Rightarrow> bool" where
  "krealloc_ok K \<longleftrightarrow>
     (\<forall>h a old n h' p. h a = Some old \<longrightarrow> krealloc K h a n = (h', p) \<longrightarrow>
        (case p of NULL \<Rightarrow> h' = h
         | Ptr a' \<Rightarrow> (a' = a \<or> h a' = None) \<and> unat n \<le> kmalloc_max K
             \<and> (\<exists>bs. length bs = unat n
                  \<and> take (min (length old) (unat n)) bs = take (min (length old) (unat n)) old
                  \<and> h' = (h(a := None))(a' \<mapsto> bs))))"

definition kfree_ok :: "kernel \<Rightarrow> bool" where
  "kfree_ok K \<longleftrightarrow> (\<forall>h a. kfree K h a = h(a := None))"

text \<open>A user copy transfers a prefix and reports how much is left; the uncopied tail of a kernel
  destination is zeroed.\<close>

definition copy_from_user_ok :: "kernel \<Rightarrow> bool" where
  "copy_from_user_ok K \<longleftrightarrow>
     (\<forall>u n bs left. copy_from_user K u n = (bs, left) \<longrightarrow>
        unat left \<le> unat n \<and> unat n - unat left \<le> length u \<and>
        bs = take (unat n - unat left) u @ replicate (unat left) nul)"

definition copy_to_user_ok :: "kernel \<Rightarrow> bool" where
  "copy_to_user_ok K \<longleftrightarrow>
     (\<forall>u bs u' left. copy_to_user K u bs = (u', left) \<longrightarrow>
        unat left \<le> length bs \<and>
        u' = take (length bs - unat left) bs @ drop (length bs - unat left) u)"

text \<open>\<^verbatim>\<open>SEEK_SET\<close>, \<^verbatim>\<open>SEEK_CUR\<close> and \<^verbatim>\<open>SEEK_END\<close> on a device of a fixed size: the position moves to the target
  if this lies in the device (its end included), and stays with an error otherwise.\<close>

definition seek_target :: "loff_t \<Rightarrow> loff_t \<Rightarrow> int \<Rightarrow> loff_t \<Rightarrow> int option" where
  "seek_target f_pos offset whence sz =
     (if whence = 0 then Some (sint offset)
      else if whence = 1 then Some (sint f_pos + sint offset)
      else if whence = 2 then Some (sint sz + sint offset)
      else None)"

definition fixed_size_llseek_ok :: "kernel \<Rightarrow> bool" where
  "fixed_size_llseek_ok K \<longleftrightarrow>
     (\<forall>f_pos offset whence sz. 0 \<le> sint sz \<longrightarrow>
        fixed_size_llseek K f_pos offset whence sz =
          (case seek_target f_pos offset whence sz of
             None \<Rightarrow> (- EINVAL, f_pos)
           | Some t \<Rightarrow> if 0 \<le> t \<and> t \<le> sint sz then (of_int t, of_int t) else (- EINVAL, f_pos)))"

definition ioc_ok :: "kernel \<Rightarrow> bool" where
  "ioc_ok K \<longleftrightarrow>
     (\<forall>t n sz. t < 256 \<longrightarrow> n < 256 \<longrightarrow>
        IOC_TYPE K (IOWR K t n sz) = t \<and> IOC_NR K (IOWR K t n sz) = n)"

definition kernel_ok :: "kernel \<Rightarrow> bool" where
  "kernel_ok K \<longleftrightarrow> kmalloc_ok K \<and> krealloc_ok K \<and> kfree_ok K \<and> copy_from_user_ok K
     \<and> copy_to_user_ok K \<and> fixed_size_llseek_ok K \<and> ioc_ok K"

section \<open>The device structure and the heap\<close>

record aesd_dev =
  buffer :: aesd_circular_buffer
  current_entry :: aesd_buffer_entry
  lock :: bool
  cdev :: bool  \<comment> \<open>whether the character device is registered with the kernel\<close>

record driver =
  aesd_device :: aesd_dev
  heap :: kheap
  aesd_major :: u32
  region :: bool  \<comment> \<open>whether the module holds its device-number region\<close>

definition load_bytes :: "kheap \<Rightarrow> ptr \<Rightarrow> nat \<Rightarrow> nat \<Rightarrow> fault + string" where
  "load_bytes h p off n =
     (case p of NULL \<Rightarrow> Inl Null_deref
      | Ptr a \<Rightarrow> (case h a of None \<Rightarrow> Inl Dangling
          | Some bs \<Rightarrow> if off + n \<le> length bs then Inr (take n (drop off bs)) else Inl Out_of_bounds))"

definition store_bytes :: "kheap \<Rightarrow> ptr \<Rightarrow> nat \<Rightarrow> string \<Rightarrow> fault + kheap" where
  "store_bytes h p off cs =
     (case p of NULL \<Rightarrow> Inl Null_deref
      | Ptr a \<Rightarrow> (case h a of None \<Rightarrow> Inl Dangling
          | Some bs \<Rightarrow> if off + length cs \<le> length bs
              then Inr (h(a \<mapsto> take off bs @ cs @ drop (off + length cs) bs)) else Inl Out_of_bounds))"

text \<open>\<^verbatim>\<open>kfree(NULL)\<close> does nothing; freeing a block that is not live is a fault.\<close>

definition kfree_ptr :: "kernel \<Rightarrow> kheap \<Rightarrow> ptr \<Rightarrow> fault + kheap" where
  "kfree_ptr K h p =
     (case p of NULL \<Rightarrow> Inr h
      | Ptr a \<Rightarrow> if h a = None then Inl Bad_free else Inr (kfree K h a))"

definition mutex_lock :: "driver \<Rightarrow> fault + driver" where
  "mutex_lock s = (if lock (aesd_device s) then Inl Self_deadlock
     else Inr (s\<lparr>aesd_device := (aesd_device s)\<lparr>lock := True\<rparr>\<rparr>))"

definition mutex_unlock :: "driver \<Rightarrow> driver" where
  "mutex_unlock s = s\<lparr>aesd_device := (aesd_device s)\<lparr>lock := False\<rparr>\<rparr>"

section \<open>File operations\<close>

definition aesd_open :: "driver \<Rightarrow> ssize_t \<times> driver" where
  "aesd_open s = (0, s)"

definition aesd_release :: "driver \<Rightarrow> ssize_t \<times> driver" where
  "aesd_release s = (0, s)"

text \<open>The part of \<^verbatim>\<open>aesd_read\<close> between lock and unlock: the return value, the file position and the
  user's buffer.\<close>

definition read_entry ::
  "kernel \<Rightarrow> driver \<Rightarrow> string \<Rightarrow> size_t \<Rightarrow> loff_t \<Rightarrow> (u32 \<times> size_t) option
    \<Rightarrow> fault + ssize_t \<times> loff_t \<times> string"
where
  "read_entry K s buf count f_pos found =
     (case found of None \<Rightarrow> Inr (0, f_pos, buf)
      | Some (i, offset) \<Rightarrow>
          if count = 0 then Inr (0, f_pos, buf)
          else
            let e = entry (buffer (aesd_device s)) ! unat i;
                bytes_to_copy = (if entry_size e - offset < count then entry_size e - offset else count)
            in bind_fault (load_bytes (heap s) (buffptr e) (unat offset) (unat bytes_to_copy)) (\<lambda>bs.
                 let (buf', left) = copy_to_user K buf bs
                 in if left \<noteq> 0 then Inr (- EFAULT, f_pos, buf')
                    else Inr (bytes_to_copy, f_pos + bytes_to_copy, buf')))"

definition aesd_read ::
  "kernel \<Rightarrow> driver \<Rightarrow> string \<Rightarrow> size_t \<Rightarrow> loff_t
    \<Rightarrow> (fault + ssize_t \<times> loff_t \<times> string \<times> driver) option"
where
  "aesd_read K s buf count f_pos =
     (case mutex_lock s of Inl f \<Rightarrow> Some (Inl f)
      | Inr s1 \<Rightarrow>
          map_option (\<lambda>r. bind_fault r (\<lambda>found.
              bind_fault (read_entry K s1 buf count f_pos found) (\<lambda>(ret, pos, buf').
                Inr (ret, pos, buf', mutex_unlock s1))))
            (aesd_circular_buffer_find_entry_offset_for_fpos (buffer (aesd_device s1)) f_pos))"

text \<open>\<^verbatim>\<open>aesd_write\<close>, first block: allocate or grow the entry under construction.  The result is
  \<^verbatim>\<open>insert_pos\<close> and the state; the new pointer may be NULL.\<close>

definition write_reserve :: "kernel \<Rightarrow> driver \<Rightarrow> size_t \<Rightarrow> fault + size_t \<times> driver" where
  "write_reserve K s count =
     (let cur = current_entry (aesd_device s) in
      case buffptr cur of
        NULL \<Rightarrow>
          (let (h, p) = kmalloc K (heap s) count
           in Inr (0, s\<lparr>heap := h, aesd_device := (aesd_device s)\<lparr>current_entry :=
                          \<lparr>buffptr = p, entry_size = count\<rparr>\<rparr>\<rparr>))
      | Ptr a \<Rightarrow>
          (if heap s a = None then Inl Dangling
           else let (h, p) = krealloc K (heap s) a (entry_size cur + count)
                in Inr (entry_size cur, s\<lparr>heap := h, aesd_device := (aesd_device s)\<lparr>current_entry :=
                          \<lparr>buffptr = p, entry_size = entry_size cur + count\<rparr>\<rparr>\<rparr>)))"

text \<open>The oldest entry of a full ring is freed before it is overwritten.\<close>

definition write_evict :: "kernel \<Rightarrow> driver \<Rightarrow> fault + driver" where
  "write_evict K s =
     (let b = buffer (aesd_device s) in
      if aesd_circular_buffer_get_count b = of_nat MAXW then
        if unat (in_offs b) < length (entry b) then
          bind_fault (kfree_ptr K (heap s) (buffptr (entry b ! unat (in_offs b)))) (\<lambda>h.
            Inr (s\<lparr>heap := h, aesd_device := (aesd_device s)\<lparr>buffer :=
                   b\<lparr>entry := (entry b)[unat (in_offs b) := null_entry]\<rparr>\<rparr>\<rparr>))
        else Inl Out_of_bounds
      else Inr s)"

text \<open>Last block: a write that ends in a newline moves the entry to the ring.\<close>

definition write_commit :: "kernel \<Rightarrow> driver \<Rightarrow> size_t \<Rightarrow> size_t \<Rightarrow> fault + driver" where
  "write_commit K s insert_pos count =
     bind_fault (load_bytes (heap s) (buffptr (current_entry (aesd_device s)))
                   (unat (insert_pos + count - 1)) 1) (\<lambda>c.
       if c = [newline] then
         bind_fault (write_evict K s) (\<lambda>s1.
         bind_fault (aesd_circular_buffer_add_entry (buffer (aesd_device s1))
                       (current_entry (aesd_device s1))) (\<lambda>b.
           Inr (s1\<lparr>aesd_device := (aesd_device s1)\<lparr>buffer := b, current_entry := null_entry\<rparr>\<rparr>)))
       else Inr s)"

definition aesd_write ::
  "kernel \<Rightarrow> driver \<Rightarrow> string \<Rightarrow> size_t \<Rightarrow> fault + ssize_t \<times> driver"
where
  "aesd_write K s buf count =
     bind_fault (mutex_lock s) (\<lambda>s.
       if count = 0 then Inr (0, mutex_unlock s)
       else
         bind_fault (write_reserve K s count) (\<lambda>(insert_pos, s).
           if buffptr (current_entry (aesd_device s)) = NULL then Inr (- ENOMEM, mutex_unlock s)
           else
             let (bs, left) = copy_from_user K buf count in
             bind_fault (store_bytes (heap s) (buffptr (current_entry (aesd_device s)))
                           (unat insert_pos) bs) (\<lambda>h.
               let s = s\<lparr>heap := h\<rparr> in
               if left \<noteq> 0 then Inr (- EFAULT, mutex_unlock s)
               else bind_fault (write_commit K s insert_pos count) (\<lambda>s.
                      Inr (count, mutex_unlock s)))))"

text \<open>The result of the seeking operations is the return value and the new file position.\<close>

definition llseek ::
  "kernel \<Rightarrow> driver \<Rightarrow> loff_t \<Rightarrow> loff_t \<Rightarrow> int \<Rightarrow> (fault + loff_t \<times> loff_t) option"
where
  "llseek K s f_pos offset whence =
     map_option (\<lambda>r. bind_fault r (\<lambda>full_size.
         Inr (fixed_size_llseek K f_pos offset whence full_size)))
       (aesd_circular_buffer_get_size (buffer (aesd_device s)))"

definition aesd_adjust_file_offset ::
  "driver \<Rightarrow> loff_t \<Rightarrow> u32 \<Rightarrow> u32 \<Rightarrow> (fault + ssize_t \<times> loff_t) option"
where
  "aesd_adjust_file_offset s f_pos cmd cmd_offset =
     (let b = buffer (aesd_device s) in
      if cmd \<ge> aesd_circular_buffer_get_count b then Some (Inr (- EINVAL, f_pos))
      else
        let ent = ucast (out_offs b) + cmd in
        if unat ent < length (entry b) then
          if ucast cmd_offset \<ge> entry_size (entry b ! unat ent) then Some (Inr (- EINVAL, f_pos))
          else map_option (\<lambda>r. bind_fault r (\<lambda>res.
                   Inr (case res of None \<Rightarrow> (- EINVAL, f_pos) | Some new_pos \<Rightarrow> (0, new_pos))))
                 (aesd_circular_buffer_fpos_for_entry b ent (ucast cmd_offset))
        else Some (Inl Out_of_bounds))"

definition AESD_IOC_MAGIC :: u32 where "AESD_IOC_MAGIC = 0x16"

definition AESDCHAR_IOC_MAXNR :: u32 where "AESDCHAR_IOC_MAXNR = 1"

definition AESDCHAR_IOCSEEKTO :: "kernel \<Rightarrow> u32" where
  "AESDCHAR_IOCSEEKTO K = IOWR K AESD_IOC_MAGIC 1 8"  \<comment> \<open>\<^verbatim>\<open>sizeof(struct aesd_seekto)\<close> is 8\<close>

definition unlocked_ioctl ::
  "kernel \<Rightarrow> driver \<Rightarrow> loff_t \<Rightarrow> u32 \<Rightarrow> size_t \<Rightarrow> (fault + ssize_t \<times> loff_t) option"
where
  "unlocked_ioctl K s f_pos cmd arg =
     (if IOC_TYPE K cmd \<noteq> AESD_IOC_MAGIC then Some (Inr (- ENOTTY, f_pos))
      else if IOC_NR K cmd > AESDCHAR_IOC_MAXNR then Some (Inr (- ENOTTY, f_pos))
      else if cmd = AESDCHAR_IOCSEEKTO K then
        (let (seek_to, left) = get_seekto K arg in
         if left \<noteq> 0 then Some (Inr (- EFAULT, f_pos))
         else aesd_adjust_file_offset s f_pos (write_cmd seek_to) (write_cmd_offset seek_to))
      else Some (Inr (- ENOTTY, f_pos)))"

section \<open>Loading and unloading the module\<close>

text \<open>The results of the registration calls: \<^verbatim>\<open>alloc_chrdev_region\<close> (return value and device number) and
  \<^verbatim>\<open>cdev_add\<close>; and the macro \<^verbatim>\<open>MAJOR\<close>.\<close>

record chrdev_env =
  region_result :: int
  region_dev :: u32
  MAJOR :: "u32 \<Rightarrow> u32"
  cdev_add_result :: int

definition aesd_setup_cdev :: "chrdev_env \<Rightarrow> driver \<Rightarrow> int \<times> driver" where
  "aesd_setup_cdev env s =
     (cdev_add_result env, s\<lparr>aesd_device := (aesd_device s)\<lparr>cdev := cdev_add_result env = 0\<rparr>\<rparr>)"

definition aesd_init_module :: "chrdev_env \<Rightarrow> driver \<Rightarrow> int \<times> driver" where
  "aesd_init_module env s =
     (let s1 = s\<lparr>aesd_major := MAJOR env (region_dev env), region := \<not> region_result env < 0\<rparr> in
      if region_result env < 0 then (region_result env, s1)
      else
        let s2 = s1\<lparr>aesd_device := \<lparr>buffer = aesd_circular_buffer_init, current_entry = null_entry,
                                      lock = False, cdev = False\<rparr>\<rparr>;
            (result, s3) = aesd_setup_cdev env s2
        in if result \<noteq> 0 then (result, s3\<lparr>region := False\<rparr>) else (result, s3))"

text \<open>One round of the loop that frees the ring; \<^verbatim>\<open>ring_count\<close> is at most 255, so \<^verbatim>\<open>uint8_t i\<close> does not wrap.\<close>

definition cleanup_slot :: "kernel \<Rightarrow> nat \<Rightarrow> driver \<Rightarrow> nat \<Rightarrow> fault + driver" where
  "cleanup_slot K ring_count s i =
     (let b = buffer (aesd_device s); j = (unat (out_offs b) + i) mod ring_count in
      if j < length (entry b) then
        bind_fault (kfree_ptr K (heap s) (buffptr (entry b ! j))) (\<lambda>h.
          Inr (s\<lparr>heap := h, aesd_device := (aesd_device s)\<lparr>buffer :=
                 b\<lparr>entry := (entry b)[j := null_entry]\<rparr>\<rparr>\<rparr>))
      else Inl Out_of_bounds)"

definition aesd_cleanup_module :: "kernel \<Rightarrow> driver \<Rightarrow> fault + driver" where
  "aesd_cleanup_module K s =
     bind_fault
       (if buffptr (current_entry (aesd_device s)) \<noteq> NULL
        then bind_fault (kfree_ptr K (heap s) (buffptr (current_entry (aesd_device s))))
               (\<lambda>h. Inr (s\<lparr>heap := h\<rparr>))
        else Inr s) (\<lambda>s1.
     let ring_count = unat (aesd_circular_buffer_get_count (buffer (aesd_device s1))) in
     bind_fault (fold_fault (cleanup_slot K ring_count) s1 [0..<ring_count]) (\<lambda>s2.
       Inr (s2\<lparr>aesd_device := (aesd_device s2)\<lparr>cdev := False\<rparr>, region := False\<rparr>)))"

section \<open>Invariant and abstraction\<close>

definition entry_bytes :: "kheap \<Rightarrow> aesd_buffer_entry \<Rightarrow> string option" where
  "entry_bytes h e = (case buffptr e of NULL \<Rightarrow> None | Ptr a \<Rightarrow> h a)"

definition block_ok :: "kernel \<Rightarrow> kheap \<Rightarrow> aesd_buffer_entry \<Rightarrow> bool" where
  "block_ok K h e = (case entry_bytes h e of None \<Rightarrow> False
     | Some bs \<Rightarrow> bs \<noteq> [] \<and> length bs = unat (entry_size e) \<and> length bs \<le> kmalloc_max K)"

definition line_ok :: "kernel \<Rightarrow> kheap \<Rightarrow> aesd_buffer_entry \<Rightarrow> bool" where
  "line_ok K h e \<longleftrightarrow> block_ok K h e \<and> last (the (entry_bytes h e)) = newline"

definition entry_addrs :: "aesd_buffer_entry list \<Rightarrow> nat list" where
  "entry_addrs es = concat (map (\<lambda>e. ptr_addrs (buffptr e)) es)"

abbreviation ring_of :: "driver \<Rightarrow> aesd_buffer_entry list" where
  "ring_of s \<equiv> cb_list (buffer (aesd_device s))"

abbreviation cur_of :: "driver \<Rightarrow> aesd_buffer_entry" where
  "cur_of s \<equiv> current_entry (aesd_device s)"

definition drv_addrs :: "driver \<Rightarrow> nat list" where
  "drv_addrs s = entry_addrs (ring_of s) @ ptr_addrs (buffptr (cur_of s))"

text \<open>Every ring entry owns a live block that ends in a newline, the entry under construction owns one
  or is NULL, and no block has two owners.\<close>

definition drv_inv :: "kernel \<Rightarrow> driver \<Rightarrow> bool" where
  "drv_inv K s \<longleftrightarrow> cb_inv (buffer (aesd_device s))
     \<and> list_all (line_ok K (heap s)) (ring_of s)
     \<and> (buffptr (cur_of s) = NULL \<or> block_ok K (heap s) (cur_of s))
     \<and> distinct (drv_addrs s)"

text \<open>No block is leaked: the live blocks are those the device points to.\<close>

definition heap_exact :: "driver \<Rightarrow> bool" where
  "heap_exact s \<longleftrightarrow> dom (heap s) = set (drv_addrs s)"

text \<open>What the device stores: the complete lines and the line under construction.\<close>

definition dev_lines :: "driver \<Rightarrow> string list" where
  "dev_lines s = map (\<lambda>e. the (entry_bytes (heap s) e)) (ring_of s)"

definition dev_partial :: "driver \<Rightarrow> string" where
  "dev_partial s = (case entry_bytes (heap s) (cur_of s) of None \<Rightarrow> [] | Some bs \<Rightarrow> bs)"

lemma entry_addrs_simps [simp]:
  "entry_addrs [] = []"
  "entry_addrs (e # es) = ptr_addrs (buffptr e) @ entry_addrs es"
  "entry_addrs (es @ es') = entry_addrs es @ entry_addrs es'"
  by (simp_all add: entry_addrs_def)

lemma block_ok_iff:
  "block_ok K h e \<longleftrightarrow> (\<exists>a bs. buffptr e = Ptr a \<and> h a = Some bs \<and> bs \<noteq> []
     \<and> length bs = unat (entry_size e) \<and> length bs \<le> kmalloc_max K)"
  by (auto simp: block_ok_def entry_bytes_def split: ptr.splits option.splits)

lemma entry_bytes_cong:
  "(\<And>a. a \<in> set (ptr_addrs (buffptr e)) \<Longrightarrow> h' a = h a) \<Longrightarrow> entry_bytes h' e = entry_bytes h e"
  by (auto simp: entry_bytes_def split: ptr.splits)

lemma lines_cong:
  assumes "\<And>a. a \<in> set (entry_addrs es) \<Longrightarrow> h' a = h a"
  shows "list_all (line_ok K h') es = list_all (line_ok K h) es"
    and "map (\<lambda>e. the (entry_bytes h' e)) es = map (\<lambda>e. the (entry_bytes h e)) es"
proof -
  have "entry_bytes h' e = entry_bytes h e" if "e \<in> set es" for e
    using assms that by (intro entry_bytes_cong) (auto simp: entry_addrs_def)
  then show "list_all (line_ok K h') es = list_all (line_ok K h) es"
    and "map (\<lambda>e. the (entry_bytes h' e)) es = map (\<lambda>e. the (entry_bytes h e)) es"
    by (auto simp: list_all_iff line_ok_def block_ok_def)
qed

lemma ring_addrs_live:
  "list_all (line_ok K h) es \<Longrightarrow> a \<in> set (entry_addrs es) \<Longrightarrow> h a \<noteq> None"
  by (fastforce simp: list_all_iff entry_addrs_def line_ok_def block_ok_iff)

lemma drv_invD:
  assumes "drv_inv K s"
  shows "cb_inv (buffer (aesd_device s))" and "list_all (line_ok K (heap s)) (ring_of s)"
    and "buffptr (cur_of s) = NULL \<or> block_ok K (heap s) (cur_of s)"
    and "distinct (entry_addrs (ring_of s))"
    and "set (entry_addrs (ring_of s)) \<inter> set (ptr_addrs (buffptr (cur_of s))) = {}"
  using assms by (auto simp: drv_inv_def drv_addrs_def)

text \<open>The state with another heap and entry under construction, and when it satisfies the invariant.\<close>

definition with_cur :: "driver \<Rightarrow> kheap \<Rightarrow> aesd_buffer_entry \<Rightarrow> driver" where
  "with_cur s h e = s\<lparr>heap := h, aesd_device := (aesd_device s)\<lparr>current_entry := e\<rparr>\<rparr>"

lemma with_cur_sel [simp]:
  "heap (with_cur s h e) = h"
  "buffer (aesd_device (with_cur s h e)) = buffer (aesd_device s)"
  "current_entry (aesd_device (with_cur s h e)) = e"
  "lock (aesd_device (with_cur s h e)) = lock (aesd_device s)"
  by (simp_all add: with_cur_def)

lemma with_cur_inv:
  assumes "drv_inv K s" and "\<And>a. a \<in> set (entry_addrs (ring_of s)) \<Longrightarrow> h a = heap s a"
    and "buffptr e = NULL \<or> block_ok K h e"
    and "set (ptr_addrs (buffptr e)) \<inter> set (entry_addrs (ring_of s)) = {}"
  shows "drv_inv K (with_cur s h e)" and "dev_lines (with_cur s h e) = dev_lines s"
proof -
  have "distinct (ptr_addrs (buffptr e))" by (cases "buffptr e") auto
  then show "drv_inv K (with_cur s h e)"
    using assms lines_cong(1) [OF assms(2)] by (auto simp: drv_inv_def drv_addrs_def)
  show "dev_lines (with_cur s h e) = dev_lines s"
    using lines_cong(2) [OF assms(2)] by (simp add: dev_lines_def)
qed

lemma mutex_unlock_sel [simp]:
  "heap (mutex_unlock s) = heap s"
  "buffer (aesd_device (mutex_unlock s)) = buffer (aesd_device s)"
  "current_entry (aesd_device (mutex_unlock s)) = current_entry (aesd_device s)"
  "\<not> lock (aesd_device (mutex_unlock s))"
  by (simp_all add: mutex_unlock_def)

text \<open>Invariant and abstraction read the heap, the ring and the current entry only.\<close>

lemma drv_same_view:
  assumes "heap s' = heap s" and "buffer (aesd_device s') = buffer (aesd_device s)"
    and "current_entry (aesd_device s') = current_entry (aesd_device s)"
  shows "drv_inv K s' = drv_inv K s" and "dev_lines s' = dev_lines s"
    and "dev_partial s' = dev_partial s" and "heap_exact s' = heap_exact s"
  using assms by (simp_all add: drv_inv_def dev_lines_def dev_partial_def heap_exact_def drv_addrs_def)

lemma mutex_unlock_view [simp]:
  "drv_inv K (mutex_unlock s) = drv_inv K s" "dev_lines (mutex_unlock s) = dev_lines s"
  "dev_partial (mutex_unlock s) = dev_partial s" "heap_exact (mutex_unlock s) = heap_exact s"
  by (rule drv_same_view; simp)+

section \<open>Writing\<close>

lemma cur_partial:
  assumes "drv_inv K s" and "buffptr (cur_of s) = Ptr a"
  shows "heap s a = Some (dev_partial s)" and "unat (entry_size (cur_of s)) = length (dev_partial s)"
    and "dev_partial s \<noteq> []" and "length (dev_partial s) \<le> kmalloc_max K"
    and "a \<notin> set (entry_addrs (ring_of s))"
  using drv_invD(3,5) [OF assms(1)] assms(2)
  by (auto simp: block_ok_iff dev_partial_def entry_bytes_def)

lemma dev_partial_NULL: "buffptr (cur_of s) = NULL \<Longrightarrow> dev_partial s = []"
  by (simp add: dev_partial_def entry_bytes_def)

lemma write_reserve_fresh:
  assumes K: "kernel_ok K" and inv: "drv_inv K s" and cur: "buffptr (cur_of s) = NULL"
  obtains (nomem) "write_reserve K s count = Inr (0, with_cur s (heap s) \<lparr>buffptr = NULL, entry_size = count\<rparr>)"
  | (got) a bs where
    "write_reserve K s count = Inr (0, with_cur s ((heap s)(a \<mapsto> bs)) \<lparr>buffptr = Ptr a, entry_size = count\<rparr>)"
    "length bs = unat count" "unat count \<le> kmalloc_max K" "heap s a = None"
proof -
  obtain h p where m: "kmalloc K (heap s) count = (h, p)" by fastforce
  have spec: "case p of NULL \<Rightarrow> h = heap s
      | Ptr a \<Rightarrow> heap s a = None \<and> unat count \<le> kmalloc_max K
          \<and> (\<exists>bs. length bs = unat count \<and> h = (heap s)(a \<mapsto> bs))"
    using K m by (simp add: kernel_ok_def kmalloc_ok_def)
  have res: "write_reserve K s count = Inr (0, with_cur s h \<lparr>buffptr = p, entry_size = count\<rparr>)"
    using cur m by (simp add: write_reserve_def with_cur_def)
  show ?thesis
  proof (cases p)
    case NULL
    then show ?thesis using spec res nomem by simp
  next
    case (Ptr a)
    then show ?thesis using spec res got by auto
  qed
qed

lemma write_reserve_grow:
  assumes K: "kernel_ok K" and inv: "drv_inv K s" and cur: "buffptr (cur_of s) = Ptr old"
    and cnt: "unat count < 2 ^ 32"
  obtains (nomem) "write_reserve K s count = Inr (entry_size (cur_of s),
      with_cur s (heap s) \<lparr>buffptr = NULL, entry_size = entry_size (cur_of s) + count\<rparr>)"
  | (got) a bs where
    "write_reserve K s count = Inr (entry_size (cur_of s),
       with_cur s (((heap s)(old := None))(a \<mapsto> bs)) \<lparr>buffptr = Ptr a, entry_size = entry_size (cur_of s) + count\<rparr>)"
    "length bs = length (dev_partial s) + unat count" "length bs \<le> kmalloc_max K"
    "unat (entry_size (cur_of s) + count) = length bs"
    "take (length (dev_partial s)) bs = dev_partial s" "a = old \<or> heap s a = None"
proof -
  note cp = cur_partial [OF inv cur]
  let ?n = "entry_size (cur_of s) + count"
  have "kmalloc_max K < 2 ^ 32" using K by (simp add: kernel_ok_def kmalloc_ok_def)
  then have n: "unat ?n = length (dev_partial s) + unat count"
    using cp cnt by (subst unat_small_add) auto
  obtain h p where m: "krealloc K (heap s) old ?n = (h, p)" by fastforce
  have spec: "case p of NULL \<Rightarrow> h = heap s
      | Ptr a \<Rightarrow> (a = old \<or> heap s a = None) \<and> unat ?n \<le> kmalloc_max K
          \<and> (\<exists>bs. length bs = unat ?n \<and> take (min (length (dev_partial s)) (unat ?n)) bs
                = take (min (length (dev_partial s)) (unat ?n)) (dev_partial s)
              \<and> h = ((heap s)(old := None))(a \<mapsto> bs))"
    using K m cp(1) unfolding kernel_ok_def krealloc_ok_def by blast
  have res: "write_reserve K s count = Inr (entry_size (cur_of s), with_cur s h \<lparr>buffptr = p, entry_size = ?n\<rparr>)"
    using cur m cp(1) by (simp add: write_reserve_def with_cur_def Let_def)
  show ?thesis
  proof (cases p)
    case NULL
    then show ?thesis using spec res nomem by simp
  next
    case (Ptr a)
    with spec obtain bs where bs: "length bs = unat ?n" "a = old \<or> heap s a = None"
      "unat ?n \<le> kmalloc_max K" "take (length (dev_partial s)) bs = dev_partial s"
      "h = ((heap s)(old := None))(a \<mapsto> bs)"
      by (auto simp: n)
    show ?thesis
      by (rule got [of a bs]) (use bs res Ptr n in simp_all)
  qed
qed

text \<open>Both cases together: the block under construction keeps its bytes and has room for \<open>count\<close> more.\<close>

lemma write_reserve_spec:
  assumes K: "kernel_ok K" and inv: "drv_inv K s" and cnt: "unat count < 2 ^ 32"
  obtains (nomem) pos n where
    "write_reserve K s count = Inr (pos, with_cur s (heap s) \<lparr>buffptr = NULL, entry_size = n\<rparr>)"
  | (got) pos h a bs n where
    "write_reserve K s count = Inr (pos, with_cur s h \<lparr>buffptr = Ptr a, entry_size = n\<rparr>)"
    "unat pos = length (dev_partial s)" "h a = Some bs" "length bs = unat n"
    "unat n = length (dev_partial s) + unat count" "unat n \<le> kmalloc_max K"
    "take (length (dev_partial s)) bs = dev_partial s"
    "a \<notin> set (entry_addrs (ring_of s))"
    "\<And>x. x \<in> set (entry_addrs (ring_of s)) \<Longrightarrow> h x = heap s x"
    "heap_exact s \<Longrightarrow> dom h = insert a (set (entry_addrs (ring_of s)))"
proof -
  note live = ring_addrs_live [OF drv_invD(2) [OF inv]]
  show ?thesis
  proof (cases "buffptr (cur_of s)")
    case NULL
    note part = dev_partial_NULL [OF NULL]
    from K inv NULL show ?thesis
    proof (cases rule: write_reserve_fresh [where count = count])
      case nomem
      then show ?thesis by (rule that(1))
    next
      case (got a bs)
      then show ?thesis
        using part NULL
        by (intro that(2) [of 0 "(heap s)(a \<mapsto> bs)" a count bs])
          (auto simp: heap_exact_def drv_addrs_def dest: live)
    qed
  next
    case (Ptr old)
    note cp = cur_partial [OF inv Ptr]
    from K inv Ptr cnt show ?thesis
    proof (cases rule: write_reserve_grow [where count = count])
      case nomem
      then show ?thesis by (rule that(1))
    next
      case (got a bs)
      then show ?thesis
        using cp Ptr
        by (intro that(2) [of "entry_size (cur_of s)" "((heap s)(old := None))(a \<mapsto> bs)" a
              "entry_size (cur_of s) + count" bs])
          (auto simp: heap_exact_def drv_addrs_def dest: live)
    qed
  qed
qed

text \<open>Storing the user's bytes behind the kept ones extends the line under construction.\<close>

lemma write_store_spec:
  assumes inv: "drv_inv K s" and a: "h a = Some bs" and len: "length bs = unat n"
    and n: "unat n = length (dev_partial s) + length cs" "unat n \<le> kmalloc_max K" and cs: "cs \<noteq> []"
    and keep: "take (length (dev_partial s)) bs = dev_partial s"
    and fresh: "a \<notin> set (entry_addrs (ring_of s))"
    and same: "\<And>x. x \<in> set (entry_addrs (ring_of s)) \<Longrightarrow> h x = heap s x"
  defines "h' \<equiv> h(a \<mapsto> dev_partial s @ cs)" and "e \<equiv> \<lparr>buffptr = Ptr a, entry_size = n\<rparr>"
  shows "store_bytes h (Ptr a) (length (dev_partial s)) cs = Inr h'"
    and "drv_inv K (with_cur s h' e)" and "dev_lines (with_cur s h' e) = dev_lines s"
    and "dev_partial (with_cur s h' e) = dev_partial s @ cs"
    and "dom h = insert a (set (entry_addrs (ring_of s))) \<Longrightarrow> heap_exact (with_cur s h' e)"
proof -
  show "store_bytes h (Ptr a) (length (dev_partial s)) cs = Inr h'"
    using a len n(1) keep by (simp add: store_bytes_def h'_def)
  have "block_ok K h' e"
    using n cs by (simp add: block_ok_iff h'_def e_def)
  then show "drv_inv K (with_cur s h' e)" and "dev_lines (with_cur s h' e) = dev_lines s"
    using fresh same by (auto intro!: with_cur_inv [OF inv] simp: h'_def e_def)
  show "dev_partial (with_cur s h' e) = dev_partial s @ cs"
    by (simp add: dev_partial_def entry_bytes_def h'_def e_def)
  show "dom h = insert a (set (entry_addrs (ring_of s))) \<Longrightarrow> heap_exact (with_cur s h' e)"
    by (auto simp: heap_exact_def drv_addrs_def h'_def e_def)
qed

lemma kfree_line:
  assumes "kernel_ok K" and "block_ok K h e"
  shows "\<exists>a. buffptr e = Ptr a \<and> kfree_ptr K h (buffptr e) = Inr (h(a := None))"
  using assms by (auto simp: kernel_ok_def kfree_ok_def block_ok_iff kfree_ptr_def)

text \<open>Evicting the oldest entry of a full ring leaves an empty entry in its place.\<close>

definition evicted :: "driver \<Rightarrow> aesd_circular_buffer" where
  "evicted s = (let b = buffer (aesd_device s) in b\<lparr>entry := (entry b)[unat (in_offs b) := null_entry]\<rparr>)"

lemma evict_full:
  assumes K: "kernel_ok K" and inv: "drv_inv K s" and l: "length (ring_of s) = 10"
  obtains a where "buffptr (hd (ring_of s)) = Ptr a"
    "write_evict K s = Inr (s\<lparr>heap := (heap s)(a := None), aesd_device := (aesd_device s)\<lparr>buffer := evicted s\<rparr>\<rparr>)"
    "cb_inv (evicted s)" "full (evicted s)" "cb_list (evicted s) = null_entry # tl (ring_of s)"
proof -
  let ?b = "buffer (aesd_device s)" and ?i = "unat (in_offs (buffer (aesd_device s)))"
  have cb: "cb_inv ?b" and lines: "list_all (line_ok K (heap s)) (ring_of s)"
    using drv_invD [OF inv] by auto
  have cnt: "unat (aesd_circular_buffer_get_count ?b) = length (ring_of s)"
    using length_cb_list [OF cb] by simp
  have fl: "full ?b"
    using cnt unat_get_count [OF cb] l cb_shapeD(2) [of ?b] cb by (cases "full ?b") simp_all
  have i: "?i < length (entry ?b)" and io: "in_offs ?b = out_offs ?b"
    using fl cb by (auto simp: cb_inv_def cb_shape_def)
  have ring: "ring_of s = rotate ?i (entry ?b)" using cb_list_full [OF cb fl] io by simp
  have "entry ?b \<noteq> []" using i by auto
  then have hd: "entry ?b ! ?i = hd (ring_of s)"
    using i ring hd_rotate_conv_nth [of "entry ?b" ?i] by simp
  have "block_ok K (heap s) (hd (ring_of s))"
    using lines l by (cases "ring_of s") (auto simp: line_ok_def)
  from kfree_line [OF K this] obtain a where
    a: "buffptr (hd (ring_of s)) = Ptr a"
       "kfree_ptr K (heap s) (buffptr (hd (ring_of s))) = Inr ((heap s)(a := None))" by blast
  have "write_evict K s = Inr (s\<lparr>heap := (heap s)(a := None), aesd_device := (aesd_device s)\<lparr>buffer := evicted s\<rparr>\<rparr>)"
    using cnt l i hd a(2) by (simp add: write_evict_def evicted_def word_unat_eq_iff Let_def)
  moreover have cb1: "cb_inv (evicted s)" and f1: "full (evicted s)"
    using cb fl by (auto simp: cb_inv_def cb_shape_def evicted_def Let_def)
  moreover have "cb_list (evicted s) = null_entry # tl (ring_of s)"
    using cb_list_full [OF cb1 f1] io i ring by (simp add: evicted_def rotate_update_hd Let_def)
  ultimately show ?thesis using that a(1) by blast
qed

text \<open>Evicting the oldest entry of a full ring and adding one: the heap loses the evicted block.\<close>

lemma evict_add:
  assumes K: "kernel_ok K" and inv: "drv_inv K s"
  defines "gone \<equiv> if length (ring_of s) = 10 then [hd (ring_of s)] else []"
  obtains h b s1 where
    "write_evict K s = Inr s1"
    "aesd_circular_buffer_add_entry (buffer (aesd_device s1)) (cur_of s1) = Inr b"
    "s1\<lparr>aesd_device := (aesd_device s1)\<lparr>buffer := b, current_entry := null_entry\<rparr>\<rparr>
      = s\<lparr>heap := h, aesd_device := (aesd_device s)\<lparr>buffer := b, current_entry := null_entry\<rparr>\<rparr>"
    "cb_inv b" "gone @ cb_list b = ring_of s @ [cur_of s]"
    "h = heap s |` (- set (entry_addrs gone))"
proof -
  let ?b = "buffer (aesd_device s)"
  have cb: "cb_inv ?b" and lines: "list_all (line_ok K (heap s)) (ring_of s)"
    using drv_invD [OF inv] by auto
  have cnt: "unat (aesd_circular_buffer_get_count ?b) = length (ring_of s)"
    using length_cb_list [OF cb] by simp
  show ?thesis
  proof (cases "full ?b")
    case False
    have l: "length (ring_of s) < 10"
      using cnt unat_get_count [OF cb] False cb_shapeD(2) [of ?b] cb by simp
    then have "write_evict K s = Inr s"
      using cnt by (auto simp: write_evict_def word_unat_eq_iff)
    moreover have "heap s |` UNIV = heap s" by (simp add: restrict_map_def)
    ultimately show ?thesis
      using add_entry_not_full [OF cb False, of "cur_of s"] l
      by (intro that [of s _ "heap s"]) (auto simp: gone_def)
  next
    case True
    have l: "length (ring_of s) = 10" using cnt True unat_get_count [OF cb] by simp
    obtain a where a: "buffptr (hd (ring_of s)) = Ptr a"
      "write_evict K s = Inr (s\<lparr>heap := (heap s)(a := None), aesd_device := (aesd_device s)\<lparr>buffer := evicted s\<rparr>\<rparr>)"
      "cb_inv (evicted s)" "full (evicted s)" "cb_list (evicted s) = null_entry # tl (ring_of s)"
      by (rule evict_full [OF K inv l])
    let ?s1 = "s\<lparr>heap := (heap s)(a := None), aesd_device := (aesd_device s)\<lparr>buffer := evicted s\<rparr>\<rparr>"
    have "hd (ring_of s) # tl (ring_of s) = ring_of s" using l by (cases "ring_of s") auto
    moreover have "(heap s)(a := None) = heap s |` (- {a})" by (auto simp: restrict_map_def fun_eq_iff)
    ultimately show ?thesis
      using add_entry_full [OF a(3,4), of "cur_of s"] a l
      by (intro that [of ?s1 _ "(heap s)(a := None)"]) (auto simp: gone_def)
  qed
qed

lemma keep_last_gone:
  assumes "gone @ xs = ys @ [y]" and "length ys \<le> n" and "0 < n"
    and "length gone = (if length ys = n then 1 else 0)"
  shows "xs = keep_last n (ys @ [y])"
  using assms by (cases gone; cases ys) (auto simp: keep_last_def split: if_splits)

lemma write_commit_spec:
  assumes K: "kernel_ok K" and inv: "drv_inv K s" and cur: "buffptr (cur_of s) = Ptr a"
    and pos: "unat (pos + count - 1) = length (dev_partial s) - 1"
  shows "if last (dev_partial s) = newline
    then \<exists>s'. write_commit K s pos count = Inr s' \<and> drv_inv K s'
      \<and> dev_lines s' = keep_last 10 (dev_lines s @ [dev_partial s]) \<and> dev_partial s' = []
      \<and> (heap_exact s \<longrightarrow> heap_exact s')
    else write_commit K s pos count = Inr s"
proof -
  note cp = cur_partial [OF inv cur]
  have ld: "load_bytes (heap s) (buffptr (cur_of s)) (unat (pos + count - 1)) 1 = Inr [last (dev_partial s)]"
    using cp(1,3) cur pos by (cases "dev_partial s" rule: rev_cases) (auto simp: load_bytes_def)
  show ?thesis
  proof (cases "last (dev_partial s) = newline")
    case False
    then show ?thesis using ld by (simp add: write_commit_def)
  next
    case True
    let ?gone = "if length (ring_of s) = 10 then [hd (ring_of s)] else []"
    from evict_add [OF K inv] obtain h b s1 where ea:
      "write_evict K s = Inr s1"
      "aesd_circular_buffer_add_entry (buffer (aesd_device s1)) (cur_of s1) = Inr b"
      "s1\<lparr>aesd_device := (aesd_device s1)\<lparr>buffer := b, current_entry := null_entry\<rparr>\<rparr>
        = s\<lparr>heap := h, aesd_device := (aesd_device s)\<lparr>buffer := b, current_entry := null_entry\<rparr>\<rparr>"
      "cb_inv b" "?gone @ cb_list b = ring_of s @ [cur_of s]"
      "h = heap s |` (- set (entry_addrs ?gone))" .
    let ?s' = "s\<lparr>heap := h, aesd_device := (aesd_device s)\<lparr>buffer := b, current_entry := null_entry\<rparr>\<rparr>"
    have com: "write_commit K s pos count = Inr ?s'"
      using ld True ea(1-3) by (simp add: write_commit_def)
    have kl: "cb_list b = keep_last 10 (ring_of s @ [cur_of s])"
      using keep_last_gone [OF ea(5) length_cb_list_le] by simp
    have all: "drv_addrs s = entry_addrs ?gone @ entry_addrs (cb_list b)"
      using arg_cong [OF ea(5), of entry_addrs] by (simp add: drv_addrs_def)
    have dist: "distinct (drv_addrs s)" using inv by (simp add: drv_inv_def)
    then have h: "h x = heap s x" if "x \<in> set (entry_addrs (cb_list b))" for x
      using that unfolding ea(6) all by (auto simp: restrict_map_def)
    have "line_ok K (heap s) (cur_of s)"
      using drv_invD(3) [OF inv] cur True cp(1) by (simp add: line_ok_def entry_bytes_def)
    then have "list_all (line_ok K (heap s)) (cb_list b)"
      using drv_invD(2) [OF inv] set_keep_last_subset [of 10 "ring_of s @ [cur_of s]"]
      unfolding kl by (auto simp: list_all_iff)
    then have "list_all (line_ok K h) (cb_list b)" using lines_cong(1) [OF h] by simp
    moreover have "distinct (entry_addrs (cb_list b))" using dist unfolding all by simp
    ultimately have "drv_inv K ?s'"
      using ea(4) by (simp add: drv_inv_def drv_addrs_def null_entry_def)
    moreover have "dev_lines ?s' = map (\<lambda>e. the (entry_bytes (heap s) e)) (cb_list b)"
      using lines_cong(2) [OF h] by (simp add: dev_lines_def)
    then have "dev_lines ?s' = keep_last 10 (dev_lines s @ [dev_partial s])"
      using cp(1) cur by (simp add: dev_lines_def kl map_keep_last entry_bytes_def)
    moreover have "dev_partial ?s' = []" by (simp add: dev_partial_NULL null_entry_def)
    moreover have "heap_exact s \<longrightarrow> heap_exact ?s'"
    proof
      assume "heap_exact s"
      then have "dom (heap s) = set (entry_addrs ?gone) \<union> set (entry_addrs (cb_list b))"
        unfolding heap_exact_def all by simp
      moreover have "set (entry_addrs ?gone) \<inter> set (entry_addrs (cb_list b)) = {}"
        using dist unfolding all by simp
      ultimately have "dom h = set (entry_addrs (cb_list b))"
        unfolding ea(6) dom_restrict by blast
      then show "heap_exact ?s'" by (simp add: heap_exact_def drv_addrs_def null_entry_def)
    qed
    ultimately show ?thesis using True com by auto
  qed
qed

text \<open>The abstract device: the complete lines and the unfinished one.\<close>

type_synonym line_log = "string list \<times> string"

definition dev_log :: "driver \<Rightarrow> line_log" where
  "dev_log s = (dev_lines s, dev_partial s)"

fun log_write :: "line_log \<Rightarrow> string \<Rightarrow> line_log" where
  "log_write (ls, p) d =
     (if d = [] then (ls, p)
      else if last d = newline then (keep_last 10 (ls @ [p @ d]), [])
      else (ls, p @ d))"

text \<open>Whether the allocation of this write succeeds, and whether the user's buffer can be read.\<close>

definition mem_available :: "kernel \<Rightarrow> driver \<Rightarrow> size_t \<Rightarrow> bool" where
  "mem_available K s count =
     (case buffptr (cur_of s) of
        NULL \<Rightarrow> snd (kmalloc K (heap s) count) \<noteq> NULL
      | Ptr a \<Rightarrow> snd (krealloc K (heap s) a (entry_size (cur_of s) + count)) \<noteq> NULL)"

definition user_readable :: "kernel \<Rightarrow> string \<Rightarrow> size_t \<Rightarrow> bool" where
  "user_readable K buf count \<longleftrightarrow> snd (copy_from_user K buf count) = 0"

lemma write_reserve_NULL_iff:
  "write_reserve K s count = Inr (pos, s1) \<Longrightarrow> buffptr (cur_of s1) = NULL \<longleftrightarrow> \<not> mem_available K s count"
  by (auto simp: write_reserve_def mem_available_def Let_def split: ptr.splits if_splits prod.splits)

definition locked :: "driver \<Rightarrow> driver" where
  "locked s = s\<lparr>aesd_device := (aesd_device s)\<lparr>lock := True\<rparr>\<rparr>"

lemma locked_view [simp]:
  "drv_inv K (locked s) = drv_inv K s" "dev_lines (locked s) = dev_lines s"
  "dev_partial (locked s) = dev_partial s" "heap_exact (locked s) = heap_exact s"
  "mem_available K (locked s) count = mem_available K s count"
  "heap (locked s) = heap s" "buffer (aesd_device (locked s)) = buffer (aesd_device s)"
  by (rule drv_same_view; simp add: locked_def)+
    (simp_all add: mem_available_def locked_def split: ptr.split)

lemma mutex_lock_free: "\<not> lock (aesd_device s) \<Longrightarrow> mutex_lock s = Inr (locked s)"
  by (simp add: mutex_lock_def locked_def)

lemma mutex_unlock_locked [simp]: "\<not> lock (aesd_device s) \<Longrightarrow> mutex_unlock (locked s) = s"
  by (simp add: mutex_unlock_def locked_def)

lemma with_cur_heap: "(with_cur s h e)\<lparr>heap := h'\<rparr> = with_cur s h' e"
  by (simp add: with_cur_def)

lemma copied_bytes:
  assumes "kernel_ok K" and "copy_from_user K buf count = (bs, left)"
  shows "length bs = unat count" and "left = 0 \<Longrightarrow> bs = take (unat count) buf"
    and "bs = take (unat count - unat left) buf @ replicate (unat left) nul"
proof -
  have "unat left \<le> unat count \<and> unat count - unat left \<le> length buf
      \<and> bs = take (unat count - unat left) buf @ replicate (unat left) nul"
    using assms unfolding kernel_ok_def copy_from_user_ok_def by blast
  then show "length bs = unat count" and "left = 0 \<Longrightarrow> bs = take (unat count) buf"
    and "bs = take (unat count - unat left) buf @ replicate (unat left) nul"
    by auto
qed

lemma aesd_write_zero:
  "\<not> lock (aesd_device s) \<Longrightarrow> aesd_write K s buf 0 = Inr (0, s)"
  by (simp add: aesd_write_def mutex_lock_free)

lemma aesd_write_nomem:
  assumes K: "kernel_ok K" and inv: "drv_inv K s" and ul: "\<not> lock (aesd_device s)"
    and cnt: "count \<noteq> 0" "unat count < 2 ^ 32" and mem: "\<not> mem_available K s count"
  obtains s' where "aesd_write K s buf count = Inr (- ENOMEM, s')" "drv_inv K s'"
    "\<not> lock (aesd_device s')" "dev_log s' = (dev_lines s, [])" "heap s' = heap s"
    "buffptr (cur_of s') = NULL" "ring_of s' = ring_of s"
proof -
  have inv': "drv_inv K (locked s)" using inv by simp
  from K inv' cnt(2) obtain pos n where
    r: "write_reserve K (locked s) count
      = Inr (pos, with_cur (locked s) (heap s) \<lparr>buffptr = NULL, entry_size = n\<rparr>)"
  proof (cases rule: write_reserve_spec [where count = count])
    case (nomem pos n)
    then show ?thesis using that by simp
  next
    case (got pos h a bs n)
    from write_reserve_NULL_iff [OF got(1)] mem show ?thesis by simp
  qed
  let ?s' = "mutex_unlock (with_cur (locked s) (heap s) \<lparr>buffptr = NULL, entry_size = n\<rparr>)"
  have "aesd_write K s buf count = Inr (- ENOMEM, ?s')"
    using r cnt(1) ul by (simp add: aesd_write_def mutex_lock_free)
  moreover have "drv_inv K ?s'" "dev_lines ?s' = dev_lines s"
    using with_cur_inv [OF inv', of "heap s" "\<lparr>buffptr = NULL, entry_size = n\<rparr>"] by simp_all
  moreover have "dev_partial ?s' = []" by (simp add: dev_partial_NULL)
  ultimately show ?thesis using that [of ?s'] by (simp add: dev_log_def)
qed

lemma aesd_write_got:
  assumes K: "kernel_ok K" and inv: "drv_inv K s" and ul: "\<not> lock (aesd_device s)"
    and cnt: "count \<noteq> 0" "unat count < 2 ^ 32" and mem: "mem_available K s count"
    and cp: "copy_from_user K buf count = (bs, left)"
  obtains s2 pos a where
    "aesd_write K s buf count
      = (if left \<noteq> 0 then Inr (- EFAULT, mutex_unlock s2)
         else bind_fault (write_commit K s2 pos count) (\<lambda>s. Inr (count, mutex_unlock s)))"
    "drv_inv K s2" "dev_lines s2 = dev_lines s" "dev_partial s2 = dev_partial s @ bs"
    "buffptr (cur_of s2) = Ptr a" "unat (pos + count - 1) = length (dev_partial s2) - 1"
    "heap_exact s \<Longrightarrow> heap_exact s2"
proof -
  have inv': "drv_inv K (locked s)" using inv by simp
  have len: "length bs = unat count" using copied_bytes [OF K cp] by simp
  have bs: "bs \<noteq> []" using len cnt(1) by (auto simp: word_unat_eq_iff)
  from K inv' cnt(2) obtain pos h a blk n where
    r: "write_reserve K (locked s) count
      = Inr (pos, with_cur (locked s) h \<lparr>buffptr = Ptr a, entry_size = n\<rparr>)"
    and g: "unat pos = length (dev_partial s)" "h a = Some blk" "length blk = unat n"
    "unat n = length (dev_partial s) + length bs" "unat n \<le> kmalloc_max K"
    "take (length (dev_partial s)) blk = dev_partial s" "a \<notin> set (entry_addrs (ring_of s))"
    "\<And>x. x \<in> set (entry_addrs (ring_of s)) \<Longrightarrow> h x = heap s x"
    "heap_exact s \<Longrightarrow> dom h = insert a (set (entry_addrs (ring_of s)))"
  proof (cases rule: write_reserve_spec [where count = count])
    case (nomem pos n)
    from write_reserve_NULL_iff [OF nomem] mem show ?thesis by simp
  next
    case (got pos h a blk n)
    then show ?thesis using that [of pos h a n blk] len by simp
  qed
  let ?h2 = "h(a \<mapsto> dev_partial s @ bs)" and ?e = "\<lparr>buffptr = Ptr a, entry_size = n\<rparr>"
  let ?s2 = "with_cur (locked s) ?h2 ?e"
  note st = write_store_spec [OF inv', of h a blk n bs, unfolded locked_view, OF g(2,3,4,5) bs g(6,7,8)]
  have w: "aesd_write K s buf count
      = (if left \<noteq> 0 then Inr (- EFAULT, mutex_unlock ?s2)
         else bind_fault (write_commit K ?s2 pos count) (\<lambda>s. Inr (count, mutex_unlock s)))"
    using r cp cnt(1) ul st(1) g(1)
    by (simp add: aesd_write_def mutex_lock_free with_cur_heap Let_def)
  have "0 < unat count" using len bs by (metis length_greater_0_conv)
  have "kmalloc_max K < 2 ^ 32" using K by (simp add: kernel_ok_def kmalloc_ok_def)
  then have "unat (pos + count) = length (dev_partial s) + unat count"
    using g(1,4,5) len by (subst unat_small_add) auto
  then have "unat (pos + count - 1) = length (dev_partial s) + unat count - 1"
    using \<open>0 < unat count\<close> by (subst unat_minus_one) (auto simp: word_unat_eq_iff)
  then show ?thesis
    using that [of ?s2 pos a, OF w] st g(9) len by simp
qed

lemma aesd_write_efault:
  assumes K: "kernel_ok K" and inv: "drv_inv K s" and ul: "\<not> lock (aesd_device s)"
    and cnt: "count \<noteq> 0" "unat count < 2 ^ 32" and mem: "mem_available K s count"
    and rd: "\<not> user_readable K buf count"
  obtains s' where "aesd_write K s buf count = Inr (- EFAULT, s')" "drv_inv K s'"
    "\<not> lock (aesd_device s')"
    "dev_log s' = (dev_lines s, dev_partial s @ fst (copy_from_user K buf count))"
    "heap_exact s \<Longrightarrow> heap_exact s'"
proof -
  obtain bs left where cp: "copy_from_user K buf count = (bs, left)" by fastforce
  with rd have "left \<noteq> 0" by (simp add: user_readable_def)
  from aesd_write_got [OF K inv ul cnt mem cp] obtain s2 where
    "aesd_write K s buf count = Inr (- EFAULT, mutex_unlock s2)" "drv_inv K s2"
    "dev_lines s2 = dev_lines s" "dev_partial s2 = dev_partial s @ bs" "heap_exact s \<Longrightarrow> heap_exact s2"
    using \<open>left \<noteq> 0\<close> by metis
  with cp show ?thesis by (intro that [of "mutex_unlock s2"]) (simp_all add: dev_log_def)
qed

lemma aesd_write_done:
  assumes K: "kernel_ok K" and inv: "drv_inv K s" and ul: "\<not> lock (aesd_device s)"
    and cnt: "count \<noteq> 0" "unat count < 2 ^ 32" and mem: "mem_available K s count"
    and rd: "user_readable K buf count"
  obtains s' where "aesd_write K s buf count = Inr (count, s')" "drv_inv K s'"
    "\<not> lock (aesd_device s')" "dev_log s' = log_write (dev_log s) (take (unat count) buf)"
    "heap_exact s \<Longrightarrow> heap_exact s'"
proof -
  obtain bs left where cp: "copy_from_user K buf count = (bs, left)" by fastforce
  with rd have l: "left = 0" by (simp add: user_readable_def)
  then have bs: "bs = take (unat count) buf" and len: "length bs = unat count"
    using copied_bytes [OF K cp] by auto
  have ne: "bs \<noteq> []" using len cnt(1) by (auto simp: word_unat_eq_iff)
  from aesd_write_got [OF K inv ul cnt mem cp] obtain s2 pos a where
    w: "aesd_write K s buf count = bind_fault (write_commit K s2 pos count) (\<lambda>s. Inr (count, mutex_unlock s))"
    and s2: "drv_inv K s2" "dev_lines s2 = dev_lines s" "dev_partial s2 = dev_partial s @ bs"
    "buffptr (cur_of s2) = Ptr a" "unat (pos + count - 1) = length (dev_partial s2) - 1"
    "heap_exact s \<Longrightarrow> heap_exact s2"
    using l by auto
  from write_commit_spec [OF K s2(1,4,5)] obtain s3 where
    "write_commit K s2 pos count = Inr s3" "drv_inv K s3"
    "dev_log s3 = log_write (dev_log s) bs" "heap_exact s2 \<Longrightarrow> heap_exact s3"
    using s2 ne by (auto simp: dev_log_def split: if_splits)
  with w s2 bs show ?thesis
    by (intro that [of "mutex_unlock s3"]) (auto simp: dev_log_def)
qed

section \<open>Reading\<close>

lemma sizes_dev_lines:
  assumes "list_all (line_ok K (heap s)) (ring_of s)"
  shows "sizes (ring_of s) = map length (dev_lines s)"
  using assms by (auto simp: dev_lines_def list_all_iff line_ok_def block_ok_def split: option.splits)

lemma total_size_small:
  assumes K: "kernel_ok K" and inv: "drv_inv K s"
  shows "sum_list (map length (dev_lines s)) < 2 ^ 36"
proof -
  have m: "kmalloc_max K < 2 ^ 32" using K by (simp add: kernel_ok_def kmalloc_ok_def)
  have "length l \<le> kmalloc_max K" if "l \<in> set (dev_lines s)" for l
    using that drv_invD(2) [OF inv]
    by (auto simp: dev_lines_def list_all_iff line_ok_def block_ok_def split: option.splits)
  then have "sum_list (map length (dev_lines s)) \<le> length (dev_lines s) * kmalloc_max K"
    by (rule sum_list_map_le)
  also have "\<dots> \<le> 10 * kmalloc_max K"
    using length_cb_list_le [of "buffer (aesd_device s)"] by (simp add: dev_lines_def)
  finally show ?thesis using m by simp
qed

text \<open>What one \<^verbatim>\<open>read\<close> of \<open>n\<close> bytes at a position returns: at most the rest of the line there.\<close>

definition log_read :: "string list \<Rightarrow> nat \<Rightarrow> nat \<Rightarrow> string" where
  "log_read ls pos n =
     (case locate (map length ls) pos of None \<Rightarrow> [] | Some (k, off) \<Rightarrow> take n (drop off (ls ! k)))"

lemma log_read_prefix: "\<exists>m. log_read ls pos n = take m (drop pos (concat ls)) \<and> m \<le> n"
proof (cases "locate (map length ls) pos")
  case None
  then show ?thesis by (auto simp: log_read_def intro: exI [of _ 0])
next
  case (Some p)
  obtain k off where p: "p = (k, off)" by fastforce
  let ?l = "drop off (ls ! k)"
  have "take n ?l = take (min n (length ?l)) (drop pos (concat ls))"
    using locate_drop_concat [of ls pos k off] Some p by (simp add: min_def)
  then show ?thesis using Some p by (auto simp: log_read_def intro!: exI [of _ "min n (length ?l)"])
qed

lemma log_read_empty_iff:
  "log_read ls pos n = [] \<longleftrightarrow> n = 0 \<or> length (concat ls) \<le> pos"
proof (cases "locate (map length ls) pos")
  case None
  then show ?thesis using locate_None_iff_concat [of ls pos] by (simp add: log_read_def)
next
  case (Some p)
  obtain k off where p: "p = (k, off)" by fastforce
  have "\<not> length (concat ls) \<le> pos" using Some locate_None_iff_concat [of ls pos] by simp
  moreover have "off < length (ls ! k)" using Some p by (auto simp: locate_Some_iff)
  ultimately show ?thesis using Some p by (simp add: log_read_def)
qed

lemma copied_to_user:
  assumes "kernel_ok K" and "snd (copy_to_user K u bs) = 0"
  shows "fst (copy_to_user K u bs) = bs @ drop (length bs) u"
proof -
  obtain u' where c: "copy_to_user K u bs = (u', 0)" using assms(2) by (metis prod.collapse)
  then have "u' = take (length bs - unat (0 :: size_t)) bs @ drop (length bs - unat (0 :: size_t)) u"
    using assms(1) unfolding kernel_ok_def copy_to_user_ok_def by blast
  then show ?thesis using c by simp
qed

lemma aesd_read_spec:
  assumes K: "kernel_ok K" and inv: "drv_inv K s" and ul: "\<not> lock (aesd_device s)"
  shows "aesd_read K s buf count f_pos = Some (Inr (
    let d = log_read (dev_lines s) (unat f_pos) (unat count) in
    if d = [] then (0, f_pos, buf, s)
    else case copy_to_user K buf d of (buf', left) \<Rightarrow>
      if left \<noteq> 0 then (- EFAULT, f_pos, buf', s)
      else (of_nat (length d), f_pos + of_nat (length d), buf', s)))"
proof -
  let ?b = "buffer (aesd_device s)" and ?ls = "dev_lines s"
  have lines: "list_all (line_ok K (heap s)) (ring_of s)" and cb: "cb_inv ?b"
    using drv_invD [OF inv] by auto
  note sz = sizes_dev_lines [OF lines]
  have "sum_list (sizes (ring_of s)) < 2 ^ 64"
    using total_size_small [OF K inv] by (simp add: sz)
  note find = find_entry_locate [OF cb this, unfolded sz]
  show ?thesis
  proof (cases "locate (map length ?ls) (unat f_pos)")
    case None
    then show ?thesis
      using ul find [of f_pos]
      by (simp add: aesd_read_def mutex_lock_free read_entry_def log_read_def Let_def)
  next
    case (Some p)
    obtain k off where p: "p = (k, off)" by fastforce
    have k: "k < length (ring_of s)" and off: "off < length (?ls ! k)"
      using Some p by (auto simp: locate_Some_iff dev_lines_def)
    let ?e = "entry ?b ! ring_slot ?b k"
    have e: "?e = ring_of s ! k" using cb_list_nth [OF k] by simp
    then have "line_ok K (heap s) ?e" using lines k by (simp add: list_all_length)
    then obtain a where a: "buffptr ?e = Ptr a" "heap s a = Some (?ls ! k)"
      "unat (entry_size ?e) = length (?ls ! k)"
      using e k by (auto simp: line_ok_def block_ok_iff dev_lines_def entry_bytes_def)
    have offw: "unat (of_nat off :: size_t) = off"
      using off a(3) unat_size_t_less [of "entry_size ?e"] by (intro unat_of_nat_small) simp
    have sub: "unat (entry_size ?e - of_nat off) = length (?ls ! k) - off"
      using off a(3) offw by (subst unat_sub) (simp_all add: word_le_nat_alt)
    let ?n = "if entry_size ?e - of_nat off < count then entry_size ?e - of_nat off else count"
    let ?d = "take (unat count) (drop off (?ls ! k))"
    have n: "unat ?n = length ?d"
      using sub by (auto simp: word_less_nat_alt min_def)
    then have nw: "?n = of_nat (length ?d)" by (rule word_eq_of_nat)
    have ld: "load_bytes (heap s) (buffptr ?e) off (unat ?n) = Inr ?d"
      unfolding n using a(1,2) off by (auto simp: load_bytes_def min_def)
    have d0: "?d = [] \<longleftrightarrow> count = 0"
      using off by (auto simp: word_unat_eq_iff)
    show ?thesis
      using ul find [of f_pos] Some p d0 ld nw offw
      by (auto simp: aesd_read_def mutex_lock_free read_entry_def log_read_def Let_def split: prod.split)
  qed
qed

section \<open>Seeking\<close>

lemma dev_lines_simps:
  "length (dev_lines s) = length (ring_of s)"
  by (simp add: dev_lines_def)

lemma get_size_total:
  assumes K: "kernel_ok K" and inv: "drv_inv K s"
  shows "aesd_circular_buffer_get_size (buffer (aesd_device s)) = Some (Inr (of_nat (length (concat (dev_lines s)))))"
    and "sint (of_nat (length (concat (dev_lines s))) :: loff_t) = int (length (concat (dev_lines s)))"
proof -
  have small: "length (concat (dev_lines s)) < 2 ^ 36"
    using total_size_small [OF K inv] by (simp add: length_concat)
  show "aesd_circular_buffer_get_size (buffer (aesd_device s)) = Some (Inr (of_nat (length (concat (dev_lines s)))))"
    using get_size_eq [OF drv_invD(1) [OF inv]] sizes_dev_lines [OF drv_invD(2) [OF inv]]
    by (simp add: length_concat)
  show "sint (of_nat (length (concat (dev_lines s))) :: loff_t) = int (length (concat (dev_lines s)))"
    using small by (simp add: signed_of_nat signed_take_bit_int_eq_self)
qed

lemma adjust_in_array:
  assumes inv: "drv_inv K s" and small: "sum_list (map length (dev_lines s)) < 2 ^ 64"
    and c: "unat c < length (dev_lines s)" and arr: "unat (out_offs (buffer (aesd_device s))) + unat c < 10"
  shows "aesd_adjust_file_offset s f_pos c off = Some (Inr (
    if unat off < length (dev_lines s ! unat c)
    then (0, of_nat (length (concat (take (unat c) (dev_lines s))) + unat off))
    else (- EINVAL, f_pos)))"
proof -
  let ?b = "buffer (aesd_device s)" and ?k = "unat c"
  have cb: "cb_inv ?b" and lines: "list_all (line_ok K (heap s)) (ring_of s)"
    using drv_invD [OF inv] by auto
  have k: "?k < length (ring_of s)" "?k < 10" using c arr by (simp_all add: dev_lines_simps)
  have cnt: "\<not> aesd_circular_buffer_get_count ?b \<le> c"
    using length_cb_list [OF cb] k by (simp add: word_le_nat_alt)
  have slot: "ring_slot ?b ?k = unat (out_offs ?b) + ?k" using arr by (simp add: ring_slot_def)
  have ent: "ucast (out_offs ?b) + c = (of_nat (ring_slot ?b ?k) :: u32)"
    by (simp add: slot)
  have sz: "map (\<lambda>e. unat (entry_size e)) (ring_of s) = map length (dev_lines s)"
    by (rule sizes_dev_lines [OF lines])
  have e: "entry ?b ! ring_slot ?b ?k = ring_of s ! ?k" using cb_list_nth k(1) by metis
  have len: "unat (entry_size (ring_of s ! ?k)) = length (dev_lines s ! ?k)"
    using arg_cong [OF sz, of "\<lambda>xs. xs ! ?k"] k(1) by (simp add: dev_lines_simps)
  have off: "unat (ucast off :: size_t) = unat off" by (rule unat_ucast_u32_u64)
  have ring_k: "ring_entries ?b ! ?k = ring_of s ! ?k"
    "take ?k (ring_entries ?b) = take ?k (ring_of s)"
    using k(1) unfolding ring_entries_padded [OF cb] by (simp_all add: nth_append)
  have sum: "sum_list (sizes (take ?k (ring_entries ?b))) = length (concat (take ?k (dev_lines s)))"
    unfolding ring_k(2) using arg_cong [OF sz, of "take ?k"] by (simp add: length_concat take_map)
  have fp: "aesd_circular_buffer_fpos_for_entry ?b (of_nat (ring_slot ?b ?k)) (ucast off)
    = Some (Inr (if unat off < length (dev_lines s ! ?k)
        then Some (of_nat (length (concat (take ?k (dev_lines s))) + unat off)) else None))"
    using fpos_for_entry_eq [OF cb_inv_shape [OF cb] k(2), of "ucast off"] sum ring_k(1) len off
    by (simp add: word_less_nat_alt)
  show ?thesis
    using cnt ent fp e len off ring_slot_less [of ?b ?k] cb_shapeD(1) [OF cb_inv_shape [OF cb]]
    by (simp add: aesd_adjust_file_offset_def Let_def word_le_nat_alt not_le)
qed

lemma adjust_no_entry:
  assumes "drv_inv K s" and "length (dev_lines s) \<le> unat c"
  shows "aesd_adjust_file_offset s f_pos c off = Some (Inr (- EINVAL, f_pos))"
  using assms length_cb_list [OF drv_invD(1) [OF assms(1)]]
  by (simp add: aesd_adjust_file_offset_def Let_def word_le_nat_alt dev_lines_simps)

lemma adjust_beyond_array:
  assumes inv: "drv_inv K s" and c: "unat c < length (dev_lines s)"
    and arr: "10 \<le> unat (out_offs (buffer (aesd_device s))) + unat c"
  shows "aesd_adjust_file_offset s f_pos c off = Some (Inl Out_of_bounds)"
proof -
  let ?b = "buffer (aesd_device s)"
  have cb: "cb_inv ?b" by (rule drv_invD(1) [OF inv])
  have "length (ring_of s) \<le> 10" by (rule length_cb_list_le)
  moreover have "unat (out_offs ?b) < 10" using cb_shapeD(3) [OF cb_inv_shape [OF cb]] .
  ultimately have "unat (ucast (out_offs ?b) + c) = unat (out_offs ?b) + unat c"
    using c by (subst unat_small_add) (simp_all add: dev_lines_simps)
  then show ?thesis
    using length_cb_list [OF cb] c arr cb_shapeD(1) [OF cb_inv_shape [OF cb]]
    by (simp add: aesd_adjust_file_offset_def Let_def word_le_nat_alt dev_lines_simps)
qed

lemma ioctl_seekto:
  assumes "kernel_ok K"
  shows "unlocked_ioctl K s f_pos (AESDCHAR_IOCSEEKTO K) arg =
    (if snd (get_seekto K arg) \<noteq> 0 then Some (Inr (- EFAULT, f_pos))
     else aesd_adjust_file_offset s f_pos (write_cmd (fst (get_seekto K arg)))
            (write_cmd_offset (fst (get_seekto K arg))))"
  using assms
  by (simp add: kernel_ok_def ioc_ok_def unlocked_ioctl_def AESDCHAR_IOCSEEKTO_def AESD_IOC_MAGIC_def
      AESDCHAR_IOC_MAXNR_def split_beta)

lemma llseek_at:
  assumes "kernel_ok K" and "drv_inv K s"
  shows "llseek K s f_pos offset whence = Some (Inr (
    let size = int (length (concat (dev_lines s)));
        target = (if whence = 0 then sint offset
                  else if whence = 1 then sint f_pos + sint offset else size + sint offset)
    in if whence \<in> {0, 1, 2} \<and> 0 \<le> target \<and> target \<le> size
       then (of_int target, of_int target) else (- EINVAL, f_pos)))"
  using get_size_total [OF assms] assms(1)
  by (simp add: llseek_def kernel_ok_def fixed_size_llseek_ok_def seek_target_def Let_def)

section \<open>Unloading\<close>

lemma cleanup_slot_step:
  assumes K: "kernel_ok K" and len: "length (entry (buffer (aesd_device s))) = 10"
    and j: "(unat (out_offs (buffer (aesd_device s))) + i) mod n = j" "j < 10"
    and e: "entry (buffer (aesd_device s)) ! j = e" and a: "buffptr e = Ptr a" "heap s a \<noteq> None"
  shows "cleanup_slot K n s i = Inr (s\<lparr>heap := (heap s)(a := None),
    aesd_device := (aesd_device s)\<lparr>buffer := (buffer (aesd_device s))
      \<lparr>entry := (entry (buffer (aesd_device s)))[j := null_entry]\<rparr>\<rparr>\<rparr>)"
  using assms by (simp add: cleanup_slot_def Let_def kfree_ptr_def kernel_ok_def kfree_ok_def)

lemma cleanup_ring:
  assumes K: "kernel_ok K" and ring: "length ring = n" "list_all (line_ok K h0) ring"
    and dist: "distinct (entry_addrs ring)" and ij: "i \<le> n" "n \<le> 10"
    and slot: "\<And>k. k < n \<Longrightarrow> (unat o' + k) mod n = slot k \<and> slot k < 10" "inj_on slot {..<n}"
    and st: "length (entry (buffer (aesd_device s))) = 10" "out_offs (buffer (aesd_device s)) = o'"
      "\<And>k. i \<le> k \<Longrightarrow> k < n \<Longrightarrow> entry (buffer (aesd_device s)) ! slot k = ring ! k"
      "heap s = h0 |` (- set (entry_addrs (take i ring)))"
  shows "\<exists>s'. fold_fault (cleanup_slot K n) s [i..<n] = Inr s'
    \<and> heap s' = h0 |` (- set (entry_addrs ring))"
  using ij(1) st
proof (induction "n - i" arbitrary: i s)
  case 0
  then show ?case using ring(1) by simp
next
  case (Suc m)
  then have i: "i < n" by simp
  have "line_ok K h0 (ring ! i)" using ring i by (simp add: list_all_length)
  then obtain a where a: "buffptr (ring ! i) = Ptr a" "h0 a \<noteq> None"
    by (auto simp: line_ok_def block_ok_iff)
  have tk: "take (Suc i) ring = take i ring @ [ring ! i]" using i ring(1) by (simp add: take_Suc_conv_app_nth)
  have "distinct (entry_addrs (take (Suc i) ring))"
    using dist arg_cong [OF append_take_drop_id [of "Suc i" ring], of entry_addrs]
    by (metis distinct_append entry_addrs_simps(3))
  then have fresh: "a \<notin> set (entry_addrs (take i ring))" using a(1) by (simp add: tk)
  let ?b = "buffer (aesd_device s)"
  let ?s1 = "s\<lparr>heap := (heap s)(a := None),
    aesd_device := (aesd_device s)\<lparr>buffer := ?b\<lparr>entry := (entry ?b)[slot i := null_entry]\<rparr>\<rparr>\<rparr>"
  have step: "cleanup_slot K n s i = Inr ?s1"
    using slot(1) [OF i] Suc.prems i a fresh
    by (intro cleanup_slot_step [OF K]) (auto simp: restrict_map_def)
  have "entry (buffer (aesd_device ?s1)) ! slot k = ring ! k" if "Suc i \<le> k" "k < n" for k
  proof -
    have "slot i \<noteq> slot k" using inj_onD [OF slot(2), of i k] that i by auto
    then show ?thesis using Suc.prems(4) [of k] that by simp
  qed
  moreover have "(heap s)(a := None) = h0 |` (- set (entry_addrs (take (Suc i) ring)))"
    using Suc.prems(5) a(1) by (auto simp: tk restrict_map_def fun_eq_iff)
  ultimately have "\<exists>s'. fold_fault (cleanup_slot K n) ?s1 [Suc i..<n] = Inr s'
    \<and> heap s' = h0 |` (- set (entry_addrs ring))"
    using Suc.prems(2,3) Suc.hyps(2) i by (intro Suc.hyps(1)) simp_all
  then show ?case using i step by (simp add: upt_conv_Cons)
qed

lemma cleanup_slots:
  assumes "cb_inv b" and "k < length (cb_list b)"
  shows "(unat (out_offs b) + k) mod length (cb_list b) = ring_slot b k"
proof (cases "full b")
  case True
  then have "length (cb_list b) = 10" using assms(1) by (simp add: length_cb_list unat_get_count)
  then show ?thesis by (simp add: ring_slot_def)
next
  case False
  then have "out_offs b = 0" using assms(1) by (simp add: cb_inv_def)
  then show ?thesis using assms(2) length_cb_list_le [of b] by (simp add: ring_slot_def)
qed

lemma cleanup_frees_blocks:
  assumes K: "kernel_ok K" and inv: "drv_inv K s"
  obtains s' where "aesd_cleanup_module K s = Inr s'" "heap s' = heap s |` (- set (drv_addrs s))"
    "\<not> region s'" "\<not> cdev (aesd_device s')"
proof -
  let ?b = "buffer (aesd_device s)" and ?cur = "ptr_addrs (buffptr (cur_of s))"
  let ?h0 = "heap s |` (- set ?cur)" and ?n = "length (ring_of s)"
  let ?s1 = "s\<lparr>heap := ?h0\<rparr>"
  note D = drv_invD [OF inv]
  have keep: "?h0 a = heap s a" if "a \<in> set (entry_addrs (ring_of s))" for a
    using that D(5) by (auto simp: restrict_map_def)
  have first: "(if buffptr (cur_of s) \<noteq> NULL
      then bind_fault (kfree_ptr K (heap s) (buffptr (cur_of s))) (\<lambda>h. Inr (s\<lparr>heap := h\<rparr>)) else Inr s) = Inr ?s1"
  proof (cases "buffptr (cur_of s)")
    case NULL
    then show ?thesis by (simp add: restrict_map_def)
  next
    case (Ptr a)
    then have "block_ok K (heap s) (cur_of s)" using D(3) by simp
    from kfree_line [OF K this] Ptr show ?thesis
      by (auto simp: restrict_map_def fun_eq_iff)
  qed
  have "\<exists>s2. fold_fault (cleanup_slot K ?n) ?s1 [0..<?n] = Inr s2
      \<and> heap s2 = ?h0 |` (- set (entry_addrs (ring_of s)))"
  proof (rule cleanup_ring [OF K refl])
    show "list_all (line_ok K ?h0) (ring_of s)" using D(2) lines_cong(1) [OF keep] by simp
    show "\<And>k. k < ?n \<Longrightarrow> (unat (out_offs ?b) + k) mod ?n = ring_slot ?b k \<and> ring_slot ?b k < 10"
      using cleanup_slots [OF D(1)] ring_slot_less by simp
    show "inj_on (ring_slot ?b) {..<?n}"
      using ring_slot_inj length_cb_list_le [of ?b] by (auto simp: inj_on_def)
    show "\<And>k. 0 \<le> k \<Longrightarrow> k < ?n \<Longrightarrow> entry (buffer (aesd_device ?s1)) ! ring_slot ?b k = ring_of s ! k"
      by (simp add: cb_list_nth)
  qed (use D(1,4) length_cb_list_le [of ?b] in \<open>simp_all add: cb_inv_def cb_shape_def\<close>)
  then obtain s2 where s2: "fold_fault (cleanup_slot K ?n) ?s1 [0..<?n] = Inr s2"
    "heap s2 = ?h0 |` (- set (entry_addrs (ring_of s)))" by blast
  have "heap s2 = heap s |` (- set (drv_addrs s))"
    using s2(2) by (auto simp: drv_addrs_def restrict_map_def fun_eq_iff)
  moreover have "aesd_cleanup_module K s
      = Inr (s2\<lparr>aesd_device := (aesd_device s2)\<lparr>cdev := False\<rparr>, region := False\<rparr>)"
    using s2(1) length_cb_list [OF D(1)]
    by (simp only: aesd_cleanup_module_def first bind_fault_simps Let_def) simp
  ultimately show ?thesis
    by (intro that [of "s2\<lparr>aesd_device := (aesd_device s2)\<lparr>cdev := False\<rparr>, region := False\<rparr>"])
      simp_all
qed

section \<open>A kernel for examples\<close>

text \<open>A small allocator with 32 blocks, user copies that succeed as far as the user's bytes reach, and
  the encodings of \<^verbatim>\<open>asm-generic/ioctl.h\<close>; it satisfies every hypothesis on the kernel.\<close>

definition pool_kernel :: kernel where
  "pool_kernel =
     \<lparr>kmalloc = (\<lambda>h n. if unat n \<le> 4194304
        then case List.find (\<lambda>a. h a = None) [0..<32] of
            None \<Rightarrow> (h, NULL) | Some a \<Rightarrow> (h(a \<mapsto> replicate (unat n) nul), Ptr a)
        else (h, NULL)),
      krealloc = (\<lambda>h a n. if unat n \<le> 4194304
        then (h(a \<mapsto> take (unat n) (the (h a) @ replicate (unat n) nul)), Ptr a) else (h, NULL)),
      kfree = (\<lambda>h a. h(a := None)),
      kmalloc_max = 4194304,
      copy_from_user = (\<lambda>u n. let m = min (length u) (unat n)
        in (take m u @ replicate (unat n - m) nul, of_nat (unat n - m))),
      copy_to_user = (\<lambda>u bs. (bs @ drop (length bs) u, 0)),
      get_seekto = (\<lambda>arg. (\<lparr>write_cmd = ucast (drop_bit 32 arg), write_cmd_offset = ucast arg\<rparr>, 0)),
      fixed_size_llseek = (\<lambda>f_pos offset whence sz.
        case seek_target f_pos offset whence sz of
          None \<Rightarrow> (- EINVAL, f_pos)
        | Some t \<Rightarrow> if 0 \<le> t \<and> t \<le> sint sz then (of_int t, of_int t) else (- EINVAL, f_pos)),
      IOC_TYPE = (\<lambda>c. take_bit 8 (drop_bit 8 c)),
      IOC_NR = (\<lambda>c. take_bit 8 c),
      IOWR = (\<lambda>t n sz. Bit_Operations.or (push_bit 16 sz) (Bit_Operations.or (push_bit 8 t) n))\<rparr>"

lemma not_bit_of_small: "t < 256 \<Longrightarrow> 8 \<le> i \<Longrightarrow> \<not> bit (t :: u32) i"
proof -
  assume "t < 256" and i: "8 \<le> i"
  then have "unat t < 2 ^ 8" by (simp add: word_less_nat_alt)
  then have "take_bit 8 (unat t) = unat t" by (simp add: take_bit_nat_eq_self)
  then have "take_bit 8 t = t" by (metis unsigned_take_bit_eq word_unat_eq_iff)
  then show "\<not> bit t i" using i by (metis bit_take_bit_iff not_less)
qed

lemma pool_kernel_ioc: "ioc_ok pool_kernel"
  unfolding ioc_ok_def
proof (intro allI impI conjI)
  fix t n sz :: u32
  assume tn: "t < 256" "n < 256"
  show "IOC_TYPE pool_kernel (IOWR pool_kernel t n sz) = t"
    using not_bit_of_small [OF tn(1)] not_bit_of_small [OF tn(2)]
    by (intro bit_word_eqI) (auto simp: pool_kernel_def bit_simps not_less)
  show "IOC_NR pool_kernel (IOWR pool_kernel t n sz) = n"
    using not_bit_of_small [OF tn(1)] not_bit_of_small [OF tn(2)]
    by (intro bit_word_eqI) (auto simp: pool_kernel_def bit_simps not_less)
qed

lemma pool_kernel_ok: "kernel_ok pool_kernel"
proof -
  have "kmalloc_ok pool_kernel"
    by (auto simp: kmalloc_ok_def pool_kernel_def find_Some_iff
        split: ptr.splits if_splits option.splits intro!: exI [of _ "replicate _ nul"])
  moreover have "krealloc_ok pool_kernel"
    unfolding krealloc_ok_def
  proof (intro allI impI)
    fix h :: kheap and a old n h' p
    assume h: "h a = Some old" and r: "krealloc pool_kernel h a n = (h', p)"
    let ?bs = "take (unat n) (old @ replicate (unat n) nul)"
    have "length ?bs = unat n
        \<and> take (min (length old) (unat n)) ?bs = take (min (length old) (unat n)) old
        \<and> h(a \<mapsto> ?bs) = (h(a := None))(a \<mapsto> ?bs)"
      by (simp add: min_def)
    then show "case p of NULL \<Rightarrow> h' = h
        | Ptr a' \<Rightarrow> (a' = a \<or> h a' = None) \<and> unat n \<le> kmalloc_max pool_kernel
            \<and> (\<exists>bs. length bs = unat n
                 \<and> take (min (length old) (unat n)) bs = take (min (length old) (unat n)) old
                 \<and> h' = (h(a := None))(a' \<mapsto> bs))"
      using h r by (cases "unat n \<le> 4194304") (auto simp: pool_kernel_def intro!: exI [of _ ?bs])
  qed
  moreover have "copy_from_user_ok pool_kernel"
  proof -
    have "unat (of_nat (unat n - m) :: size_t) = unat n - m" for n :: size_t and m
      using unat_size_t_less [of n] by (intro unat_of_nat_small) simp
    then show ?thesis
      by (auto simp: copy_from_user_ok_def pool_kernel_def Let_def min_def simp del: of_nat_diff)
  qed
  moreover have "kfree_ok pool_kernel" "copy_to_user_ok pool_kernel" "fixed_size_llseek_ok pool_kernel"
    by (auto simp: kfree_ok_def copy_to_user_ok_def fixed_size_llseek_ok_def pool_kernel_def)
  ultimately show ?thesis by (simp add: kernel_ok_def pool_kernel_ioc)
qed

text \<open>A device that was just loaded, and one that holds a line and an unfinished line.\<close>

definition fresh_driver :: driver where
  "fresh_driver =
     \<lparr>aesd_device = \<lparr>buffer = aesd_circular_buffer_init, current_entry = null_entry,
                       lock = False, cdev = True\<rparr>,
      heap = Map.empty, aesd_major = 0, region = True\<rparr>"

definition sample_driver :: driver where
  "sample_driver =
     \<lparr>aesd_device = \<lparr>buffer = \<lparr>entry = \<lparr>buffptr = Ptr 0, entry_size = 3\<rparr> # replicate 9 null_entry,
                               in_offs = 1, out_offs = 0, full = False\<rparr>,
                       current_entry = \<lparr>buffptr = Ptr 1, entry_size = 2\<rparr>, lock = False, cdev = True\<rparr>,
      heap = [0 \<mapsto> ''hi'' @ [newline], 1 \<mapsto> ''ab''], aesd_major = 0, region = True\<rparr>"

lemma fresh_driver_inv:
  "drv_inv K fresh_driver" "\<not> lock (aesd_device fresh_driver)" "heap_exact fresh_driver"
  "dev_log fresh_driver = ([], [])"
  by (simp_all add: drv_inv_def fresh_driver_def cb_inv_init cb_list_init drv_addrs_def null_entry_def
      heap_exact_def dev_log_def dev_lines_def dev_partial_def entry_bytes_def)

lemma sample_driver_inv:
  "drv_inv pool_kernel sample_driver" "\<not> lock (aesd_device sample_driver)" "heap_exact sample_driver"
  "dev_log sample_driver = ([''hi'' @ [newline]], ''ab'')"
proof -
  let ?b = "buffer (aesd_device sample_driver)"
  have cb: "cb_inv ?b" by (simp add: sample_driver_def cb_inv_def cb_shape_def list_all_iff)
  then have l: "ring_of sample_driver = [\<lparr>buffptr = Ptr 0, entry_size = 3\<rparr>]"
    by (subst cb_list_not_full) (simp_all add: sample_driver_def)
  show "drv_inv pool_kernel sample_driver" "heap_exact sample_driver"
    "dev_log sample_driver = ([''hi'' @ [newline]], ''ab'')" "\<not> lock (aesd_device sample_driver)"
    using cb l
    by (auto simp: drv_inv_def drv_addrs_def heap_exact_def dev_log_def dev_lines_def dev_partial_def
        line_ok_def block_ok_def entry_bytes_def sample_driver_def pool_kernel_def)
qed

section \<open>Sequences of writes\<close>

fun run_writes :: "kernel \<Rightarrow> driver \<Rightarrow> string list \<Rightarrow> fault + ssize_t list \<times> driver" where
  "run_writes K s [] = Inr ([], s)"
| "run_writes K s (w # ws) =
     bind_fault (aesd_write K s w (of_nat (length w))) (\<lambda>(r, s1).
       bind_fault (run_writes K s1 ws) (\<lambda>(rs, s2). Inr (r # rs, s2)))"

lemma neg_errno_big:
  "unat (- ENOMEM) = 2 ^ 64 - 12" "unat (- EFAULT) = 2 ^ 64 - 14"
  by (simp_all add: errno_defs)

lemma aesd_write_in_full:
  assumes K: "kernel_ok K" and inv: "drv_inv K s" and ul: "\<not> lock (aesd_device s)" and n: "unat n < 2 ^ 32"
    and r: "aesd_write K s w n = Inr (n, s')"
  shows "drv_inv K s'" and "\<not> lock (aesd_device s')" and "dev_log s' = log_write (dev_log s) (take (unat n) w)"
proof -
  have big: "n \<noteq> - ENOMEM" "n \<noteq> - EFAULT" using n neg_errno_big by (auto dest: arg_cong [of _ _ unat])
  have *: "drv_inv K s' \<and> \<not> lock (aesd_device s') \<and> dev_log s' = log_write (dev_log s) (take (unat n) w)"
  proof (cases "n = 0")
    case True
    then have "s' = s" using r ul by (simp add: aesd_write_zero)
    then show ?thesis using True inv ul by (simp add: dev_log_def)
  next
    case c: False
    have m: "mem_available K s n"
      using aesd_write_nomem [OF K inv ul c n] r big(1) by (metis Inr_inject Pair_inject)
    moreover have "user_readable K w n"
      using aesd_write_efault [OF K inv ul c n m] r big(2) by (metis Inr_inject Pair_inject)
    ultimately obtain s1 where "aesd_write K s w n = Inr (n, s1)" "drv_inv K s1" "\<not> lock (aesd_device s1)"
      "dev_log s1 = log_write (dev_log s) (take (unat n) w)"
      using aesd_write_done [OF K inv ul c n] by metis
    then show ?thesis using r by simp
  qed
  then show "drv_inv K s'" and "\<not> lock (aesd_device s')" and "dev_log s' = log_write (dev_log s) (take (unat n) w)"
    by simp_all
qed

lemma aesd_write_complete:
  assumes K: "kernel_ok K" and inv: "drv_inv K s" and ul: "\<not> lock (aesd_device s)"
    and len: "length w < 2 ^ 32" and r: "aesd_write K s w (of_nat (length w)) = Inr (of_nat (length w), s')"
  shows "drv_inv K s'" and "\<not> lock (aesd_device s')" and "dev_log s' = log_write (dev_log s) w"
proof -
  have u: "unat (of_nat (length w) :: size_t) = length w" using len by (intro unat_of_nat_small) simp
  then show "drv_inv K s'" and "\<not> lock (aesd_device s')" and "dev_log s' = log_write (dev_log s) w"
    using aesd_write_in_full [OF K inv ul _ r] len by simp_all
qed

lemma run_writes_log:
  assumes "kernel_ok K" and "drv_inv K s" and "\<not> lock (aesd_device s)"
    and "\<And>w. w \<in> set ws \<Longrightarrow> length w < 2 ^ 32"
    and "run_writes K s ws = Inr (map (\<lambda>w. of_nat (length w)) ws, s')"
  shows "drv_inv K s' \<and> \<not> lock (aesd_device s') \<and> dev_log s' = foldl log_write (dev_log s) ws"
  using assms(2-)
proof (induction ws arbitrary: s)
  case Nil
  then show ?case by simp
next
  case (Cons w ws)
  from Cons.prems(4) obtain s1 where
    s1: "aesd_write K s w (of_nat (length w)) = Inr (of_nat (length w), s1)"
    and rest: "run_writes K s1 ws = Inr (map (\<lambda>w. of_nat (length w)) ws, s')"
    by (auto simp: bind_fault_eq_Inr)
  have "length w < 2 ^ 32" using Cons.prems(3) by simp
  note w = aesd_write_complete [OF assms(1) Cons.prems(1,2) this s1]
  show ?case using Cons.IH [OF w(1,2) _ rest] Cons.prems(3) w(3) by simp
qed

lemma foldl_log_write_lines:
  "(\<And>w. w \<in> set ws \<Longrightarrow> w \<noteq> [] \<and> last w = newline) \<Longrightarrow>
     foldl log_write (keep_last 10 ls, []) ws = (keep_last 10 (ls @ ws), [])"
proof (induction ws arbitrary: ls)
  case (Cons w ws)
  then have "log_write (keep_last 10 ls, []) w = (keep_last 10 (ls @ [w]), [])"
    by (simp add: keep_last_append_keep)
  then show ?case using Cons.IH [of "ls @ [w]"] Cons.prems by simp
qed simp

section \<open>Properties of the driver\<close>

text \<open>C6. Every write, on every branch: the call returns and the lock is free afterwards, the
  invariant is kept, and result and contents are: nothing for a zero count; \<^verbatim>\<open>-ENOMEM\<close> with the
  unfinished line dropped when the allocator refuses; \<^verbatim>\<open>-EFAULT\<close> with the partly copied, zero-padded
  bytes appended to the unfinished line when the user's buffer cannot be read; else the count, and
  the bytes are appended, which completes a line and evicts the oldest of more than ten when they
  end in a newline.\<close>

theorem aesd_write_refines_line_log:
  assumes "kernel_ok K" and "drv_inv K s" and "\<not> lock (aesd_device s)" and "unat count < 2 ^ 32"
  shows "\<exists>r s'. aesd_write K s buf count = Inr (r, s') \<and> drv_inv K s' \<and> \<not> lock (aesd_device s')
    \<and> (r, dev_log s') =
        (if count = 0 then (0, dev_log s)
         else if \<not> mem_available K s count then (- ENOMEM, (dev_lines s, []))
         else if \<not> user_readable K buf count
           then (- EFAULT, (dev_lines s, dev_partial s @ fst (copy_from_user K buf count)))
         else (count, log_write (dev_log s) (take (unat count) buf)))"
proof (cases "count = 0")
  case True
  then show ?thesis using assms(2,3) by (auto simp: aesd_write_zero)
next
  case c: False
  show ?thesis
  proof (cases "mem_available K s count")
    case False
    then show ?thesis using aesd_write_nomem [OF assms(1-3) c assms(4)] c by (metis (no_types, lifting))
  next
    case m: True
    show ?thesis
    proof (cases "user_readable K buf count")
      case False
      then show ?thesis
        using aesd_write_efault [OF assms(1-3) c assms(4) m] c m by (metis (no_types, lifting))
    next
      case True
      then show ?thesis
        using aesd_write_done [OF assms(1-3) c assms(4) m] c m by (metis (no_types, lifting))
    qed
  qed
qed

theorem aesd_write_refines_line_log_witness:
  "\<exists>s'. aesd_write pool_kernel sample_driver (''c'' @ [newline]) 2 = Inr (2, s')
     \<and> dev_log s' = ([''hi'' @ [newline], ''abc'' @ [newline]], [])"
proof -
  have "mem_available pool_kernel sample_driver 2" "user_readable pool_kernel (''c'' @ [newline]) 2"
    by (simp_all add: mem_available_def user_readable_def pool_kernel_def sample_driver_def)
  then show ?thesis
    using aesd_write_refines_line_log [OF pool_kernel_ok sample_driver_inv(1,2), of 2 "''c'' @ [newline]"]
    by (auto simp: sample_driver_inv(4))
qed

text \<open>A history of writes that all report success leaves exactly the log the abstract device has
  after them; in particular, after any number of complete lines written to a freshly loaded device
  it holds the last ten of them.\<close>

theorem device_holds_last_ten_lines:
  assumes "kernel_ok K" and "list_all (\<lambda>w. length w < 2 ^ 32) ws"
    and "run_writes K fresh_driver ws = Inr (map (\<lambda>w. of_nat (length w)) ws, s')"
  shows "dev_log s' = foldl log_write ([], []) ws
    \<and> (list_all (\<lambda>w. w \<noteq> [] \<and> last w = newline) ws \<longrightarrow> dev_log s' = (keep_last 10 ws, []))"
proof -
  have "dev_log s' = foldl log_write ([], []) ws"
    using run_writes_log [OF assms(1) fresh_driver_inv(1,2) _ assms(3)] assms(2)
    by (simp add: fresh_driver_inv(4) list_all_iff)
  then show ?thesis using foldl_log_write_lines [of ws "[]"] by (simp add: list_all_iff)
qed

theorem device_holds_last_ten_lines_witness:
  "\<exists>s'. run_writes pool_kernel fresh_driver [''a'' @ [newline]] = Inr ([2], s')
     \<and> dev_log s' = ([''a'' @ [newline]], [])"
proof -
  have "mem_available pool_kernel fresh_driver 2" "user_readable pool_kernel (''a'' @ [newline]) 2"
    by (simp_all add: mem_available_def user_readable_def pool_kernel_def fresh_driver_def null_entry_def
        upt_rec)
  then obtain s' where "aesd_write pool_kernel fresh_driver (''a'' @ [newline]) 2 = Inr (2, s')"
    using aesd_write_done [OF pool_kernel_ok fresh_driver_inv(1,2), of 2 "''a'' @ [newline]"] by auto
  then show ?thesis
    using device_holds_last_ten_lines [OF pool_kernel_ok, of "[''a'' @ [newline]]" s'] by simp
qed

text \<open>C10. Every read: it returns with the device unchanged and the lock free; what it delivers is a
  prefix of the stored bytes from the file position on, at most \<open>count\<close> long and empty only at the
  end or for a zero count; on a failing user copy it returns \<^verbatim>\<open>-EFAULT\<close> and the position stays, else
  the number of bytes, by which the position moves.\<close>

theorem aesd_read_delivers_stored_bytes:
  assumes "kernel_ok K" and "drv_inv K s" and "\<not> lock (aesd_device s)"
  shows "\<exists>d m. d = take m (drop (unat f_pos) (concat (dev_lines s))) \<and> length d \<le> unat count
    \<and> (d = [] \<longleftrightarrow> count = 0 \<or> length (concat (dev_lines s)) \<le> unat f_pos)
    \<and> aesd_read K s buf count f_pos = Some (Inr (
        if d = [] then (0, f_pos, buf, s)
        else if snd (copy_to_user K buf d) \<noteq> 0 then (- EFAULT, f_pos, fst (copy_to_user K buf d), s)
        else (of_nat (length d), f_pos + of_nat (length d), d @ drop (length d) buf, s)))"
proof -
  let ?d = "log_read (dev_lines s) (unat f_pos) (unat count)"
  obtain m where m: "?d = take m (drop (unat f_pos) (concat (dev_lines s)))" "m \<le> unat count"
    using log_read_prefix by blast
  note copy = copied_to_user [OF assms(1), of buf]
  have "?d = [] \<longleftrightarrow> count = 0 \<or> length (concat (dev_lines s)) \<le> unat f_pos"
    by (simp add: log_read_empty_iff word_unat_eq_iff)
  moreover have "length ?d \<le> unat count" using m by simp
  moreover have "aesd_read K s buf count f_pos = Some (Inr (
        if ?d = [] then (0, f_pos, buf, s)
        else if snd (copy_to_user K buf ?d) \<noteq> 0 then (- EFAULT, f_pos, fst (copy_to_user K buf ?d), s)
        else (of_nat (length ?d), f_pos + of_nat (length ?d), ?d @ drop (length ?d) buf, s)))"
    using aesd_read_spec [OF assms, of buf count f_pos] copy [of ?d]
    by (cases "copy_to_user K buf ?d") (simp add: Let_def)
  ultimately show ?thesis using m(1) by blast
qed

theorem aesd_read_delivers_stored_bytes_witness:
  "aesd_read pool_kernel sample_driver [] 1 1 = Some (Inr (1, 2, ''i'', sample_driver))"
proof -
  have l: "dev_lines sample_driver = [''hi'' @ [newline]]" using sample_driver_inv(4) by (simp add: dev_log_def)
  have c: "snd (copy_to_user pool_kernel [] d) = 0" for d by (simp add: pool_kernel_def)
  obtain d m where d: "d = take m (''i'' @ [newline])" "length d \<le> 1" "d \<noteq> []"
    "aesd_read pool_kernel sample_driver [] 1 1
      = Some (Inr (of_nat (length d), 1 + of_nat (length d), d, sample_driver))"
    using aesd_read_delivers_stored_bytes [OF pool_kernel_ok sample_driver_inv(1,2), of 1 1 "[]"]
    by (auto simp: l c)
  then have "length d = 1" by (cases d) auto
  then have "d = ''i''" using d(1) by (cases m) auto
  with d(4) show ?thesis by simp
qed



text \<open>C18. The \<^verbatim>\<open>AESDCHAR_IOCSEEKTO\<close> command on a ring that has not wrapped, or for a slot before the end of
  the array: \<open>(cmd, offset)\<close> is accepted exactly when there is such a line and such a byte in it, the
  new position is that byte, and a read there continues with the rest of this line; otherwise the
  result is \<^verbatim>\<open>-EINVAL\<close> and the position stays.\<close>

theorem seekto_moves_to_byte_of_line:
  assumes "kernel_ok K" and "drv_inv K s" and "get_seekto K arg = (\<lparr>write_cmd = c, write_cmd_offset = off\<rparr>, 0)"
    and "unat (out_offs (buffer (aesd_device s))) + unat c < 10"
  shows "\<exists>pos. unlocked_ioctl K s f_pos (AESDCHAR_IOCSEEKTO K) arg = Some (Inr (
      if unat c < length (dev_lines s) \<and> unat off < length (dev_lines s ! unat c)
      then (0, pos) else (- EINVAL, f_pos)))
    \<and> (unat c < length (dev_lines s) \<and> unat off < length (dev_lines s ! unat c) \<longrightarrow>
        drop (unat pos) (concat (dev_lines s))
          = drop (unat off) (dev_lines s ! unat c) @ concat (drop (Suc (unat c)) (dev_lines s)))"
proof -
  let ?n = "length (concat (take (unat c) (dev_lines s))) + unat off"
  have tot: "sum_list (map length (dev_lines s)) < 2 ^ 36" by (rule total_size_small [OF assms(1,2)])
  have io: "unlocked_ioctl K s f_pos (AESDCHAR_IOCSEEKTO K) arg = aesd_adjust_file_offset s f_pos c off"
    using ioctl_seekto [OF assms(1)] assms(3) by simp
  show ?thesis
  proof (cases "unat c < length (dev_lines s)")
    case False
    then show ?thesis using adjust_no_entry [OF assms(2)] io by simp
  next
    case True
    have adj: "aesd_adjust_file_offset s f_pos c off = Some (Inr (
        if unat off < length (dev_lines s ! unat c) then (0, of_nat ?n) else (- EINVAL, f_pos)))"
      using tot by (intro adjust_in_array [OF assms(2) _ True assms(4)]) simp
    have "drop (unat (of_nat ?n :: loff_t)) (concat (dev_lines s))
        = drop (unat off) (dev_lines s ! unat c) @ concat (drop (Suc (unat c)) (dev_lines s))"
      if off: "unat off < length (dev_lines s ! unat c)"
    proof -
      have loc: "locate (map length (dev_lines s)) ?n = Some (unat c, unat off)"
        using True off by (simp add: locate_Some_iff length_concat take_map)
      have "?n < 2 ^ 64"
        using sum_list_take_nth_le [of "unat c" "map length (dev_lines s)"] True off tot
        by (simp add: length_concat take_map)
      then have u: "unat (of_nat ?n :: loff_t) = ?n" by (intro unat_of_nat_small) simp
      show ?thesis unfolding u by (rule locate_drop_concat [OF loc])
    qed
    then show ?thesis using io adj True by auto
  qed
qed

theorem seekto_moves_to_byte_of_line_witness:
  "\<exists>pos. unlocked_ioctl pool_kernel sample_driver 7 (AESDCHAR_IOCSEEKTO pool_kernel) 1 = Some (Inr (0, pos))
     \<and> drop (unat pos) (''hi'' @ [newline]) = ''i'' @ [newline]"
proof -
  have l: "dev_lines sample_driver = [''hi'' @ [newline]]" using sample_driver_inv(4) by (simp add: dev_log_def)
  have "get_seekto pool_kernel 1 = (\<lparr>write_cmd = 0, write_cmd_offset = 1\<rparr>, 0)"
    by (simp add: pool_kernel_def)
  then show ?thesis
    using seekto_moves_to_byte_of_line [OF pool_kernel_ok sample_driver_inv(1), of 1 0 1 7]
    by (simp add: l) (simp add: sample_driver_def)
qed

text \<open>C26. Once the ring has wrapped, the same command for the newest line, although this line is stored,
  reads the entry array beyond its end: the slot index is not reduced modulo ten.\<close>

theorem seekto_leaves_array_after_wrap:
  assumes "drv_inv K s" and "0 < out_offs (buffer (aesd_device s))"
  shows "length (dev_lines s) = 10
    \<and> aesd_adjust_file_offset s f_pos 9 off = Some (Inl Out_of_bounds)"
proof -
  let ?b = "buffer (aesd_device s)"
  have cb: "cb_inv ?b" by (rule drv_invD(1) [OF assms(1)])
  have o: "0 < unat (out_offs ?b)" using assms(2) by (simp add: word_less_nat_alt)
  then have "full ?b" using cb by (auto simp: cb_inv_def split: if_splits)
  then have l: "length (dev_lines s) = 10"
    using length_cb_list [OF cb] unat_get_count [OF cb] by (simp add: dev_lines_simps)
  then have "aesd_adjust_file_offset s f_pos 9 off = Some (Inl Out_of_bounds)"
    using o by (intro adjust_beyond_array [OF assms(1)]) auto
  with l show ?thesis by blast
qed

definition wrapped_driver :: driver where
  "wrapped_driver = fresh_driver\<lparr>
     aesd_device := (aesd_device fresh_driver)\<lparr>buffer :=
       \<lparr>entry = map (\<lambda>i. \<lparr>buffptr = Ptr i, entry_size = 1\<rparr>) [0..<10],
        in_offs = 1, out_offs = 1, full = True\<rparr>\<rparr>,
     heap := (\<lambda>a. if a < 10 then Some [newline] else None)\<rparr>"

lemma wrapped_driver_inv: "drv_inv pool_kernel wrapped_driver"
proof -
  have cb: "cb_inv (buffer (aesd_device wrapped_driver))"
    by (simp add: wrapped_driver_def cb_inv_def cb_shape_def)
  have "ring_of wrapped_driver = rotate 1 (map (\<lambda>i. \<lparr>buffptr = Ptr i, entry_size = 1\<rparr>) [0..<10])"
    using cb_list_full [OF cb] by (simp add: wrapped_driver_def)
  moreover have "rotate 1 [0..<10] = [1..<10] @ [0]" by code_simp
  ultimately have r: "ring_of wrapped_driver = map (\<lambda>i. \<lparr>buffptr = Ptr i, entry_size = 1\<rparr>) ([1..<10] @ [0])"
    by (simp only: rotate_map)
  have "entry_addrs (map (\<lambda>i. \<lparr>buffptr = Ptr i, entry_size = 1\<rparr>) is) = is" for "is"
    by (induction "is") (auto simp: entry_addrs_def)
  then have d: "distinct (entry_addrs (ring_of wrapped_driver))" unfolding r by simp
  have cur: "buffptr (cur_of wrapped_driver) = NULL"
    and h: "heap wrapped_driver = (\<lambda>a. if a < 10 then Some [newline] else None)"
    and m: "kmalloc_max pool_kernel = 4194304"
    by (simp_all add: wrapped_driver_def fresh_driver_def null_entry_def pool_kernel_def)
  have "list_all (line_ok pool_kernel (heap wrapped_driver)) (ring_of wrapped_driver)"
    unfolding r by (auto simp: list_all_iff line_ok_def block_ok_def entry_bytes_def h m)
  with cb d cur show ?thesis by (simp add: drv_inv_def drv_addrs_def)
qed

theorem seekto_leaves_array_after_wrap_witness:
  "aesd_adjust_file_offset wrapped_driver 0 9 0 = Some (Inl Out_of_bounds)"
  using seekto_leaves_array_after_wrap [OF wrapped_driver_inv, of 0 0] by (simp add: wrapped_driver_def)

text \<open>Lock discipline: whatever the device contains and the kernel answers, a read or write that
  returns has released the lock, and one that starts while the lock is held does not get past it.\<close>

theorem lock_released_on_every_path:
  "(aesd_write K s buf count = Inr (r, s') \<longrightarrow> \<not> lock (aesd_device s'))
   \<and> (aesd_read K s buf count f_pos = Some (Inr (r, pos, buf', s')) \<longrightarrow> \<not> lock (aesd_device s'))
   \<and> (lock (aesd_device s) \<longrightarrow> aesd_write K s buf count = Inl Self_deadlock
        \<and> aesd_read K s buf count f_pos = Some (Inl Self_deadlock))"
proof -
  have "aesd_write K s buf count = Inr (r, s') \<Longrightarrow> \<not> lock (aesd_device s')"
    by (auto simp: aesd_write_def bind_fault_eq_Inr Let_def split_beta split: if_splits)
  moreover have "aesd_read K s buf count f_pos = Some (Inr (r, pos, buf', s')) \<Longrightarrow> \<not> lock (aesd_device s')"
    by (auto simp: aesd_read_def bind_fault_eq_Inr split_beta split: sum.splits)
  moreover have "lock (aesd_device s) \<Longrightarrow> aesd_write K s buf count = Inl Self_deadlock
        \<and> aesd_read K s buf count f_pos = Some (Inl Self_deadlock)"
    by (simp add: aesd_write_def aesd_read_def mutex_lock_def)
  ultimately show ?thesis by blast
qed

theorem lock_released_on_every_path_witness:
  "\<exists>s'. aesd_write pool_kernel fresh_driver [] 0 = Inr (0, s') \<and> \<not> lock (aesd_device s')"
  using lock_released_on_every_path [of pool_kernel fresh_driver "[]" 0 0 fresh_driver]
    aesd_write_zero [OF fresh_driver_inv(2)] by blast

text \<open>Loading the module: if the device numbers cannot be reserved or the device cannot be added, the
  error is returned and no region is left reserved; otherwise the result is 0 and the device is
  registered, unlocked and empty, whatever the memory contained before.\<close>

theorem init_module_all_or_nothing:
  assumes "aesd_init_module env s = (r, s')"
  shows "if region_result env < 0 then r = region_result env \<and> \<not> region s'
    else if cdev_add_result env \<noteq> 0 then r = cdev_add_result env \<and> \<not> region s' \<and> \<not> cdev (aesd_device s')
    else r = 0 \<and> region s' \<and> cdev (aesd_device s') \<and> \<not> lock (aesd_device s')
      \<and> drv_inv K s' \<and> dev_log s' = ([], [])"
  using assms
  by (auto simp: aesd_init_module_def aesd_setup_cdev_def Let_def drv_inv_def cb_inv_init cb_list_init
      drv_addrs_def null_entry_def dev_log_def dev_lines_def dev_partial_def entry_bytes_def
      split: if_splits)

theorem init_module_all_or_nothing_witness:
  "\<exists>s'. aesd_init_module \<lparr>region_result = 0, region_dev = 5, MAJOR = (\<lambda>d. d), cdev_add_result = 0\<rparr> sample_driver
      = (0, s') \<and> dev_log s' = ([], [])"
proof -
  let ?env = "\<lparr>region_result = 0, region_dev = 5, MAJOR = (\<lambda>d. d), cdev_add_result = 0\<rparr> :: chrdev_env"
  obtain r s' where i: "aesd_init_module ?env sample_driver = (r, s')" by fastforce
  show ?thesis using init_module_all_or_nothing [OF i, of pool_kernel] i by simp
qed

text \<open>C20. Unloading the module frees exactly the blocks the device owns, each once and without a fault;
  if nothing was leaked before, no block remains.  The device and its numbers are released.\<close>

theorem cleanup_module_frees_everything:
  assumes "kernel_ok K" and "drv_inv K s"
  shows "\<exists>s'. aesd_cleanup_module K s = Inr s' \<and> heap s' = heap s |` (- set (drv_addrs s))
    \<and> (heap_exact s \<longrightarrow> heap s' = Map.empty) \<and> \<not> region s' \<and> \<not> cdev (aesd_device s')"
proof -
  obtain s' where s': "aesd_cleanup_module K s = Inr s'" "heap s' = heap s |` (- set (drv_addrs s))"
    "\<not> region s'" "\<not> cdev (aesd_device s')"
    using assms by (rule cleanup_frees_blocks)
  moreover have "heap s' = Map.empty" if "heap_exact s"
    using that unfolding s'(2) heap_exact_def by (auto simp: restrict_map_def fun_eq_iff)
  ultimately show ?thesis by blast
qed

theorem cleanup_module_frees_everything_witness:
  "\<exists>s'. aesd_cleanup_module pool_kernel sample_driver = Inr s' \<and> heap s' = Map.empty"
  using cleanup_module_frees_everything [OF pool_kernel_ok sample_driver_inv(1)] sample_driver_inv(3) by blast

text \<open>C27. Where blocks can be lost: a write never leaks while its allocation succeeds, but when growing
  the line under construction fails, the pointer to it is overwritten by NULL: the stored bytes are
  dropped and the block stays allocated without an owner.\<close>

theorem write_leaks_only_on_failed_realloc:
  assumes "kernel_ok K" and "drv_inv K s" and "\<not> lock (aesd_device s)" and "unat count < 2 ^ 32"
    and "heap_exact s" and "aesd_write K s buf count = Inr (r, s')"
  shows "heap_exact s' \<longleftrightarrow> count = 0 \<or> mem_available K s count \<or> buffptr (cur_of s) = NULL"
proof (cases "count = 0")
  case True
  then show ?thesis using assms(3,5,6) by (simp add: aesd_write_zero)
next
  case c: False
  show ?thesis
  proof (cases "mem_available K s count")
    case True
    then have "heap_exact s'"
      using aesd_write_efault [OF assms(1-3) c assms(4) True] aesd_write_done [OF assms(1-3) c assms(4) True]
        assms(5,6) by (metis Inr_inject Pair_inject)
    with True show ?thesis by simp
  next
    case False
    obtain s1 where s1: "aesd_write K s buf count = Inr (- ENOMEM, s1)" "heap s1 = heap s"
      "buffptr (cur_of s1) = NULL" "ring_of s1 = ring_of s"
      using aesd_write_nomem [OF assms(1-3) c assms(4) False] by metis
    have s': "s' = s1" using s1(1) assms(6) by simp
    have "set (drv_addrs s1) = set (entry_addrs (ring_of s))" using s1(3,4) by (simp add: drv_addrs_def)
    moreover have "dom (heap s1) = set (entry_addrs (ring_of s)) \<union> set (ptr_addrs (buffptr (cur_of s)))"
      using assms(5) s1(2) by (simp add: heap_exact_def drv_addrs_def)
    moreover have "set (ptr_addrs (buffptr (cur_of s))) = {} \<longleftrightarrow> buffptr (cur_of s) = NULL"
      by (cases "buffptr (cur_of s)") auto
    moreover have "set (entry_addrs (ring_of s)) \<union> A = set (entry_addrs (ring_of s)) \<longleftrightarrow> A = {}"
      if "set (entry_addrs (ring_of s)) \<inter> A = {}" for A using that by blast
    ultimately show ?thesis
      using drv_invD(5) [OF assms(2)] False c s' by (simp add: heap_exact_def)
  qed
qed

text \<open>A kernel whose reallocation always fails.\<close>

definition stingy_kernel :: kernel where
  "stingy_kernel = pool_kernel\<lparr>krealloc := (\<lambda>h a n. (h, NULL))\<rparr>"

lemma stingy_kernel_ok: "kernel_ok stingy_kernel"
  using pool_kernel_ok
  by (simp add: kernel_ok_def stingy_kernel_def kmalloc_ok_def krealloc_ok_def kfree_ok_def
      copy_from_user_ok_def copy_to_user_ok_def fixed_size_llseek_ok_def ioc_ok_def cong: ptr.case_cong)

theorem write_leaks_only_on_failed_realloc_witness:
  "\<exists>r s'. aesd_write stingy_kernel sample_driver (''c'' @ [newline]) 2 = Inr (r, s') \<and> \<not> heap_exact s'"
proof -
  have "kmalloc_max stingy_kernel = kmalloc_max pool_kernel"
    by (simp add: stingy_kernel_def)
  then have "block_ok stingy_kernel = block_ok pool_kernel"
    by (simp add: fun_eq_iff block_ok_iff)
  then have inv: "drv_inv stingy_kernel sample_driver"
    using sample_driver_inv(1) by (simp add: drv_inv_def line_ok_def [abs_def])
  have m: "\<not> mem_available stingy_kernel sample_driver 2" "buffptr (cur_of sample_driver) \<noteq> NULL"
    by (simp_all add: mem_available_def stingy_kernel_def sample_driver_def)
  obtain s' where "aesd_write stingy_kernel sample_driver (''c'' @ [newline]) 2 = Inr (- ENOMEM, s')"
    using aesd_write_nomem [OF stingy_kernel_ok inv sample_driver_inv(2) _ _ m(1)] by auto
  then show ?thesis
    using write_leaks_only_on_failed_realloc [OF stingy_kernel_ok inv sample_driver_inv(2), of 2] m
      sample_driver_inv(3) by fastforce
qed

end
