(* ===== verification/Driver_Runs.thy ===== *)
theory Driver_Runs
  imports Char_Driver
begin

text \<open>
  The character device over all histories: \<open>driver_reach\<close> are the states that a successful load followed by any
  sequence of file operations can lead to, and the theorems are the invariants of these states.  One holds
  whatever the kernel does (the ring keeps its shape), the other under the contracts of the kernel (the
  whole invariant, and no operation faults or hangs but the seek command past the array).
\<close>

section \<open>Histories\<close>

datatype file_op =
    Op_open
  | Op_release
  | Op_read string size_t loff_t
  | Op_write string size_t
  | Op_llseek loff_t loff_t int
  | Op_ioctl loff_t u32 size_t

text \<open>The effect of an operation of \<^verbatim>\<open>aesd_fops\<close> on the driver.\<close>

fun apply_op :: "kernel \<Rightarrow> driver \<Rightarrow> file_op \<Rightarrow> driver run" where
  "apply_op K s Op_open = ret (snd (aesd_open s))"
| "apply_op K s Op_release = ret (snd (aesd_release s))"
| "apply_op K s (Op_read buf count f_pos) =
     run_bind (aesd_read K s buf count f_pos) (\<lambda>(r, pos, buf', s'). ret s')"
| "apply_op K s (Op_write buf count) = run_bind (Some (aesd_write K s buf count)) (\<lambda>(r, s'). ret s')"
| "apply_op K s (Op_llseek f_pos offset whence) = run_bind (llseek K s f_pos offset whence) (\<lambda>_. ret s)"
| "apply_op K s (Op_ioctl f_pos cmd arg) = run_bind (unlocked_ioctl K s f_pos cmd arg) (\<lambda>_. ret s)"

text \<open>The kernel limits the size of a transfer to less than \<open>2 ^ 31\<close> bytes.\<close>

fun op_ok :: "file_op \<Rightarrow> bool" where
  "op_ok (Op_write buf count) = (unat count < 2 ^ 32)"
| "op_ok _ = True"

inductive driver_reach :: "kernel \<Rightarrow> driver \<Rightarrow> bool" for K where
  loaded: "aesd_init_module env s0 = (0, s) \<Longrightarrow> \<not> region_result env < 0 \<Longrightarrow> driver_reach K s"
| operated: "driver_reach K s \<Longrightarrow> op_ok op \<Longrightarrow> apply_op K s op = ret s' \<Longrightarrow> driver_reach K s'"

section \<open>The shape of the ring\<close>

lemma next_offs_less: "unat i < 10 \<Longrightarrow> unat (next_offs i) < 10"
  by (simp add: unat_next_offs)

lemma add_entry_shape:
  "cb_shape b \<Longrightarrow> aesd_circular_buffer_add_entry b e = Inr b' \<Longrightarrow> cb_shape b'"
  by (auto simp: aesd_circular_buffer_add_entry_def cb_shape_def Let_def next_offs_less split: if_splits)

abbreviation shape_of :: "driver \<Rightarrow> bool" where
  "shape_of s \<equiv> cb_shape (buffer (aesd_device s))"

lemma write_evict_shape: "write_evict K s = Inr s' \<Longrightarrow> shape_of s \<Longrightarrow> shape_of s'"
  by (auto simp: write_evict_def Let_def cb_shape_def bind_fault_eq_Inr split: if_splits)

lemma write_commit_shape: "write_commit K s p n = Inr s' \<Longrightarrow> shape_of s \<Longrightarrow> shape_of s'"
proof -
  assume w: "write_commit K s p n = Inr s'" and s: "shape_of s"
  show "shape_of s'"
  proof (cases "s' = s")
    case False
    then obtain s1 b where b: "write_evict K s = Inr s1" "aesd_circular_buffer_add_entry (buffer (aesd_device s1)) (cur_of s1) = Inr b"
      "buffer (aesd_device s') = b"
      using w by (auto simp: write_commit_def bind_fault_eq_Inr split: if_splits)
    then show ?thesis using write_evict_shape [OF b(1) s] add_entry_shape by blast
  qed (simp add: s)
qed

lemma write_reserve_buffer: "write_reserve K s n = Inr (p, s') \<Longrightarrow> buffer (aesd_device s') = buffer (aesd_device s)"
  by (auto simp: write_reserve_def Let_def split: ptr.splits if_splits prod.splits)

lemma aesd_write_shape:
  assumes "aesd_write K s buf count = Inr (r, s')" and "shape_of s"
  shows "shape_of s'"
  using assms
  by (auto simp: aesd_write_def mutex_lock_def mutex_unlock_def bind_fault_eq_Inr Let_def
      split: if_splits prod.splits dest!: write_reserve_buffer write_commit_shape)

lemma aesd_read_shape:
  assumes "aesd_read K s buf count f_pos = Some (Inr (r, pos, buf', s'))" and "shape_of s"
  shows "shape_of s'"
  using assms by (auto simp: aesd_read_def mutex_lock_def mutex_unlock_def bind_fault_eq_Inr split: if_splits)

lemma apply_op_shape:
  assumes "apply_op K s op = ret s'" and "shape_of s"
  shows "shape_of s'"
proof (cases op)
  case (Op_read buf count f_pos)
  then obtain r pos buf' where "aesd_read K s buf count f_pos = ret (r, pos, buf', s')"
    using assms(1) by (auto simp: run_bind_eq_ret)
  then show ?thesis using aesd_read_shape assms(2) by (simp add: ret_def)
next
  case (Op_write buf count)
  then obtain r where "Some (aesd_write K s buf count) = ret (r, s')"
    using assms(1) by (auto simp: run_bind_eq_ret)
  then show ?thesis using aesd_write_shape assms(2) by (simp add: ret_def)
qed (use assms in \<open>auto simp: aesd_open_def aesd_release_def run_bind_eq_ret\<close>)

section \<open>The whole invariant\<close>

lemma init_inv:
  assumes "aesd_init_module env s0 = (0, s)" and "\<not> region_result env < 0"
  shows "drv_inv K s" and "\<not> lock (aesd_device s)"
  using assms
  by (auto simp: aesd_init_module_def aesd_setup_cdev_def Let_def drv_inv_def cb_inv_init cb_list_init
      drv_addrs_def null_entry_def split: if_splits)

lemma aesd_write_total:
  assumes "kernel_ok K" and "drv_inv K s" and "\<not> lock (aesd_device s)" and "unat count < 2 ^ 32"
  shows "\<exists>r s'. aesd_write K s buf count = Inr (r, s') \<and> drv_inv K s' \<and> \<not> lock (aesd_device s')"
proof (cases "count = 0")
  case True
  then show ?thesis using assms by (auto simp: aesd_write_zero)
next
  case c: False
  show ?thesis
    using aesd_write_nomem [OF assms(1-3) c assms(4)] aesd_write_efault [OF assms(1-3) c assms(4)]
      aesd_write_done [OF assms(1-3) c assms(4)] by metis
qed

lemma ioctl_total:
  assumes "kernel_ok K" and "drv_inv K s"
  shows "(\<exists>r. unlocked_ioctl K s f_pos cmd arg = ret r) \<or> unlocked_ioctl K s f_pos cmd arg = Some (Inl Out_of_bounds)"
proof -
  have small: "sum_list (map length (dev_lines s)) < 2 ^ 64" using total_size_small [OF assms] by simp
  have "(\<exists>r. aesd_adjust_file_offset s f_pos c off = ret r)
      \<or> aesd_adjust_file_offset s f_pos c off = Some (Inl Out_of_bounds)" for c off
  proof (cases "length (dev_lines s) \<le> unat c")
    case True
    then show ?thesis using adjust_no_entry [OF assms(2) True] by (simp add: ret_def)
  next
    case False
    then show ?thesis
      using adjust_in_array [OF assms(2) small] adjust_beyond_array [OF assms(2)]
      by (cases "unat (out_offs (buffer (aesd_device s))) + unat c < 10") (auto simp: ret_def)
  qed
  then show ?thesis by (auto simp: unlocked_ioctl_def ret_def split: prod.splits)
qed

lemma apply_op_total:
  assumes K: "kernel_ok K" and inv: "drv_inv K s" and ul: "\<not> lock (aesd_device s)" and ok: "op_ok op"
  shows "(\<exists>s'. apply_op K s op = ret s' \<and> drv_inv K s' \<and> \<not> lock (aesd_device s'))
    \<or> (\<exists>p c a. op = Op_ioctl p c a) \<and> apply_op K s op = Some (Inl Out_of_bounds)"
proof (cases op)
  case (Op_read buf count f_pos)
  have "\<exists>r pos buf'. aesd_read K s buf count f_pos = Some (Inr (r, pos, buf', s))"
    unfolding aesd_read_spec [OF K inv ul] by (auto simp: Let_def split: prod.splits)
  then show ?thesis using Op_read inv ul by auto
next
  case (Op_write buf count)
  then show ?thesis using aesd_write_total [OF K inv ul, of count buf] ok by auto
next
  case (Op_llseek f_pos offset whence)
  then show ?thesis using llseek_at [OF K inv, of f_pos offset whence] inv ul by auto
next
  case (Op_ioctl f_pos cmd arg)
  then show ?thesis using ioctl_total [OF K inv, of f_pos cmd arg] inv ul by auto
qed (use inv ul in \<open>auto simp: aesd_open_def aesd_release_def\<close>)

lemma driver_reach_inv: "driver_reach K s \<Longrightarrow> kernel_ok K \<Longrightarrow> drv_inv K s \<and> \<not> lock (aesd_device s)"
proof (induction rule: driver_reach.induct)
  case (loaded env s0 s)
  then show ?case using init_inv by blast
next
  case (operated s op s')
  then show ?case using apply_op_total [of K s op] by (auto simp: ret_def)
qed

section \<open>Properties\<close>

text \<open>C36. Well-typed ring, whatever the kernel does: in every state the driver can reach the array has its ten
  slots and both offsets point into it, and each operation that returns keeps it so.\<close>

theorem ring_shape_in_every_state:
  assumes "driver_reach K s"
  shows "length (entry (buffer (aesd_device s))) = 10 \<and> unat (in_offs (buffer (aesd_device s))) < 10
    \<and> unat (out_offs (buffer (aesd_device s))) < 10"
proof -
  have "shape_of s"
    using assms
  proof (induction rule: driver_reach.induct)
    case (loaded env s0 s)
    then show ?case
      using cb_inv_shape [OF cb_inv_init]
      by (auto simp: aesd_init_module_def aesd_setup_cdev_def Let_def split: if_splits)
  next
    case (operated s op s')
    then show ?case using apply_op_shape by blast
  qed
  then show ?thesis by (simp add: cb_shape_def)
qed

theorem ring_shape_in_every_state_witness:
  "\<exists>s. driver_reach stingy_kernel s \<and> length (entry (buffer (aesd_device s))) = 10"
proof -
  let ?env = "\<lparr>region_result = 0, region_dev = 5, MAJOR = (\<lambda>d. d), cdev_add_result = 0\<rparr> :: chrdev_env"
  obtain s where s: "aesd_init_module ?env sample_driver = (0, s)"
    by (simp add: aesd_init_module_def aesd_setup_cdev_def Let_def)
  then have "driver_reach stingy_kernel s" by (rule loaded) simp
  then show ?thesis using ring_shape_in_every_state by blast
qed

text \<open>C7. The invariant of the driver over all histories of operations: in every reachable state each block has
  one owner and holds what its entry says, at most ten lines are stored, each ends in its newline, and the
  lock is free; every next operation returns to such a state, except that a seek command may leave
  the array.\<close>

theorem driver_invariant_in_every_state:
  assumes "kernel_ok K" and "driver_reach K s" and "op_ok op"
  shows "drv_inv K s \<and> \<not> lock (aesd_device s) \<and> length (dev_lines s) \<le> 10
    \<and> (\<forall>l \<in> set (dev_lines s). l \<noteq> [] \<and> last l = newline)
    \<and> ((\<exists>s'. apply_op K s op = ret s' \<and> driver_reach K s')
       \<or> (\<exists>p c a. op = Op_ioctl p c a) \<and> apply_op K s op = Some (Inl Out_of_bounds))"
proof -
  have inv: "drv_inv K s" "\<not> lock (aesd_device s)" using driver_reach_inv [OF assms(2,1)] by auto
  have "\<forall>l \<in> set (dev_lines s). l \<noteq> [] \<and> last l = newline"
    using drv_invD(2) [OF inv(1)]
    by (auto simp: dev_lines_def list_all_iff line_ok_def block_ok_def split: option.splits)
  moreover have "length (dev_lines s) \<le> 10"
    using length_cb_list_le [of "buffer (aesd_device s)"] by (simp add: dev_lines_def)
  ultimately show ?thesis
    using apply_op_total [OF assms(1) inv assms(3)] operated [OF assms(2,3)] inv by blast
qed

theorem driver_invariant_in_every_state_witness:
  "\<exists>s s'. driver_reach pool_kernel s \<and> apply_op pool_kernel s (Op_write ''a'' 1) = ret s' \<and> driver_reach pool_kernel s'"
proof -
  let ?env = "\<lparr>region_result = 0, region_dev = 5, MAJOR = (\<lambda>d. d), cdev_add_result = 0\<rparr> :: chrdev_env"
  obtain s where "aesd_init_module ?env sample_driver = (0, s)"
    by (simp add: aesd_init_module_def aesd_setup_cdev_def Let_def)
  then have s: "driver_reach pool_kernel s" by (rule loaded) simp
  then show ?thesis
    using driver_invariant_in_every_state [OF pool_kernel_ok s, of "Op_write ''a'' 1"] by auto
qed

text \<open>\<^verbatim>\<open>llseek\<close> and the seek command do not take the device mutex, so they can run in the middle of a write that
  ends a line, after the oldest of ten lines was evicted and before the new one is in the ring.  There they see
  a state that no sequence of complete operations shows: the size is that of nine lines, and a seek command to
  the first line fails although ten lines are stored before and after the write.\<close>

theorem unlocked_seek_sees_half_write:
  assumes K: "kernel_ok K" and inv: "drv_inv K s" and ten: "length (dev_lines s) = 10" and ev: "write_evict K s = Inr s1"
    and "get_seekto K arg = (\<lparr>write_cmd = 0, write_cmd_offset = off\<rparr>, 0)" and "unat off < length (hd (dev_lines s))"
  shows "llseek K s f_pos offset whence = Some (Inr (fixed_size_llseek K f_pos offset whence
        (of_nat (length (concat (dev_lines s))))))
    \<and> llseek K s1 f_pos offset whence = Some (Inr (fixed_size_llseek K f_pos offset whence
        (of_nat (length (concat (tl (dev_lines s)))))))
    \<and> length (concat (tl (dev_lines s))) < length (concat (dev_lines s))
    \<and> unlocked_ioctl K s f_pos (AESDCHAR_IOCSEEKTO K) arg = Some (Inr (0, ucast off))
    \<and> unlocked_ioctl K s1 f_pos (AESDCHAR_IOCSEEKTO K) arg = Some (Inr (- EINVAL, f_pos))"
proof -
  have l: "length (ring_of s) = 10" using ten by (simp add: dev_lines_simps)
  obtain a where e: "write_evict K s = Inr (s\<lparr>heap := (heap s)(a := None), aesd_device := (aesd_device s)\<lparr>buffer := evicted s\<rparr>\<rparr>)"
    "cb_inv (evicted s)" "full (evicted s)" "cb_list (evicted s) = null_entry # tl (ring_of s)"
    by (rule evict_full [OF K inv l])
  then have s1: "buffer (aesd_device s1) = evicted s" using ev by simp
  have ne: "dev_lines s \<noteq> []" using ten by auto
  have sz: "sum_list (sizes (cb_list (evicted s))) = length (concat (tl (dev_lines s)))"
    using arg_cong [OF sizes_dev_lines [OF drv_invD(2) [OF inv]], of tl]
    by (simp add: e(4) null_entry_def length_concat map_tl)
  have 1: "length (concat (tl (dev_lines s))) < length (concat (dev_lines s))"
    using ne assms(6) by (cases "dev_lines s") auto
  have small: "sum_list (map length (dev_lines s)) < 2 ^ 64" using total_size_small [OF K inv] by simp
  have out: "unat (out_offs (buffer (aesd_device s))) < 10"
    using cb_shapeD(3) [OF cb_inv_shape [OF drv_invD(1) [OF inv]]] .
  have 2: "aesd_adjust_file_offset s f_pos 0 off = Some (Inr (0, ucast off))"
    using adjust_in_array [OF inv small, of 0 f_pos off] ne out assms(6) by (simp add: hd_conv_nth)
  have o1: "unat (out_offs (evicted s)) < 10" and len1: "length (entry (evicted s)) = 10"
    using cb_shapeD [OF cb_inv_shape [OF e(2)]] by auto
  have "entry (evicted s) ! unat (out_offs (evicted s)) = null_entry"
    using cb_list_nth [of 0 "evicted s"] o1 e(4) by (simp add: ring_slot_def)
  moreover have "aesd_circular_buffer_get_count (evicted s) = 10"
    using e(3) by (simp add: aesd_circular_buffer_get_count_def)
  ultimately have 3: "aesd_adjust_file_offset s1 f_pos 0 off = Some (Inr (- EINVAL, f_pos))"
    using o1 len1 by (simp add: aesd_adjust_file_offset_def s1 null_entry_def)
  show ?thesis
    using 1 2 3 get_size_total(1) [OF K inv] get_size_eq [OF e(2)] sz ioctl_seekto [OF K] assms(5)
    by (simp add: llseek_def s1)
qed

theorem unlocked_seek_sees_half_write_witness:
  "\<exists>s1. write_evict pool_kernel wrapped_driver = Inr s1
     \<and> unlocked_ioctl pool_kernel wrapped_driver 7 (AESDCHAR_IOCSEEKTO pool_kernel) 0 = Some (Inr (0, 0))
     \<and> unlocked_ioctl pool_kernel s1 7 (AESDCHAR_IOCSEEKTO pool_kernel) 0 = Some (Inr (- EINVAL, 7))"
proof -
  have l: "length (ring_of wrapped_driver) = 10" "length (dev_lines wrapped_driver) = 10"
    using length_cb_list [OF drv_invD(1) [OF wrapped_driver_inv]]
    by (simp_all add: dev_lines_simps wrapped_driver_def aesd_circular_buffer_get_count_def)
  obtain s1 where s1: "write_evict pool_kernel wrapped_driver = Inr s1"
    using evict_full [OF pool_kernel_ok wrapped_driver_inv l(1)] by metis
  have "hd (dev_lines wrapped_driver) \<noteq> []"
    using drv_invD(2) [OF wrapped_driver_inv] l(1)
    by (cases "ring_of wrapped_driver") (auto simp: dev_lines_def line_ok_def block_ok_iff entry_bytes_def)
  then show ?thesis
    using unlocked_seek_sees_half_write [OF pool_kernel_ok wrapped_driver_inv l(2) s1, of 0 0 7 0 0] s1
    by (simp add: pool_kernel_def)
qed

end
