(* ===== verification/Driver_Concurrency.thy ===== *)
theory Driver_Concurrency
  imports Driver_Runs
begin

text \<open>
  The character device under concurrent system calls.  Each process has an open file with its own position;
  a call takes the device mutex, works in steps between which other processes run, and gives the mutex back.
  \<^verbatim>\<open>llseek\<close> and the \<^verbatim>\<open>ioctl\<close> run without the mutex, each as one step.  Between the steps of a write the device is as
  another process can find it: the new bytes in the entry, the oldest line evicted, the new line in its slot, \<^verbatim>\<open>in_offs\<close> moved.
  That a seek, which runs without the mutex, reads several fields and could itself be interrupted between them is left out.
  The theorems relate the interleaved calls to the operations of \<open>Char_Driver\<close> run one after the other, and show that no call waits for ever.
\<close>

section \<open>The operations in steps\<close>

text \<open>\<^verbatim>\<open>aesd_read\<close> with the mutex held; \<^verbatim>\<open>aesd_write\<close> up to the test for the newline, the test with the eviction of
  the oldest entry, and the move of the new entry to the ring.  An early return gives \<open>Inl\<close> the result.\<close>

definition read_locked ::
  "kernel \<Rightarrow> driver \<Rightarrow> string \<Rightarrow> size_t \<Rightarrow> loff_t \<Rightarrow> (ssize_t \<times> loff_t \<times> string) run"
where
  "read_locked K s buf count f_pos =
     run_bind (aesd_circular_buffer_find_entry_offset_for_fpos (buffer (aesd_device s)) f_pos) (\<lambda>found.
       Some (read_entry K s buf count f_pos found))"

definition write_fill ::
  "kernel \<Rightarrow> driver \<Rightarrow> string \<Rightarrow> size_t \<Rightarrow> fault + ssize_t \<times> driver + size_t \<times> driver"
where
  "write_fill K s buf count =
     (if count = 0 then Inr (Inl (0, mutex_unlock s))
      else bind_fault (write_reserve K s count) (\<lambda>(insert_pos, s).
        if buffptr (current_entry (aesd_device s)) = NULL then Inr (Inl (- ENOMEM, mutex_unlock s))
        else
          let (bs, left) = copy_from_user K buf count in
          bind_fault (store_bytes (heap s) (buffptr (current_entry (aesd_device s))) (unat insert_pos) bs) (\<lambda>h.
            let s = s\<lparr>heap := h\<rparr> in
            if left \<noteq> 0 then Inr (Inl (- EFAULT, mutex_unlock s)) else Inr (Inr (insert_pos, s)))))"

definition write_check :: "kernel \<Rightarrow> driver \<Rightarrow> size_t \<Rightarrow> size_t \<Rightarrow> fault + ssize_t \<times> driver + driver" where
  "write_check K s insert_pos count =
     bind_fault (load_bytes (heap s) (buffptr (current_entry (aesd_device s))) (unat (insert_pos + count - 1)) 1) (\<lambda>c.
       if c = [newline] then bind_fault (write_evict K s) (\<lambda>s1. Inr (Inr s1))
       else Inr (Inl (count, mutex_unlock s)))"

text \<open>The move of the entry to the ring, one assignment of \<^verbatim>\<open>aesd_circular_buffer_add_entry\<close> after the other: the slot,
  \<^verbatim>\<open>in_offs\<close>, and \<^verbatim>\<open>full\<close> or \<^verbatim>\<open>out_offs\<close> according to the number of entries before; then the reset of the entry and the
  return.\<close>

definition write_store :: "driver \<Rightarrow> fault + driver" where
  "write_store s =
     (let b = buffer (aesd_device s) in
      if unat (in_offs b) < length (entry b)
      then Inr (s\<lparr>aesd_device := (aesd_device s)\<lparr>buffer :=
        b\<lparr>entry := (entry b)[unat (in_offs b) := current_entry (aesd_device s)]\<rparr>\<rparr>\<rparr>)
      else Inl Out_of_bounds)"

definition write_advance :: "driver \<Rightarrow> driver" where
  "write_advance s =
     (let b = buffer (aesd_device s) in
      s\<lparr>aesd_device := (aesd_device s)\<lparr>buffer := b\<lparr>in_offs := next_offs (in_offs b)\<rparr>\<rparr>\<rparr>)"

definition write_finish :: "driver \<Rightarrow> u32 \<Rightarrow> size_t \<Rightarrow> ssize_t \<times> driver" where
  "write_finish s entry_count count =
     (let b = buffer (aesd_device s);
          b = (if entry_count < of_nat MAXW
               then (if entry_count + 1 = of_nat MAXW then b\<lparr>full := True\<rparr> else b)
               else b\<lparr>out_offs := in_offs b\<rparr>)
      in (count, mutex_unlock (s\<lparr>aesd_device := (aesd_device s)\<lparr>buffer := b, current_entry := null_entry\<rparr>\<rparr>)))"

definition write_add :: "driver \<Rightarrow> size_t \<Rightarrow> fault + ssize_t \<times> driver" where
  "write_add s count =
     (let entry_count = aesd_circular_buffer_get_count (buffer (aesd_device s)) in
      bind_fault (write_store s) (\<lambda>s. Inr (write_finish (write_advance s) entry_count count)))"

lemma write_add_eq:
  "write_add s count =
     bind_fault (aesd_circular_buffer_add_entry (buffer (aesd_device s)) (current_entry (aesd_device s))) (\<lambda>b.
       Inr (count, mutex_unlock (s\<lparr>aesd_device := (aesd_device s)\<lparr>buffer := b, current_entry := null_entry\<rparr>\<rparr>)))"
  by (simp add: write_add_def write_store_def write_advance_def write_finish_def aesd_circular_buffer_add_entry_def Let_def)

text \<open>Put together they are the operations.\<close>

lemma aesd_read_steps:
  "aesd_read K s buf count f_pos =
     run_bind (Some (mutex_lock s)) (\<lambda>s1. run_bind (read_locked K s1 buf count f_pos) (\<lambda>(r, pos, buf').
       ret (r, pos, buf', mutex_unlock s1)))"
  by (cases "aesd_circular_buffer_find_entry_offset_for_fpos (buffer (aesd_device s)) f_pos")
    (auto simp: aesd_read_def read_locked_def mutex_lock_def run_bind_def bind_fault_def ret_def split_beta split: sum.splits)

lemma aesd_write_steps:
  "aesd_write K s buf count =
     bind_fault (mutex_lock s) (\<lambda>s1. bind_fault (write_fill K s1 buf count) (\<lambda>x. case x of
       Inl r \<Rightarrow> Inr r
     | Inr (pos, s2) \<Rightarrow> bind_fault (write_check K s2 pos count) (\<lambda>y. case y of
         Inl r \<Rightarrow> Inr r
       | Inr s3 \<Rightarrow> write_add s3 count)))"
  by (auto simp: aesd_write_def write_fill_def write_commit_def write_check_def write_add_eq bind_fault_def Let_def
      split_beta split: sum.splits)

section \<open>Processes\<close>

datatype fcall = C_read string size_t | C_write string size_t | C_llseek loff_t int | C_ioctl u32 size_t

text \<open>Where a process is: outside, at the start of a call, holding the mutex, in a write whose bytes are in the
  entry, in one that has evicted, in one that has stored the entry in its slot, or in one that has moved \<^verbatim>\<open>in_offs\<close>.\<close>

datatype fpc = User | Entered fcall | Locked fcall | Copied string size_t size_t | Evicted string size_t
  | Stored string size_t u32 | Advanced string size_t u32

record fproc =
  f_pos :: loff_t
  at :: fpc

record csys =
  dev :: driver
  procs :: "fproc list"

text \<open>A completed call: the process, the call, the position before, the return value, the position after and the
  user's buffer.\<close>

datatype fevent = Done (who: nat) fcall (pos_before: loff_t) ssize_t (pos_after: loff_t) string

fun call_ok :: "fcall \<Rightarrow> bool" where
  "call_ok (C_write buf count) = (unat count < 2 ^ 32)"
| "call_ok _ = True"

fun takes_mutex :: "fcall \<Rightarrow> bool" where
  "takes_mutex (C_read buf count) = True"
| "takes_mutex (C_write buf count) = True"
| "takes_mutex _ = False"

definition move :: "csys \<Rightarrow> nat \<Rightarrow> driver \<Rightarrow> fpc \<Rightarrow> csys" where
  "move c i s pc = c\<lparr>dev := s, procs := (procs c)[i := (procs c ! i)\<lparr>at := pc\<rparr>]\<rparr>"

definition finish :: "csys \<Rightarrow> nat \<Rightarrow> driver \<Rightarrow> loff_t \<Rightarrow> csys" where
  "finish c i s pos = c\<lparr>dev := s, procs := (procs c)[i := \<lparr>f_pos = pos, at = User\<rparr>]\<rparr>"

inductive cstep :: "kernel \<Rightarrow> csys \<Rightarrow> bool \<Rightarrow> fevent list \<Rightarrow> csys \<Rightarrow> bool" for K where
  enter: "i < length (procs c) \<Longrightarrow> at (procs c ! i) = User \<Longrightarrow> call_ok a \<Longrightarrow>
    cstep K c True [] (move c i (dev c) (Entered a))"
| acquire: "i < length (procs c) \<Longrightarrow> at (procs c ! i) = Entered a \<Longrightarrow> takes_mutex a \<Longrightarrow> mutex_lock (dev c) = Inr s \<Longrightarrow>
    cstep K c False [] (move c i s (Locked a))"
| reads: "i < length (procs c) \<Longrightarrow> at (procs c ! i) = Locked (C_read buf n) \<Longrightarrow>
    read_locked K (dev c) buf n (f_pos (procs c ! i)) = ret (r, pos, buf') \<Longrightarrow>
    cstep K c False [Done i (C_read buf n) (f_pos (procs c ! i)) r pos buf'] (finish c i (mutex_unlock (dev c)) pos)"
| write_returns: "i < length (procs c) \<Longrightarrow> at (procs c ! i) = Locked (C_write buf n) \<Longrightarrow>
    write_fill K (dev c) buf n = Inr (Inl (r, s)) \<Longrightarrow>
    cstep K c False [Done i (C_write buf n) (f_pos (procs c ! i)) r (f_pos (procs c ! i)) buf]
      (finish c i s (f_pos (procs c ! i)))"
| write_copies: "i < length (procs c) \<Longrightarrow> at (procs c ! i) = Locked (C_write buf n) \<Longrightarrow>
    write_fill K (dev c) buf n = Inr (Inr (p, s)) \<Longrightarrow> cstep K c False [] (move c i s (Copied buf n p))"
| write_keeps: "i < length (procs c) \<Longrightarrow> at (procs c ! i) = Copied buf n p \<Longrightarrow>
    write_check K (dev c) p n = Inr (Inl (r, s)) \<Longrightarrow>
    cstep K c False [Done i (C_write buf n) (f_pos (procs c ! i)) r (f_pos (procs c ! i)) buf]
      (finish c i s (f_pos (procs c ! i)))"
| write_evicts: "i < length (procs c) \<Longrightarrow> at (procs c ! i) = Copied buf n p \<Longrightarrow>
    write_check K (dev c) p n = Inr (Inr s) \<Longrightarrow> cstep K c False [] (move c i s (Evicted buf n))"
| write_stores: "i < length (procs c) \<Longrightarrow> at (procs c ! i) = Evicted buf n \<Longrightarrow> write_store (dev c) = Inr s \<Longrightarrow>
    cstep K c False [] (move c i s (Stored buf n (aesd_circular_buffer_get_count (buffer (aesd_device (dev c))))))"
| write_advances: "i < length (procs c) \<Longrightarrow> at (procs c ! i) = Stored buf n m \<Longrightarrow>
    cstep K c False [] (move c i (write_advance (dev c)) (Advanced buf n m))"
| write_finishes: "i < length (procs c) \<Longrightarrow> at (procs c ! i) = Advanced buf n m \<Longrightarrow> write_finish (dev c) m n = (r, s) \<Longrightarrow>
    cstep K c False [Done i (C_write buf n) (f_pos (procs c ! i)) r (f_pos (procs c ! i)) buf]
      (finish c i s (f_pos (procs c ! i)))"
| seeks: "i < length (procs c) \<Longrightarrow> at (procs c ! i) = Entered (C_llseek off whence) \<Longrightarrow>
    llseek K (dev c) (f_pos (procs c ! i)) off whence = ret (r, pos) \<Longrightarrow>
    cstep K c False [Done i (C_llseek off whence) (f_pos (procs c ! i)) r pos []] (finish c i (dev c) pos)"
| ioctls: "i < length (procs c) \<Longrightarrow> at (procs c ! i) = Entered (C_ioctl cmd arg) \<Longrightarrow>
    unlocked_ioctl K (dev c) (f_pos (procs c ! i)) cmd arg = ret (r, pos) \<Longrightarrow>
    cstep K c False [Done i (C_ioctl cmd arg) (f_pos (procs c ! i)) r pos []] (finish c i (dev c) pos)"

text \<open>The runs from a device nobody uses, with the calls in the order in which they completed.\<close>

definition idle_system :: "driver \<Rightarrow> loff_t list \<Rightarrow> csys" where
  "idle_system s ps = \<lparr>dev = s, procs = map (\<lambda>p. \<lparr>f_pos = p, at = User\<rparr>) ps\<rparr>"

inductive cruns :: "kernel \<Rightarrow> csys \<Rightarrow> fevent list \<Rightarrow> csys \<Rightarrow> bool" for K c where
  none: "cruns K c [] c"
| more_steps: "cruns K c es d \<Longrightarrow> cstep K d new e d' \<Longrightarrow> cruns K c (es @ e) d'"

section \<open>The sequential specification\<close>

text \<open>What an unlocked call may see while the device is in state \<open>t\<close>: its ring, or what a write makes of it on the way: the
  ring after the eviction, with the new entry in its slot, and with \<^verbatim>\<open>in_offs\<close> moved.\<close>

definition seen :: "kernel \<Rightarrow> driver \<Rightarrow> driver \<Rightarrow> bool" where
  "seen K t s \<longleftrightarrow> buffer (aesd_device s) = buffer (aesd_device t)
     \<or> (\<exists>t1 s1. buffer (aesd_device t1) = buffer (aesd_device t) \<and> write_evict K t1 = Inr s1
          \<and> (buffer (aesd_device s) = buffer (aesd_device s1)
             \<or> (\<exists>s2. write_store s1 = Inr s2
                  \<and> buffer (aesd_device s) \<in> {buffer (aesd_device s2), buffer (aesd_device (write_advance s2))})))"

text \<open>One call at a time: reads and writes are the operations of the driver, seeks see the device as above.\<close>

fun seq_call :: "kernel \<Rightarrow> driver \<Rightarrow> fevent \<Rightarrow> driver \<Rightarrow> bool" where
  "seq_call K t (Done i (C_read buf n) p r pos buf') t' = (aesd_read K t buf n p = ret (r, pos, buf', t'))"
| "seq_call K t (Done i (C_write buf n) p r pos buf') t' = (aesd_write K t buf n = Inr (r, t') \<and> pos = p \<and> buf' = buf)"
| "seq_call K t (Done i (C_llseek off whence) p r pos buf') t' =
     (t' = t \<and> (\<exists>s. seen K t s \<and> llseek K s p off whence = ret (r, pos)))"
| "seq_call K t (Done i (C_ioctl cmd arg) p r pos buf') t' =
     (t' = t \<and> (\<exists>s. seen K t s \<and> unlocked_ioctl K s p cmd arg = ret (r, pos)))"

text \<open>The calls in order, with the file positions of the processes.\<close>

inductive seq_run :: "kernel \<Rightarrow> driver \<Rightarrow> loff_t list \<Rightarrow> fevent list \<Rightarrow> driver \<Rightarrow> loff_t list \<Rightarrow> bool" for K t ps where
  seq_none: "seq_run K t ps [] t ps"
| seq_more: "seq_run K t ps es t1 qs \<Longrightarrow> who e < length qs \<Longrightarrow> qs ! who e = pos_before e \<Longrightarrow> seq_call K t1 e t2 \<Longrightarrow>
    seq_run K t ps (es @ [e]) t2 (qs[who e := pos_after e])"

section \<open>The simulation\<close>

fun busy :: "fpc \<Rightarrow> bool" where
  "busy User = False"
| "busy (Entered a) = False"
| "busy _ = True"

text \<open>The device in the middle of the call of a process, started in \<open>t\<close>.\<close>

fun midway :: "kernel \<Rightarrow> driver \<Rightarrow> fpc \<Rightarrow> driver \<Rightarrow> bool" where
  "midway K t (Locked a) s = (takes_mutex a \<and> mutex_lock t = Inr s)"
| "midway K t (Copied buf n p) s = (\<exists>t1. mutex_lock t = Inr t1 \<and> write_fill K t1 buf n = Inr (Inr (p, s)))"
| "midway K t (Evicted buf n) s = (\<exists>t1 p t2. mutex_lock t = Inr t1 \<and> write_fill K t1 buf n = Inr (Inr (p, t2))
     \<and> write_check K t2 p n = Inr (Inr s))"
| "midway K t (Stored buf n m) s = (\<exists>t1 p t2 t3. mutex_lock t = Inr t1 \<and> write_fill K t1 buf n = Inr (Inr (p, t2))
     \<and> write_check K t2 p n = Inr (Inr t3) \<and> write_store t3 = Inr s
     \<and> m = aesd_circular_buffer_get_count (buffer (aesd_device t3)))"
| "midway K t (Advanced buf n m) s = (\<exists>t1 p t2 t3 t4. mutex_lock t = Inr t1 \<and> write_fill K t1 buf n = Inr (Inr (p, t2))
     \<and> write_check K t2 p n = Inr (Inr t3) \<and> write_store t3 = Inr t4
     \<and> m = aesd_circular_buffer_get_count (buffer (aesd_device t3)) \<and> s = write_advance t4)"
| "midway K t _ s = False"

definition behind :: "kernel \<Rightarrow> driver \<Rightarrow> csys \<Rightarrow> bool" where
  "behind K t c \<longleftrightarrow> \<not> lock (aesd_device t) \<and>
     ((\<forall>i < length (procs c). \<not> busy (at (procs c ! i))) \<and> dev c = t
      \<or> (\<exists>h < length (procs c). midway K t (at (procs c ! h)) (dev c)
           \<and> (\<forall>i < length (procs c). i \<noteq> h \<longrightarrow> \<not> busy (at (procs c ! i)))))"

lemma mutex_lock_effect: "mutex_lock t = Inr s \<Longrightarrow> lock (aesd_device s) \<and> buffer (aesd_device s) = buffer (aesd_device t)"
  by (auto simp: mutex_lock_def split: if_splits)

lemma write_reserve_effect:
  "write_reserve K t n = Inr (p, s) \<Longrightarrow> lock (aesd_device s) = lock (aesd_device t) \<and> buffer (aesd_device s) = buffer (aesd_device t)"
  by (auto simp: write_reserve_def Let_def split: ptr.splits if_splits prod.splits)

lemma write_fill_effect:
  "write_fill K t buf n = Inr (Inr (p, s)) \<Longrightarrow> lock (aesd_device s) = lock (aesd_device t) \<and> buffer (aesd_device s) = buffer (aesd_device t)"
  by (auto simp: write_fill_def bind_fault_eq_Inr Let_def split: if_splits prod.splits dest!: write_reserve_effect)

lemma write_evict_lock: "write_evict K t = Inr s \<Longrightarrow> lock (aesd_device s) = lock (aesd_device t)"
  by (auto simp: write_evict_def bind_fault_eq_Inr Let_def split: if_splits)

lemma write_check_evicts: "write_check K t p n = Inr (Inr s) \<Longrightarrow> write_evict K t = Inr s"
  by (auto simp: write_check_def bind_fault_eq_Inr split: if_splits)

lemma write_store_lock [simp]: "write_store t = Inr s \<Longrightarrow> lock (aesd_device s) = lock (aesd_device t)"
  by (auto simp: write_store_def Let_def split: if_splits)

lemma write_advance_lock [simp]: "lock (aesd_device (write_advance s)) = lock (aesd_device s)"
  by (simp add: write_advance_def Let_def)

lemma midway_evicted:
  assumes "midway K t (Evicted buf n) s"
  shows "lock (aesd_device s)" and "\<exists>t1. buffer (aesd_device t1) = buffer (aesd_device t) \<and> write_evict K t1 = Inr s"
proof -
  from assms obtain t1 p t2 where e: "mutex_lock t = Inr t1" "write_fill K t1 buf n = Inr (Inr (p, t2))"
    "write_check K t2 p n = Inr (Inr s)" by auto
  note ev = write_check_evicts [OF e(3)]
  show "lock (aesd_device s)"
    using mutex_lock_effect [OF e(1)] write_fill_effect [OF e(2)] write_evict_lock [OF ev] by simp
  have "buffer (aesd_device t2) = buffer (aesd_device t)"
    using mutex_lock_effect [OF e(1)] write_fill_effect [OF e(2)] by simp
  then show "\<exists>t1. buffer (aesd_device t1) = buffer (aesd_device t) \<and> write_evict K t1 = Inr s" using ev by blast
qed

lemma midway_stored:
  "midway K t (Stored buf n m) s \<longleftrightarrow> (\<exists>t3. midway K t (Evicted buf n) t3 \<and> write_store t3 = Inr s
     \<and> m = aesd_circular_buffer_get_count (buffer (aesd_device t3)))"
  by auto

lemma midway_advanced: "midway K t (Advanced buf n m) s \<longleftrightarrow> (\<exists>s'. midway K t (Stored buf n m) s' \<and> s = write_advance s')"
  by auto

lemma midway_locked: "midway K t pc s \<Longrightarrow> lock (aesd_device s) \<and> busy pc"
proof (cases pc)
  case (Evicted buf n)
  then show "midway K t pc s \<Longrightarrow> ?thesis" using midway_evicted(1) by auto
next
  case (Stored buf n m)
  then show "midway K t pc s \<Longrightarrow> ?thesis" using midway_evicted(1) write_store_lock unfolding Stored midway_stored by (metis busy.simps(6))
next
  case (Advanced buf n m)
  then show "midway K t pc s \<Longrightarrow> ?thesis" using midway_evicted(1) write_store_lock write_advance_lock unfolding Advanced midway_advanced midway_stored
    by (metis busy.simps(7))
qed (auto dest!: mutex_lock_effect write_fill_effect)

lemma midway_seen: "midway K t pc s \<Longrightarrow> seen K t s"
proof (cases pc)
  case (Evicted buf n)
  then show "midway K t pc s \<Longrightarrow> ?thesis" using midway_evicted(2) unfolding seen_def by blast
next
  case (Stored buf n m)
  then show "midway K t pc s \<Longrightarrow> ?thesis" using midway_evicted(2) unfolding Stored midway_stored seen_def by blast
next
  case (Advanced buf n m)
  then show "midway K t pc s \<Longrightarrow> ?thesis"
    using midway_evicted(2) unfolding Advanced midway_advanced midway_stored seen_def by blast
qed (auto simp: seen_def dest!: mutex_lock_effect write_fill_effect)

lemma behind_seen: "behind K t c \<Longrightarrow> seen K t (dev c)"
  using midway_seen by (auto simp: behind_def seen_def)

text \<open>The step lemmas: where the process that holds the mutex is, and what a step makes of it.\<close>

lemma proc_update [simp]:
  "procs (move c i s pc) = (procs c)[i := (procs c ! i)\<lparr>at := pc\<rparr>]" "dev (move c i s pc) = s"
  "procs (finish c i s pos) = (procs c)[i := \<lparr>f_pos = pos, at = User\<rparr>]" "dev (finish c i s pos) = s"
  by (simp_all add: move_def finish_def)

lemma map_pos_update: "i < length ps \<Longrightarrow> map f_pos (ps[i := (ps ! i)\<lparr>at := pc\<rparr>]) = map f_pos ps"
  by (simp add: map_update list_update_same_conv)

lemma behind_busy:
  assumes "behind K t c" and "i < length (procs c)" and "busy (at (procs c ! i))"
  shows "midway K t (at (procs c ! i)) (dev c)" and "\<not> lock (aesd_device t)"
    and "\<And>j. j < length (procs c) \<Longrightarrow> j \<noteq> i \<Longrightarrow> \<not> busy (at (procs c ! j))"
  using assms by (auto simp: behind_def)

lemma behind_free:
  assumes "behind K t c" and "\<not> lock (aesd_device (dev c))"
  shows "dev c = t" and "\<And>i. i < length (procs c) \<Longrightarrow> \<not> busy (at (procs c ! i))"
  using assms midway_locked unfolding behind_def by blast+

lemma behind_move:
  assumes "behind K t c" and "i < length (procs c)" and "midway K t pc s"
    and "busy (at (procs c ! i)) \<or> \<not> lock (aesd_device (dev c))"
  shows "behind K t (move c i s pc)"
proof -
  have "\<not> busy (at (procs c ! j))" if "j < length (procs c)" "j \<noteq> i" for j
    using behind_busy(3) [OF assms(1,2) _ that] behind_free(2) [OF assms(1) _ that(1)] assms(4) by blast
  moreover have "\<not> lock (aesd_device t)" using assms(1) by (simp add: behind_def)
  ultimately show ?thesis using assms(2,3) by (auto simp: behind_def nth_list_update)
qed

lemma behind_finish:
  assumes "behind K t c" and "i < length (procs c)" and "busy (at (procs c ! i))" and "\<not> lock (aesd_device t')"
  shows "behind K t' (finish c i t' pos)"
  using assms behind_busy(3) [OF assms(1-3)] by (auto simp: behind_def nth_list_update)

lemma behind_unlocked:
  assumes "behind K t c" and "i < length (procs c)" and "\<not> busy (at (procs c ! i))" and "\<not> busy (at q)"
  shows "behind K t (c\<lparr>procs := (procs c)[i := q]\<rparr>)"
proof -
  have l: "\<not> lock (aesd_device t)" using assms(1) by (simp add: behind_def)
  consider "\<forall>j < length (procs c). \<not> busy (at (procs c ! j))" "dev c = t"
    | h where "h < length (procs c)" "midway K t (at (procs c ! h)) (dev c)"
        "\<forall>j < length (procs c). j \<noteq> h \<longrightarrow> \<not> busy (at (procs c ! j))"
    using assms(1) unfolding behind_def by blast
  then show ?thesis
  proof cases
    case 1
    then have "\<forall>j < length (procs c). \<not> busy (at ((procs c)[i := q] ! j))" using assms(2,4) by (auto simp: nth_list_update)
    then show ?thesis using l 1(2) by (simp add: behind_def)
  next
    case (2 h)
    then have "h \<noteq> i" using midway_locked assms(3) by blast
    then show ?thesis
      using 2 l assms(2,4) unfolding behind_def by (intro conjI disjI2 exI [of _ h]) (simp_all add: nth_list_update)
  qed
qed

lemma unlock_after_lock: "mutex_lock t = Inr s \<Longrightarrow> mutex_unlock s = t"
  by (auto simp: mutex_lock_def mutex_unlock_def split: if_splits)

lemma unlocked [simp]: "\<not> lock (aesd_device (mutex_unlock s))"
  by (simp add: mutex_unlock_def)

lemma write_returns_unlocked:
  "write_fill K s buf n = Inr (Inl (r, s')) \<Longrightarrow> \<not> lock (aesd_device s')"
  "write_check K s p n = Inr (Inl (r, s')) \<Longrightarrow> \<not> lock (aesd_device s')"
  "write_finish s m n = (r, s') \<Longrightarrow> \<not> lock (aesd_device s')"
  by (auto simp: write_fill_def write_check_def write_finish_def bind_fault_eq_Inr Let_def split: if_splits prod.splits)

text \<open>A step of the system is no step of the sequential run, or the completed call.\<close>

definition matched :: "kernel \<Rightarrow> driver \<Rightarrow> csys \<Rightarrow> fevent list \<Rightarrow> csys \<Rightarrow> driver \<Rightarrow> bool" where
  "matched K t c e c' t' \<longleftrightarrow> behind K t' c' \<and>
     (e = [] \<and> t' = t \<and> map f_pos (procs c') = map f_pos (procs c)
      \<or> (\<exists>a. e = [a] \<and> seq_call K t a t' \<and> who a < length (procs c) \<and> pos_before a = f_pos (procs c ! who a)
           \<and> map f_pos (procs c') = (map f_pos (procs c))[who a := pos_after a]))"

lemma matched_move:
  "behind K t (move c i s pc) \<Longrightarrow> i < length (procs c) \<Longrightarrow> matched K t c [] (move c i s pc) t"
  by (simp add: matched_def map_pos_update)

lemma matched_call:
  assumes "behind K t c" and "i < length (procs c)" and "busy (at (procs c ! i))" and "\<not> lock (aesd_device t')"
    and "seq_call K t (Done i a (f_pos (procs c ! i)) r pos buf) t'"
  shows "matched K t c [Done i a (f_pos (procs c ! i)) r pos buf] (finish c i t' pos) t'"
  using assms behind_finish [OF assms(1-4)] by (simp add: matched_def map_update)

lemma matched_write:
  assumes "behind K t c" and "i < length (procs c)" and "busy (at (procs c ! i))" and "\<not> lock (aesd_device t')"
    and "aesd_write K t buf n = Inr (r, t')"
  shows "matched K t c [Done i (C_write buf n) (f_pos (procs c ! i)) r (f_pos (procs c ! i)) buf] (finish c i t' (f_pos (procs c ! i))) t'"
  by (rule matched_call [OF assms(1-4)]) (simp add: assms(5))

lemma matched_seek:
  assumes "behind K t c" and "i < length (procs c)" and "\<not> busy (at (procs c ! i))"
    and "seq_call K t (Done i a (f_pos (procs c ! i)) r pos buf) t"
  shows "matched K t c [Done i a (f_pos (procs c ! i)) r pos buf] (finish c i (dev c) pos) t"
  using assms behind_unlocked [OF assms(1-3), of "\<lparr>f_pos = pos, at = User\<rparr>"]
  by (simp add: matched_def finish_def map_update)

text \<open>A write that returns from one of its steps is the write of the driver.\<close>

lemma write_completed:
  "midway K t (Locked (C_write buf n)) s \<Longrightarrow> write_fill K s buf n = Inr (Inl (r, s')) \<Longrightarrow> aesd_write K t buf n = Inr (r, s')"
  "midway K t (Copied buf n p) s \<Longrightarrow> write_check K s p n = Inr (Inl (r, s')) \<Longrightarrow> aesd_write K t buf n = Inr (r, s')"
  "midway K t (Advanced buf n m) s \<Longrightarrow> write_finish s m n = (r, s') \<Longrightarrow> aesd_write K t buf n = Inr (r, s')"
  by (auto simp: aesd_write_steps write_add_def Let_def)

lemma cstep_simulation:
  assumes s: "cstep K c new e c'" and b: "behind K t c"
  shows "\<exists>t'. matched K t c e c' t'"
  using s
proof (cases rule: cstep.cases)
  case (enter i a)
  then have "behind K t (move c i (dev c) (Entered a))"
    using behind_unlocked [OF b enter(4), of "(procs c ! i)\<lparr>at := Entered a\<rparr>"] by (simp add: move_def)
  then show ?thesis using enter matched_move by blast
next
  case (acquire i a s)
  then have "\<not> lock (aesd_device (dev c))" by (auto simp: mutex_lock_def split: if_splits)
  then have "behind K t (move c i s (Locked a))"
    using behind_move [OF b acquire(4), of "Locked a" s] behind_free(1) [OF b] acquire by auto
  then show ?thesis using acquire matched_move by blast
next
  case (reads i buf n r pos buf')
  note h = behind_busy [OF b reads(4)]
  have l: "mutex_lock t = Inr (dev c)" using h(1) reads(5) by simp
  have "matched K t c e (finish c i t pos) t"
    using matched_call [OF b reads(4) _ h(2), of "C_read buf n" r pos buf'] reads l
    by (simp add: aesd_read_steps unlock_after_lock)
  then show ?thesis using reads unlock_after_lock [OF l] by auto
next
  case (write_returns i buf n r s)
  then have "aesd_write K t buf n = Inr (r, s)"
    using write_completed(1) behind_busy(1) [OF b write_returns(4)] by auto
  then show ?thesis
    using matched_write [OF b write_returns(4) _ write_returns_unlocked(1) [OF write_returns(6)]] write_returns by auto
next
  case (write_copies i buf n p s)
  then have "behind K t (move c i s (Copied buf n p))"
    using behind_busy(1) [OF b write_copies(4)] behind_move [OF b write_copies(4), of "Copied buf n p" s] by auto
  then show ?thesis using write_copies matched_move by blast
next
  case (write_keeps i buf n p r s)
  then have "aesd_write K t buf n = Inr (r, s)"
    using write_completed(2) behind_busy(1) [OF b write_keeps(4)] by auto
  then show ?thesis
    using matched_write [OF b write_keeps(4) _ write_returns_unlocked(2) [OF write_keeps(6)]] write_keeps by auto
next
  case (write_evicts i buf n p s)
  then have "behind K t (move c i s (Evicted buf n))"
    using behind_busy(1) [OF b write_evicts(4)] behind_move [OF b write_evicts(4), of "Evicted buf n" s] by auto
  then show ?thesis using write_evicts matched_move by blast
next
  case (write_stores i buf n s)
  then have "behind K t (move c i s (Stored buf n (aesd_circular_buffer_get_count (buffer (aesd_device (dev c))))))"
    using behind_busy(1) [OF b write_stores(4)] behind_move [OF b write_stores(4)] by auto
  then show ?thesis using write_stores matched_move by blast
next
  case (write_advances i buf n m)
  then have "behind K t (move c i (write_advance (dev c)) (Advanced buf n m))"
    using behind_busy(1) [OF b write_advances(4)] behind_move [OF b write_advances(4)] by auto
  then show ?thesis using write_advances matched_move by blast
next
  case (write_finishes i buf n m r s)
  then have "aesd_write K t buf n = Inr (r, s)"
    using write_completed(3) behind_busy(1) [OF b write_finishes(4)] by auto
  then show ?thesis
    using matched_write [OF b write_finishes(4) _ write_returns_unlocked(3) [OF write_finishes(6)]] write_finishes by auto
next
  case (seeks i off whence r pos)
  then show ?thesis
    using matched_seek [OF b seeks(4), of "C_llseek off whence" r pos "[]"] behind_seen [OF b] by fastforce
next
  case (ioctls i cmd arg r pos)
  then show ?thesis
    using matched_seek [OF b ioctls(4), of "C_ioctl cmd arg" r pos "[]"] behind_seen [OF b] by fastforce
qed

lemma seq_run_matched:
  assumes "seq_run K s ps es t (map f_pos (procs d))" and "matched K t d e d' t'"
  shows "seq_run K s ps (es @ e) t' (map f_pos (procs d')) \<and> behind K t' d'"
proof (cases "e = []")
  case False
  then obtain a where a: "e = [a]" "seq_call K t a t'" "who a < length (procs d)" "pos_before a = f_pos (procs d ! who a)"
    "map f_pos (procs d') = (map f_pos (procs d))[who a := pos_after a]"
    using assms(2) by (auto simp: matched_def)
  have "seq_run K s ps (es @ [a]) t' ((map f_pos (procs d))[who a := pos_after a])"
    by (rule seq_more [OF assms(1)]) (use a in simp_all)
  then show ?thesis using a assms(2) by (simp add: matched_def)
qed (use assms in \<open>auto simp: matched_def\<close>)

lemma idle_behind: "\<not> lock (aesd_device s) \<Longrightarrow> seq_run K s ps [] s (map f_pos (procs (idle_system s ps))) \<and> behind K s (idle_system s ps)"
  using seq_none [of K s ps] by (simp add: behind_def idle_system_def comp_def)

lemma cruns_simulated:
  assumes "cruns K (idle_system s ps) es d" and "\<not> lock (aesd_device s)"
  shows "\<exists>t. seq_run K s ps es t (map f_pos (procs d)) \<and> behind K t d"
  using assms(1)
proof (induction rule: cruns.induct)
  case none
  then show ?case using idle_behind [OF assms(2)] by blast
next
  case (more_steps es d new e d')
  then show ?case using cstep_simulation seq_run_matched by blast
qed

section \<open>No call waits for ever\<close>

fun pc_ok :: "fpc \<Rightarrow> bool" where
  "pc_ok User = True"
| "pc_ok (Entered a) = call_ok a"
| "pc_ok (Locked a) = call_ok a"
| "pc_ok (Copied buf n p) = (unat n < 2 ^ 32)"
| "pc_ok (Evicted buf n) = (unat n < 2 ^ 32)"
| "pc_ok (Stored buf n m) = (unat n < 2 ^ 32)"
| "pc_ok (Advanced buf n m) = (unat n < 2 ^ 32)"

definition calls_ok :: "csys \<Rightarrow> bool" where
  "calls_ok c \<longleftrightarrow> (\<forall>q \<in> set (procs c). pc_ok (at q))"

lemma calls_ok_update [simp]:
  "calls_ok c \<Longrightarrow> pc_ok pc \<Longrightarrow> calls_ok (move c i s pc)"
  "calls_ok c \<Longrightarrow> calls_ok (finish c i s pos)"
  by (auto simp: calls_ok_def dest!: set_update_subset_insert [THEN subsetD])

fun what :: "fevent \<Rightarrow> fcall" where
  "what (Done i a p r pos buf) = a"

lemma cstep_calls_ok:
  assumes "cstep K c new e c'" and "calls_ok c"
  shows "calls_ok c' \<and> (\<forall>a \<in> set e. call_ok (what a))"
proof -
  have pc: "pc_ok (at (procs c ! i))" if "i < length (procs c)" for i
    using assms(2) that by (simp add: calls_ok_def)
  show ?thesis using assms by (cases rule: cstep.cases) (auto dest: pc)
qed

lemma seq_call_inv:
  assumes "seq_call K t a t'" and "call_ok (what a)" and K: "kernel_ok K" and inv: "drv_inv K t" and ul: "\<not> lock (aesd_device t)"
  shows "drv_inv K t' \<and> \<not> lock (aesd_device t')"
proof (cases a)
  case (Done i b p r pos buf')
  show ?thesis
  proof (cases b)
    case (C_read buf n)
    then show ?thesis using assms(1) Done aesd_read_spec [OF K inv ul, of buf n p] inv ul
      by (auto simp: ret_def Let_def split: if_splits prod.splits)
  next
    case (C_write buf n)
    then show ?thesis using assms(1,2) Done aesd_write_total [OF K inv ul, of n buf] by auto
  qed (use assms(1) Done inv ul in auto)
qed

lemma cstep_keeps:
  assumes st: "cstep K d new e d'" and K: "kernel_ok K" and t: "behind K t d" "drv_inv K t" "calls_ok d"
  shows "\<exists>t'. matched K t d e d' t' \<and> behind K t' d' \<and> drv_inv K t' \<and> calls_ok d'"
proof -
  obtain t' where t': "matched K t d e d' t'" using cstep_simulation [OF st t(1)] by blast
  note ok = cstep_calls_ok [OF st t(3)]
  have "drv_inv K t'"
    using t' ok t(1,2) seq_call_inv [OF _ _ K t(2)] by (auto simp: matched_def behind_def)
  then show ?thesis using t' ok by (auto simp: matched_def)
qed

lemma cruns_inv:
  assumes "cruns K (idle_system s ps) es d" and K: "kernel_ok K" and "drv_inv K s" and "\<not> lock (aesd_device s)"
  shows "\<exists>t. seq_run K s ps es t (map f_pos (procs d)) \<and> behind K t d \<and> drv_inv K t \<and> calls_ok d"
  using assms(1)
proof (induction rule: cruns.induct)
  case none
  then show ?case using idle_behind [OF assms(4)] assms(3) by (auto simp: calls_ok_def idle_system_def)
next
  case (more_steps es d new e d')
  then obtain t where t: "seq_run K s ps es t (map f_pos (procs d))" "behind K t d" "drv_inv K t" "calls_ok d" by blast
  then show ?case using cstep_keeps [OF more_steps(2) K t(2-4)] seq_run_matched [OF t(1)] by blast
qed

text \<open>The state a write is in decides its next step, because the whole write returns.\<close>

lemma midway_write_goes_on:
  assumes K: "kernel_ok K" and inv: "drv_inv K t" and ul: "\<not> lock (aesd_device t)" and n: "unat n < 2 ^ 32"
  shows "midway K t (Locked (C_write buf n)) s \<Longrightarrow> \<exists>x. write_fill K s buf n = Inr x"
    and "midway K t (Copied buf n p) s \<Longrightarrow> \<exists>x. write_check K s p n = Inr x"
    and "midway K t (Evicted buf n) s \<Longrightarrow> \<exists>x. write_store s = Inr x"
proof -
  obtain r where r: "aesd_write K t buf n = Inr r" using aesd_write_total [OF K inv ul n, of buf] by auto
  show "midway K t (Locked (C_write buf n)) s \<Longrightarrow> \<exists>x. write_fill K s buf n = Inr x"
    using r by (auto simp: aesd_write_steps bind_fault_eq_Inr)
  show "midway K t (Copied buf n p) s \<Longrightarrow> \<exists>x. write_check K s p n = Inr x"
    using r by (auto simp: aesd_write_steps) (auto simp: bind_fault_eq_Inr)
  show "midway K t (Evicted buf n) s \<Longrightarrow> \<exists>x. write_store s = Inr x"
    using r by (auto simp: aesd_write_steps write_add_def Let_def bind_fault_eq_Inr)
qed

lemma write_store_shape: "write_store s = Inr s' \<Longrightarrow> shape_of s \<Longrightarrow> shape_of s'"
  by (auto simp: write_store_def cb_shape_def Let_def split: if_splits)

lemma write_advance_shape: "shape_of s \<Longrightarrow> shape_of (write_advance s)"
  by (simp add: write_advance_def cb_shape_def Let_def unat_next_offs)

lemma behind_shape:
  assumes "behind K t c" and "drv_inv K t"
  shows "shape_of (dev c)"
proof -
  have t: "shape_of t" using drv_invD(1) [OF assms(2)] by simp
  consider "buffer (aesd_device (dev c)) = buffer (aesd_device t)"
    | t1 s1 where "buffer (aesd_device t1) = buffer (aesd_device t)" "write_evict K t1 = Inr s1"
      "buffer (aesd_device (dev c)) = buffer (aesd_device s1) \<or> (\<exists>s2. write_store s1 = Inr s2
         \<and> buffer (aesd_device (dev c)) \<in> {buffer (aesd_device s2), buffer (aesd_device (write_advance s2))})"
    using behind_seen [OF assms(1)] unfolding seen_def by blast
  then show ?thesis
  proof cases
    case 2
    then have "shape_of s1" using write_evict_shape t by metis
    then show ?thesis using 2(3) write_store_shape write_advance_shape by fastforce
  qed (use t in simp)
qed

lemma seeks_return:
  assumes "shape_of s"
  shows "\<exists>x. llseek K s p off whence = ret x"
    and "(\<exists>x. unlocked_ioctl K s p cmd arg = ret x) \<or> unlocked_ioctl K s p cmd arg = Some (Inl Out_of_bounds)"
proof -
  let ?b = "buffer (aesd_device s)"
  have b: "length (entry ?b) = 10" "out_offs ?b < 10" "in_offs ?b < 10"
    using assms by (simp_all add: cb_shape_def word_less_nat_alt)
  show "\<exists>x. llseek K s p off whence = ret x"
    using ring_scans_return [OF b, of 0 undefined 0] by (cases "fixed_size_llseek K p off whence 0") (auto simp: llseek_def ret_def)
  have "(\<exists>x. aesd_adjust_file_offset s p a o' = ret x) \<or> aesd_adjust_file_offset s p a o' = Some (Inl Out_of_bounds)" for a o'
    using ring_scans_return [OF b, of 0 "ucast (out_offs ?b) + a" "ucast o'"]
    by (auto simp: aesd_adjust_file_offset_def Let_def ret_def)
  then show "(\<exists>x. unlocked_ioctl K s p cmd arg = ret x) \<or> unlocked_ioctl K s p cmd arg = Some (Inl Out_of_bounds)"
    by (auto simp: unlocked_ioctl_def ret_def split: prod.splits)
qed

text \<open>A process in a call moves, or waits for the mutex, or its seek command leaves the array.\<close>

definition moves :: "kernel \<Rightarrow> csys \<Rightarrow> bool" where
  "moves K c \<longleftrightarrow> (\<exists>e c'. cstep K c False e c')"

lemma entered_goes_on:
  assumes "shape_of (dev c)" and i: "i < length (procs c)" "at (procs c ! i) = Entered a"
  shows "moves K c \<or> takes_mutex a \<and> lock (aesd_device (dev c))
    \<or> (\<exists>cmd arg. a = C_ioctl cmd arg \<and> unlocked_ioctl K (dev c) (f_pos (procs c ! i)) cmd arg = Some (Inl Out_of_bounds))"
proof (cases "takes_mutex a")
  case True
  then show ?thesis using acquire [OF i True, of _ K] by (auto simp: moves_def mutex_lock_def)
next
  case False
  then show ?thesis
  proof (cases a)
    case (C_llseek off whence)
    then obtain r pos where "llseek K (dev c) (f_pos (procs c ! i)) off whence = ret (r, pos)"
      using seeks_return(1) [OF assms(1)] by (metis surj_pair)
    then show ?thesis using seeks [OF i(1)] i(2) C_llseek unfolding moves_def by blast
  next
    case (C_ioctl cmd arg)
    consider r pos where "unlocked_ioctl K (dev c) (f_pos (procs c ! i)) cmd arg = ret (r, pos)"
      | "unlocked_ioctl K (dev c) (f_pos (procs c ! i)) cmd arg = Some (Inl Out_of_bounds)"
      using seeks_return(2) [OF assms(1)] by (metis surj_pair)
    then show ?thesis using ioctls [OF i(1)] i(2) C_ioctl unfolding moves_def by cases blast+
  qed simp_all
qed

lemma read_goes_on:
  assumes K: "kernel_ok K" and inv: "drv_inv K t" and ul: "\<not> lock (aesd_device t)" and l: "mutex_lock t = Inr s"
  obtains r pos buf' where "read_locked K s buf n p = ret (r, pos, buf')"
proof -
  have "\<exists>x. read_locked K s buf n p = ret x"
    using aesd_read_spec [OF K inv ul, of buf n p] l
    by (cases "read_locked K s buf n p") (auto simp: aesd_read_steps run_bind_def ret_def split: sum.splits)
  then show ?thesis using that by (metis surj_pair)
qed

lemma holder_goes_on:
  assumes K: "kernel_ok K" and inv: "drv_inv K t" and ul: "\<not> lock (aesd_device t)"
    and i: "i < length (procs c)" and m: "midway K t (at (procs c ! i)) (dev c)" and pc: "pc_ok (at (procs c ! i))"
  shows "moves K c"
proof (cases "at (procs c ! i)")
  case (Locked a)
  show ?thesis
  proof (cases a)
    case (C_read buf n)
    then show ?thesis
      using read_goes_on [OF K inv ul] reads [OF i] Locked m unfolding moves_def by (metis midway.simps(1))
  next
    case (C_write buf n)
    then obtain x where "write_fill K (dev c) buf n = Inr x"
      using midway_write_goes_on(1) [OF K inv ul, of n buf] m pc Locked by auto
    then show ?thesis
      using write_returns [OF i] write_copies [OF i] Locked C_write unfolding moves_def
      by (cases x) (metis surj_pair)+
  qed (use m Locked in auto)
next
  case (Copied buf n p)
  then obtain x where "write_check K (dev c) p n = Inr x"
    using midway_write_goes_on(2) [OF K inv ul, of n buf p] m pc by auto
  then show ?thesis
    using write_keeps [OF i Copied] write_evicts [OF i Copied] unfolding moves_def by (cases x) (metis surj_pair)+
next
  case (Evicted buf n)
  then obtain x where "write_store (dev c) = Inr x"
    using midway_write_goes_on(3) [OF K inv ul, of n buf] m pc by auto
  then show ?thesis using write_stores [OF i Evicted] unfolding moves_def by metis
next
  case (Stored buf n k)
  then show ?thesis using write_advances [OF i Stored] unfolding moves_def by metis
next
  case (Advanced buf n k)
  then show ?thesis using write_finishes [OF i Advanced] unfolding moves_def by (metis surj_pair)
qed (use m in simp_all)

lemma process_goes_on:
  assumes K: "kernel_ok K" and inv: "drv_inv K t" and b: "behind K t c" and ok: "calls_ok c"
    and i: "i < length (procs c)" "at (procs c ! i) \<noteq> User"
  shows "moves K c
    \<or> (\<exists>a. at (procs c ! i) = Entered a \<and> takes_mutex a \<and> lock (aesd_device (dev c)))
    \<or> (\<exists>cmd arg. at (procs c ! i) = Entered (C_ioctl cmd arg)
         \<and> unlocked_ioctl K (dev c) (f_pos (procs c ! i)) cmd arg = Some (Inl Out_of_bounds))"
proof (cases "busy (at (procs c ! i))")
  case True
  have "pc_ok (at (procs c ! i))" using ok i(1) by (simp add: calls_ok_def)
  then show ?thesis
    using holder_goes_on [OF K inv _ i(1) behind_busy(1) [OF b i(1) True]] b by (simp add: behind_def)
next
  case False
  then obtain a where "at (procs c ! i) = Entered a" using i(2) by (cases "at (procs c ! i)") auto
  then show ?thesis using entered_goes_on [OF behind_shape [OF b inv] i(1), of a K] by auto
qed

section \<open>The work left\<close>

text \<open>The steps a process may still take without starting a new call.\<close>

fun steps_left :: "fpc \<Rightarrow> nat" where
  "steps_left User = 0"
| "steps_left (Entered a) = 6"
| "steps_left (Locked a) = 5"
| "steps_left (Copied buf n p) = 4"
| "steps_left (Evicted buf n) = 3"
| "steps_left (Stored buf n m) = 2"
| "steps_left (Advanced buf n m) = 1"

definition pending :: "csys \<Rightarrow> nat" where
  "pending c = sum_list (map (\<lambda>q. steps_left (at q)) (procs c))"

inductive own_run :: "kernel \<Rightarrow> csys \<Rightarrow> nat \<Rightarrow> fevent list \<Rightarrow> csys \<Rightarrow> bool" for K c where
  stay: "own_run K c 0 [] c"
| go_on: "own_run K c n es d \<Longrightarrow> cstep K d False e d' \<Longrightarrow> own_run K c (Suc n) (es @ e) d'"

lemma own_step_works: "cstep K c False e c' \<Longrightarrow> pending c' < pending c"
proof (cases rule: cstep.cases, assumption)
qed (auto simp: move_def finish_def pending_def intro!: sum_list_map_update_less)

lemma cruns_own: "own_run K d n es' d' \<Longrightarrow> cruns K c es d \<Longrightarrow> cruns K c (es @ es') d'"
  by (induction rule: own_run.induct) (auto simp flip: append_assoc intro: more_steps)

text \<open>When no process can take a step of its own, the calls have returned.\<close>

lemma stuck_returned:
  assumes K: "kernel_ok K" and inv: "drv_inv K t" and b: "behind K t c" and ok: "calls_ok c"
    and st: "\<And>e c'. \<not> cstep K c False e c'" and i: "i < length (procs c)" "at (procs c ! i) \<noteq> User"
  shows "\<exists>cmd arg. at (procs c ! i) = Entered (C_ioctl cmd arg)
    \<and> unlocked_ioctl K (dev c) (f_pos (procs c ! i)) cmd arg = Some (Inl Out_of_bounds)"
proof -
  have "\<not> busy (at (procs c ! j))" if "j < length (procs c)" for j
    using process_goes_on [OF K inv b ok that] st by (cases "at (procs c ! j)") (auto simp: moves_def)
  moreover have "\<not> busy (at (procs c ! h)) \<Longrightarrow> \<not> midway K t (at (procs c ! h)) (dev c)" for h
    using midway_locked by blast
  ultimately have "dev c = t" "\<not> lock (aesd_device t)" using b by (auto simp: behind_def)
  then show ?thesis using process_goes_on [OF K inv b ok i] st by (auto simp: moves_def)
qed

text \<open>The processes inside their calls are a system that ends: with all calls returned, but for seek commands that index past
  the array.\<close>

definition own_step :: "kernel \<Rightarrow> csys \<Rightarrow> csys \<Rightarrow> bool" where
  "own_step K c c' \<longleftrightarrow> (\<exists>e. cstep K c False e c')"

definition attended :: "kernel \<Rightarrow> csys \<Rightarrow> bool" where
  "attended K c \<longleftrightarrow> kernel_ok K \<and> (\<exists>t. behind K t c \<and> drv_inv K t \<and> calls_ok c)"

definition returned :: "kernel \<Rightarrow> csys \<Rightarrow> bool" where
  "returned K c \<longleftrightarrow> (\<forall>i < length (procs c). at (procs c ! i) = User
     \<or> (\<exists>cmd arg. at (procs c ! i) = Entered (C_ioctl cmd arg)
          \<and> unlocked_ioctl K (dev c) (f_pos (procs c ! i)) cmd arg = Some (Inl Out_of_bounds)))"

lemma own_run_steps: "(\<exists>es. own_run K c n es d) \<longleftrightarrow> (own_step K ^^ n) c d"
proof (induction n arbitrary: d)
  case 0
  show ?case by (auto elim: own_run.cases intro: stay)
next
  case (Suc n)
  have "(\<exists>es. own_run K c (Suc n) es d) \<longleftrightarrow> (\<exists>d1. (\<exists>es. own_run K c n es d1) \<and> own_step K d1 d)"
    unfolding own_step_def by (blast elim: own_run.cases intro: go_on)
  then show ?case using Suc by auto
qed

interpretation calls: ending_system "own_step K" "attended K" pending "returned K" for K
proof
  show "attended K c'" if "attended K c" "own_step K c c'" for c c'
    using that cstep_keeps unfolding attended_def own_step_def by metis
  show "pending c' < pending c" if "own_step K c c'" for c c'
    using that own_step_works by (auto simp: own_step_def)
  show "\<exists>c'. own_step K c c'" if "attended K c" "\<not> returned K c" for c
    using that stuck_returned unfolding attended_def returned_def own_step_def by metis
qed

section \<open>The history as a log\<close>

text \<open>The bytes of the writes of a history, and what its reads deliver when the lines are those of the log.\<close>

fun written :: "fevent list \<Rightarrow> string list" where
  "written [] = []"
| "written (Done i (C_write buf n) p r pos buf' # es) = take (unat n) buf # written es"
| "written (e # es) = written es"

definition read_agrees :: "kernel \<Rightarrow> string list \<Rightarrow> string \<Rightarrow> size_t \<Rightarrow> loff_t \<Rightarrow> ssize_t \<Rightarrow> loff_t \<Rightarrow> string \<Rightarrow> bool" where
  "read_agrees K ls buf n p r pos buf' \<longleftrightarrow>
     (let d = log_read ls (unat p) (unat n) in
      if d = [] then r = 0 \<and> pos = p \<and> buf' = buf
      else buf' = fst (copy_to_user K buf d)
        \<and> (if snd (copy_to_user K buf d) \<noteq> 0 then r = - EFAULT \<and> pos = p
           else r = of_nat (length d) \<and> pos = p + of_nat (length d)))"

fun log_history :: "kernel \<Rightarrow> line_log \<Rightarrow> fevent list \<Rightarrow> bool" where
  "log_history K l [] = True"
| "log_history K l (Done i (C_write buf n) p r pos buf' # es) = log_history K (log_write l (take (unat n) buf)) es"
| "log_history K l (Done i (C_read buf n) p r pos buf' # es) =
     (read_agrees K (fst l) buf n p r pos buf' \<and> log_history K l es)"
| "log_history K l (e # es) = log_history K l es"

fun write_in_full :: "fevent \<Rightarrow> bool" where
  "write_in_full (Done i (C_write buf n) p r pos buf') = (r = n)"
| "write_in_full _ = True"

lemma written_append: "written (es @ es') = written es @ written es'"
  by (induction es rule: written.induct) auto

lemma log_history_append:
  "log_history K l (es @ es') \<longleftrightarrow> log_history K l es \<and> log_history K (foldl log_write l (written es)) es'"
  by (induction K l es rule: log_history.induct) auto

lemma dev_log_eq: "fst (dev_log s) = dev_lines s"
  by (simp add: dev_log_def)

lemma seq_run_log:
  assumes "seq_run K s ps es t qs" and K: "kernel_ok K" and inv: "drv_inv K s" "\<not> lock (aesd_device s)"
    and "\<forall>e \<in> set es. call_ok (what e) \<and> write_in_full e"
  shows "drv_inv K t \<and> \<not> lock (aesd_device t) \<and> dev_log t = foldl log_write (dev_log s) (written es)
    \<and> log_history K (dev_log s) es"
  using assms(1,5)
proof (induction rule: seq_run.induct)
  case (seq_more es t1 qs e t2)
  then have t1: "drv_inv K t1" "\<not> lock (aesd_device t1)" "dev_log t1 = foldl log_write (dev_log s) (written es)"
    "log_history K (dev_log s) es" by auto
  have e: "call_ok (what e)" "write_in_full e" using seq_more.prems by auto
  note t2 = seq_call_inv [OF seq_more.hyps(4) e(1) K t1(1,2)]
  obtain i a p r pos buf' where d: "e = Done i a p r pos buf'" by (cases e)
  have "dev_log t2 = foldl log_write (dev_log t1) (written [e]) \<and> log_history K (dev_log t1) [e]"
  proof (cases a)
    case (C_read buf n)
    then show ?thesis using seq_more.hyps(4) d aesd_read_spec [OF K t1(1,2), of buf n p]
      by (auto simp: ret_def read_agrees_def dev_log_eq Let_def split: if_splits prod.splits)
  next
    case (C_write buf n)
    then show ?thesis using seq_more.hyps(4) d e aesd_write_in_full(3) [OF K t1(1,2), of n buf t2] by simp
  qed (use seq_more.hyps(4) d in simp_all)
  then show ?case using t1 t2 by (simp add: written_append log_history_append)
qed (use inv in simp)

section \<open>A concrete run\<close>

text \<open>A process writes a line to the fresh device; another one enters a read meanwhile and asks for the size.\<close>

definition copied_driver :: driver where
  "copied_driver = fresh_driver\<lparr>heap := [0 \<mapsto> [CHR ''a'', newline]],
     aesd_device := (aesd_device fresh_driver)\<lparr>lock := True, current_entry := \<lparr>buffptr = Ptr 0, entry_size = 2\<rparr>\<rparr>\<rparr>"

definition slot_driver :: driver where
  "slot_driver = fresh_driver\<lparr>heap := [0 \<mapsto> [CHR ''a'', newline]],
     aesd_device := (aesd_device fresh_driver)\<lparr>lock := True, current_entry := \<lparr>buffptr = Ptr 0, entry_size = 2\<rparr>,
       buffer := aesd_circular_buffer_init\<lparr>entry := (replicate 10 null_entry)[0 := \<lparr>buffptr = Ptr 0, entry_size = 2\<rparr>]\<rparr>\<rparr>\<rparr>"

definition stored_driver :: driver where
  "stored_driver = fresh_driver\<lparr>heap := [0 \<mapsto> [CHR ''a'', newline]],
     aesd_device := (aesd_device fresh_driver)\<lparr>buffer :=
       \<lparr>entry = (replicate 10 null_entry)[0 := \<lparr>buffptr = Ptr 0, entry_size = 2\<rparr>], in_offs = 1, out_offs = 0, full = False\<rparr>\<rparr>\<rparr>"

lemma sample_write_steps:
  "mutex_lock fresh_driver = Inr (locked fresh_driver)"
  "write_fill pool_kernel (locked fresh_driver) [CHR ''a'', newline] 2 = Inr (Inr (0, copied_driver))"
  "write_check pool_kernel copied_driver 0 2 = Inr (Inr copied_driver)"
  "write_store copied_driver = Inr slot_driver"
  "aesd_circular_buffer_get_count (buffer (aesd_device copied_driver)) = 0"
  "write_finish (write_advance slot_driver) 0 2 = (2, stored_driver)"
  by (simp_all add: mutex_lock_def write_fill_def write_reserve_def write_check_def write_evict_def write_store_def write_advance_def
      write_finish_def load_bytes_def store_bytes_def aesd_circular_buffer_get_count_def aesd_circular_buffer_init_def next_offs_def
      mutex_unlock_def slot_driver_def locked_def pool_kernel_def fresh_driver_def copied_driver_def stored_driver_def null_entry_def upt_rec Let_def fun_eq_iff)

lemma stored_driver_lines: "drv_inv pool_kernel stored_driver" "\<not> lock (aesd_device stored_driver)"
  "dev_log stored_driver = ([[CHR ''a'', newline]], [])"
proof -
  obtain s' where s': "aesd_write pool_kernel fresh_driver [CHR ''a'', newline] 2 = Inr (2, s')" "drv_inv pool_kernel s'"
    "\<not> lock (aesd_device s')" "dev_log s' = log_write (dev_log fresh_driver) (take (unat (2::size_t)) [CHR ''a'', newline])"
    by (rule aesd_write_done [OF pool_kernel_ok fresh_driver_inv(1,2), of 2 "[CHR ''a'', newline]"])
      (auto simp: mem_available_def user_readable_def pool_kernel_def fresh_driver_def null_entry_def upt_rec)
  have "s' = stored_driver" using s'(1) by (simp add: aesd_write_steps write_add_def sample_write_steps)
  then show "drv_inv pool_kernel stored_driver" "\<not> lock (aesd_device stored_driver)"
    "dev_log stored_driver = ([[CHR ''a'', newline]], [])"
    using s' by (simp_all add: fresh_driver_inv(4) keep_last_def)
qed

definition sample_calls :: csys where
  "sample_calls = \<lparr>dev = fresh_driver, procs = [\<lparr>f_pos = 0, at = Entered (C_write [CHR ''a'', newline] 2)\<rparr>,
     \<lparr>f_pos = 0, at = Entered (C_read [] 2)\<rparr>]\<rparr>"

definition sample_events :: "fevent list" where
  "sample_events = [Done 0 (C_write [CHR ''a'', newline] 2) 0 2 0 [CHR ''a'', newline], Done 1 (C_read [] 2) 0 2 2 [CHR ''a'', newline]]"

definition sample_returned :: csys where
  "sample_returned = \<lparr>dev = stored_driver, procs = [\<lparr>f_pos = 0, at = User\<rparr>, \<lparr>f_pos = 2, at = User\<rparr>]\<rparr>"

lemma sample_enter: "cruns pool_kernel (idle_system fresh_driver [0, 0]) [] sample_calls"
proof -
  let ?c1 = "\<lparr>dev = fresh_driver, procs = [\<lparr>f_pos = 0, at = Entered (C_write [CHR ''a'', newline] 2)\<rparr>, \<lparr>f_pos = 0, at = User\<rparr>]\<rparr>"
  have "cstep pool_kernel (idle_system fresh_driver [0, 0]) True [] ?c1"
    using enter [of 0 "idle_system fresh_driver [0, 0]" "C_write [CHR ''a'', newline] 2" pool_kernel]
    by (simp add: idle_system_def move_def)
  then have "cruns pool_kernel (idle_system fresh_driver [0, 0]) [] ?c1"
    using more_steps [OF none] by fastforce
  moreover have "cstep pool_kernel ?c1 True [] sample_calls"
    using enter [of 1 ?c1 "C_read [] 2" pool_kernel] by (simp add: sample_calls_def move_def)
  ultimately show ?thesis using more_steps by fastforce
qed

lemma sample_read: "read_locked pool_kernel (locked stored_driver) [] 2 0 = ret (2, 2, [CHR ''a'', newline])"
proof -
  have "dev_lines stored_driver = [[CHR ''a'', newline]]" using stored_driver_lines(3) by (simp add: dev_log_def)
  then have "aesd_read pool_kernel stored_driver [] 2 0 = ret (2, 2, [CHR ''a'', newline], stored_driver)"
    using aesd_read_spec [OF pool_kernel_ok stored_driver_lines(1,2), of "[]" 2 0]
    by (simp add: log_read_def pool_kernel_def ret_def)
  then show ?thesis
    using stored_driver_lines(2)
    by (cases "read_locked pool_kernel (locked stored_driver) [] 2 0")
      (auto simp: aesd_read_steps mutex_lock_free run_bind_def ret_def split: sum.splits)
qed

lemma sample_own: "own_run pool_kernel sample_calls 8 sample_events sample_returned"
proof -
  let ?w = "[CHR ''a'', newline]"
  let ?c = "\<lambda>s a p b. \<lparr>dev = s, procs = [\<lparr>f_pos = 0, at = a\<rparr>, \<lparr>f_pos = p, at = b\<rparr>]\<rparr>"
  let ?r = "Entered (C_read [] 2)"
  note st = move_def finish_def sample_write_steps sample_read
  have 1: "cstep pool_kernel sample_calls False [] (?c (locked fresh_driver) (Locked (C_write ?w 2)) 0 ?r)"
    using acquire [of 0 sample_calls "C_write ?w 2" "locked fresh_driver" pool_kernel] by (simp add: st sample_calls_def)
  have 2: "cstep pool_kernel (?c (locked fresh_driver) (Locked (C_write ?w 2)) 0 ?r) False [] (?c copied_driver (Copied ?w 2 0) 0 ?r)"
    using write_copies [of 0 "?c (locked fresh_driver) (Locked (C_write ?w 2)) 0 ?r" ?w 2 pool_kernel 0 copied_driver]
    by (simp add: st)
  have 3: "cstep pool_kernel (?c copied_driver (Copied ?w 2 0) 0 ?r) False [] (?c copied_driver (Evicted ?w 2) 0 ?r)"
    using write_evicts [of 0 "?c copied_driver (Copied ?w 2 0) 0 ?r" ?w 2 0 pool_kernel copied_driver] by (simp add: st)
  have 4: "cstep pool_kernel (?c copied_driver (Evicted ?w 2) 0 ?r) False [] (?c slot_driver (Stored ?w 2 0) 0 ?r)"
    using write_stores [of 0 "?c copied_driver (Evicted ?w 2) 0 ?r" ?w 2 slot_driver pool_kernel] by (simp add: st)
  have 5: "cstep pool_kernel (?c slot_driver (Stored ?w 2 0) 0 ?r) False [] (?c (write_advance slot_driver) (Advanced ?w 2 0) 0 ?r)"
    using write_advances [of 0 "?c slot_driver (Stored ?w 2 0) 0 ?r" ?w 2 0 pool_kernel] by (simp add: st)
  have 6: "cstep pool_kernel (?c (write_advance slot_driver) (Advanced ?w 2 0) 0 ?r) False [hd sample_events] (?c stored_driver User 0 ?r)"
    using write_finishes [of 0 "?c (write_advance slot_driver) (Advanced ?w 2 0) 0 ?r" ?w 2 0 2 stored_driver pool_kernel]
    by (simp add: st sample_events_def)
  have 7: "cstep pool_kernel (?c stored_driver User 0 ?r) False [] (?c (locked stored_driver) User 0 (Locked (C_read [] 2)))"
    using acquire [of 1 "?c stored_driver User 0 ?r" "C_read [] 2" "locked stored_driver" pool_kernel]
    by (simp add: st mutex_lock_free stored_driver_lines(2))
  have 8: "cstep pool_kernel (?c (locked stored_driver) User 0 (Locked (C_read [] 2))) False [last sample_events] sample_returned"
    using reads [of 1 "?c (locked stored_driver) User 0 (Locked (C_read [] 2))" "[]" 2 pool_kernel 2 2 ?w]
    by (simp add: st sample_events_def sample_returned_def stored_driver_lines(2))
  have "own_run pool_kernel sample_calls (Suc (Suc (Suc (Suc (Suc (Suc (Suc (Suc 0))))))))
      (((((((([] @ []) @ []) @ []) @ []) @ []) @ [hd sample_events]) @ []) @ [last sample_events]) sample_returned"
    by (intro go_on [OF _ 8] go_on [OF _ 7] go_on [OF _ 6] go_on [OF _ 5] go_on [OF _ 4] go_on [OF _ 3] go_on [OF _ 2]
        go_on [OF _ 1] stay)
  then show ?thesis by (simp add: sample_events_def eval_nat_numeral)
qed

lemma sample_run: "cruns pool_kernel (idle_system fresh_driver [0, 0]) sample_events sample_returned"
  using cruns_own [OF sample_own sample_enter] by simp

section \<open>The properties\<close>



text \<open>C8. No call waits for ever: after any run, the processes that are inside a call come to a state in which all of them have
  returned; whatever the schedule, they take at most six more steps each, and one of them can move as long as they have
  not all returned - unless the seek command of one indexes past the array of the ring, which leaves that process at the
  fault.  So the mutex is always given back and nobody is left waiting for it.\<close>

theorem concurrent_calls_return:
  assumes "kernel_ok K" and "drv_inv K s" and "\<not> lock (aesd_device s)" and "cruns K (idle_system s ps) es c"
  shows "(\<exists>n es' d. own_run K c n es' d \<and> returned K d)
    \<and> (\<forall>n es' d. own_run K c n es' d \<longrightarrow> n \<le> 6 * length (procs c)
         \<and> (returned K d \<or> (\<exists>e d'. cstep K d False e d')))"
proof -
  have a: "attended K c" using cruns_inv [OF assms(4,1,2,3)] assms(1) unfolding attended_def by blast
  have "steps_left p \<le> 6" for p by (cases p) auto
  then have "pending c \<le> 6 * length (procs c)"
    using sum_list_map_le [of "procs c" "\<lambda>q. steps_left (at q)" 6] by (simp add: pending_def mult.commute)
  moreover have "n \<le> pending c \<and> (returned K d \<or> (\<exists>e d'. cstep K d False e d'))" if "own_run K c n es' d" for n es' d
  proof -
    have r: "(own_step K ^^ n) c d" using that own_run_steps by blast
    then have "attended K d" "n \<le> pending c" using calls.run_keeps [OF r a] by auto
    then show ?thesis using calls.progress by (auto simp: own_step_def)
  qed
  ultimately show ?thesis using calls.run_to_end [OF a] own_run_steps by (metis order_trans)
qed

theorem concurrent_calls_return_witness:
  "\<exists>n es d. own_run pool_kernel sample_calls n es d \<and> returned pool_kernel d \<and> n \<le> 12"
  using concurrent_calls_return [OF pool_kernel_ok fresh_driver_inv(1,2) sample_enter]
  by (fastforce simp: sample_calls_def)

text \<open>C4. Concurrent writers and readers share one log of lines: when every write stored all its bytes, each read delivers
  what the log held at the point where the read completed - the bytes of the writes that completed before it, cut
  to the last ten lines - and when nobody is in a call the device holds the log of all the writes.  No write is lost,
  torn, or seen half.\<close>

theorem concurrent_writes_form_log:
  assumes K: "kernel_ok K" and inv: "drv_inv K s" "\<not> lock (aesd_device s)" and r: "cruns K (idle_system s ps) es d"
    and full: "list_all write_in_full es"
  shows "log_history K (dev_log s) es
    \<and> ((\<forall>i < length (procs d). \<not> busy (at (procs d ! i))) \<longrightarrow> drv_inv K (dev d)
         \<and> dev_log (dev d) = foldl log_write (dev_log s) (written es))"
proof -
  have ok: "calls_ok d \<and> (\<forall>e \<in> set es. call_ok (what e))"
    using r
  proof (induction rule: cruns.induct)
    case (more_steps es d new e d')
    then show ?case using cstep_calls_ok [OF more_steps.hyps(2)] by auto
  qed (simp add: calls_ok_def idle_system_def)
  obtain t where t: "seq_run K s ps es t (map f_pos (procs d))" "behind K t d"
    using cruns_simulated [OF r inv(2)] by blast
  have "(\<forall>i < length (procs d). \<not> busy (at (procs d ! i))) \<longrightarrow> dev d = t"
    using t(2) midway_locked by (auto simp: behind_def)
  then show ?thesis using seq_run_log [OF t(1) K inv] ok full by (auto simp: list_all_iff)
qed

theorem concurrent_writes_form_log_witness:
  "log_history pool_kernel ([], []) sample_events \<and> dev_log (dev sample_returned) = ([[CHR ''a'', newline]], [])"
  using concurrent_writes_form_log [OF pool_kernel_ok fresh_driver_inv(1,2) sample_run]
  by (simp add: sample_events_def sample_returned_def fresh_driver_inv(4) stored_driver_lines(3))

lemma write_evict_partial:
  assumes "write_evict K t = Inr s" and "aesd_circular_buffer_get_count (buffer (aesd_device s)) = 9"
  shows "s = t"
  using assms by (auto simp: write_evict_def bind_fault_eq_Inr Let_def aesd_circular_buffer_get_count_def split: if_splits)

lemma nine_entries:
  assumes "cb_inv b" and "aesd_circular_buffer_get_count b = 9"
  shows "\<not> full b" and "out_offs b = 0" and "in_offs b = 9"
proof -
  show f: "\<not> full b" using assms(2) by (auto simp: aesd_circular_buffer_get_count_def)
  then show o: "out_offs b = 0" using assms(1) by (simp add: cb_inv_def)
  have "unat (ucast (in_offs b) :: u32) = unat (9 :: u32)"
    using assms(2) f o by (simp add: aesd_circular_buffer_get_count_def)
  then have "unat (in_offs b) = 9" by simp
  then show "in_offs b = 9" by (simp add: word_unat_eq_iff)
qed

text \<open>C37. A seek command can find the device empty although nine lines are stored and a tenth is being written: in every
  interleaved run, while a process that adds the tenth line has moved \<^verbatim>\<open>in_offs\<close> and not yet set \<^verbatim>\<open>full\<close>, the number of
  entries computes to 0 and every seek command of any process returns \<^verbatim>\<open>-EINVAL\<close>, because it does not take the
  mutex.\<close>

theorem seek_finds_empty_device_during_write:
  assumes K: "kernel_ok K" and "drv_inv K s" "\<not> lock (aesd_device s)" and r: "cruns K (idle_system s ps) es c"
    and h: "h < length (procs c)" "at (procs c ! h) = Advanced buf n 9" and "get_seekto K arg = (q, 0)"
  shows "unlocked_ioctl K (dev c) pos (AESDCHAR_IOCSEEKTO K) arg = Some (Inr (- EINVAL, pos))"
proof -
  obtain t where t: "behind K t c" "drv_inv K t" using cruns_inv [OF r K assms(2,3)] by blast
  have "midway K t (Advanced buf n 9) (dev c)" using behind_busy(1) [OF t(1) h(1)] h(2) by simp
  then obtain t3 t4 where e: "midway K t (Evicted buf n) t3" "write_store t3 = Inr t4" "dev c = write_advance t4"
    "aesd_circular_buffer_get_count (buffer (aesd_device t3)) = 9"
    unfolding midway_advanced midway_stored by metis
  obtain t1 where "buffer (aesd_device t1) = buffer (aesd_device t)" "write_evict K t1 = Inr t3"
    using midway_evicted(2) [OF e(1)] by blast
  then have "cb_inv (buffer (aesd_device t3))"
    using write_evict_partial e(4) drv_invD(1) [OF t(2)] by metis
  note b = nine_entries [OF this e(4)]
  have "aesd_circular_buffer_get_count (buffer (aesd_device (dev c))) = 0"
    using b e(2,3)
    by (auto simp: write_store_def write_advance_def next_offs_def aesd_circular_buffer_get_count_def Let_def split: if_splits)
  then have "aesd_adjust_file_offset (dev c) pos cmd off = Some (Inr (- EINVAL, pos))" for cmd off
    by (simp add: aesd_adjust_file_offset_def)
  then show ?thesis using ioctl_seekto [OF K] assms(7) by simp
qed

text \<open>A device with nine lines, and a process on its way to add the tenth.\<close>

definition nine_driver :: driver where
  "nine_driver = fresh_driver\<lparr>
     aesd_device := (aesd_device fresh_driver)\<lparr>buffer :=
       \<lparr>entry = map (\<lambda>i. \<lparr>buffptr = Ptr i, entry_size = 1\<rparr>) [0..<9] @ [null_entry], in_offs = 9, out_offs = 0, full = False\<rparr>\<rparr>,
     heap := (\<lambda>a. if a < 9 then Some [newline] else None)\<rparr>"

lemma nine_driver_inv: "drv_inv pool_kernel nine_driver" "\<not> lock (aesd_device nine_driver)"
proof -
  have cb: "cb_inv (buffer (aesd_device nine_driver))"
    by (simp add: nine_driver_def cb_inv_def cb_shape_def)
  have r: "ring_of nine_driver = map (\<lambda>i. \<lparr>buffptr = Ptr i, entry_size = 1\<rparr>) [0..<9]"
    by (subst cb_list_not_full [OF cb]) (simp_all add: nine_driver_def)
  have "entry_addrs (map (\<lambda>i. \<lparr>buffptr = Ptr i, entry_size = 1\<rparr>) is) = is" for "is"
    by (induction "is") (auto simp: entry_addrs_def)
  then have d: "distinct (entry_addrs (ring_of nine_driver))" unfolding r by simp
  have cur: "buffptr (cur_of nine_driver) = NULL" and h: "heap nine_driver = (\<lambda>a. if a < 9 then Some [newline] else None)"
    and m: "kmalloc_max pool_kernel = 4194304"
    by (simp_all add: nine_driver_def fresh_driver_def null_entry_def pool_kernel_def)
  have "list_all (line_ok pool_kernel (heap nine_driver)) (ring_of nine_driver)"
    unfolding r by (auto simp: list_all_iff line_ok_def block_ok_def entry_bytes_def h m)
  with cb d cur show "drv_inv pool_kernel nine_driver" by (simp add: drv_inv_def drv_addrs_def)
qed (simp add: nine_driver_def fresh_driver_def)

definition tenth_copied :: driver where
  "tenth_copied = nine_driver\<lparr>heap := (heap nine_driver)(9 \<mapsto> [newline]),
     aesd_device := (aesd_device nine_driver)\<lparr>lock := True, current_entry := \<lparr>buffptr = Ptr 9, entry_size = 1\<rparr>\<rparr>\<rparr>"

lemma tenth_write_steps:
  "write_fill pool_kernel (locked nine_driver) [newline] 1 = Inr (Inr (0, tenth_copied))"
  "write_check pool_kernel tenth_copied 0 1 = Inr (Inr tenth_copied)"
  "aesd_circular_buffer_get_count (buffer (aesd_device tenth_copied)) = 9"
  "\<exists>s. write_store tenth_copied = Inr s"
  by (simp_all add: write_fill_def write_reserve_def write_check_def write_evict_def write_store_def load_bytes_def
      store_bytes_def aesd_circular_buffer_get_count_def locked_def pool_kernel_def fresh_driver_def nine_driver_def tenth_copied_def
      null_entry_def upt_rec Let_def fun_eq_iff)

lemma quiet_step: "cruns K c0 es c \<Longrightarrow> cstep K c new [] d \<Longrightarrow> cruns K c0 es d"
  using more_steps [of K c0 es c new "[]" d] by simp

lemma tenth_line_run:
  "\<exists>c. cruns pool_kernel (idle_system nine_driver [0, 0]) [] c \<and> length (procs c) = 2 \<and> at (procs c ! 0) = Advanced [newline] 1 9"
proof -
  let ?c = "\<lambda>s a. \<lparr>dev = s, procs = [\<lparr>f_pos = 0, at = a\<rparr>, \<lparr>f_pos = 0, at = User\<rparr>]\<rparr>"
  let ?w = "C_write [newline] 1"
  note st = move_def tenth_write_steps
  obtain s where s: "write_store tenth_copied = Inr s" using tenth_write_steps(4) by blast
  have 1: "cstep pool_kernel (idle_system nine_driver [0, 0]) True [] (?c nine_driver (Entered ?w))"
    using enter [of 0 "idle_system nine_driver [0, 0]" ?w pool_kernel] by (simp add: st idle_system_def)
  have 2: "cstep pool_kernel (?c nine_driver (Entered ?w)) False [] (?c (locked nine_driver) (Locked ?w))"
    using acquire [of 0 "?c nine_driver (Entered ?w)" ?w "locked nine_driver" pool_kernel]
    by (simp add: st mutex_lock_free nine_driver_inv(2))
  have 3: "cstep pool_kernel (?c (locked nine_driver) (Locked ?w)) False [] (?c tenth_copied (Copied [newline] 1 0))"
    using write_copies [of 0 "?c (locked nine_driver) (Locked ?w)" "[newline]" 1 pool_kernel 0 tenth_copied] by (simp add: st)
  have 4: "cstep pool_kernel (?c tenth_copied (Copied [newline] 1 0)) False [] (?c tenth_copied (Evicted [newline] 1))"
    using write_evicts [of 0 "?c tenth_copied (Copied [newline] 1 0)" "[newline]" 1 0 pool_kernel tenth_copied] by (simp add: st)
  have 5: "cstep pool_kernel (?c tenth_copied (Evicted [newline] 1)) False [] (?c s (Stored [newline] 1 9))"
    using write_stores [of 0 "?c tenth_copied (Evicted [newline] 1)" "[newline]" 1 s pool_kernel] by (simp add: st s)
  have 6: "cstep pool_kernel (?c s (Stored [newline] 1 9)) False [] (?c (write_advance s) (Advanced [newline] 1 9))"
    using write_advances [of 0 "?c s (Stored [newline] 1 9)" "[newline]" 1 9 pool_kernel] by (simp add: st)
  have "cruns pool_kernel (idle_system nine_driver [0, 0]) [] (?c (write_advance s) (Advanced [newline] 1 9))"
    by (rule quiet_step [OF quiet_step [OF quiet_step [OF quiet_step [OF quiet_step [OF quiet_step [OF none 1] 2] 3] 4] 5] 6])
  then show ?thesis by (intro exI [of _ "?c (write_advance s) (Advanced [newline] 1 9)"]) simp
qed

theorem seek_finds_empty_device_during_write_witness:
  "\<exists>c. cruns pool_kernel (idle_system nine_driver [0, 0]) [] c
     \<and> unlocked_ioctl pool_kernel (dev c) 7 (AESDCHAR_IOCSEEKTO pool_kernel) 0 = Some (Inr (- EINVAL, 7))"
proof -
  obtain c where c: "cruns pool_kernel (idle_system nine_driver [0, 0]) [] c" "length (procs c) = 2"
    "at (procs c ! 0) = Advanced [newline] 1 9"
    using tenth_line_run by blast
  have "get_seekto pool_kernel 0 = (\<lparr>write_cmd = 0, write_cmd_offset = 0\<rparr>, 0)" by (simp add: pool_kernel_def)
  then show ?thesis
    using seek_finds_empty_device_during_write [OF pool_kernel_ok nine_driver_inv c(1) _ c(3)] c(1,2) by auto
qed

end
