(* ===== verification/C_Strings.thy ===== *)
theory C_Strings
  imports Aesd_Prelude
begin

text \<open>
  The string functions of the C library that the server uses on its line buffer.  A buffer is the list of
  the bytes stored before the terminator \<^verbatim>\<open>fgets\<close> appends; its C string is what precedes the first NUL.
  \<open>strtol\<close> follows the C standard for base 10: leading white space, an optional sign, digits, and
  saturation at the limits of a 64-bit \<^verbatim>\<open>long\<close>; it returns the value and the number of characters
  consumed (zero when there is no digit, which is \<^verbatim>\<open>*endptr == nptr\<close>).
\<close>

definition cstr :: "string \<Rightarrow> string" where
  "cstr buf = takeWhile (\<lambda>c. c \<noteq> nul) buf"

definition strlen :: "string \<Rightarrow> nat" where
  "strlen buf = length (cstr buf)"

text \<open>Reading a C string at an index up to its terminator.\<close>

definition char_at :: "string \<Rightarrow> nat \<Rightarrow> char" where
  "char_at s i = (if i < length s then s ! i else nul)"

text \<open>\<^verbatim>\<open>strncmp\<close> is zero: the strings agree on their first \<open>n\<close> characters, or end together before.\<close>

fun strncmp_eq :: "string \<Rightarrow> string \<Rightarrow> nat \<Rightarrow> bool" where
  "strncmp_eq s t 0 = True"
| "strncmp_eq [] [] (Suc n) = True"
| "strncmp_eq (c # s) (d # t) (Suc n) = (c = d \<and> strncmp_eq s t n)"
| "strncmp_eq s t n = False"

definition isspace :: "char \<Rightarrow> bool" where
  "isspace c \<longleftrightarrow> c = CHR 0x20 \<or> (9 \<le> (of_char c :: nat) \<and> (of_char c :: nat) \<le> 13)"

definition isdigit :: "char \<Rightarrow> bool" where
  "isdigit c \<longleftrightarrow> 48 \<le> (of_char c :: nat) \<and> (of_char c :: nat) \<le> 57"

definition dec_value :: "string \<Rightarrow> nat" where
  "dec_value ds = foldl (\<lambda>v c. 10 * v + (of_char c - 48)) 0 ds"

definition LONG_MAX :: int where "LONG_MAX = 2 ^ 63 - 1"

definition LONG_MIN :: int where "LONG_MIN = - (2 ^ 63)"

definition skip_sign :: "string \<Rightarrow> bool \<times> nat \<times> string" where
  "skip_sign s = (case s of [] \<Rightarrow> (False, 0, s)
     | c # r \<Rightarrow> if c = CHR ''-'' then (True, 1, r) else if c = CHR ''+'' then (False, 1, r) else (False, 0, s))"

definition strtol :: "string \<Rightarrow> int \<times> nat" where
  "strtol s =
     (let ws = length (takeWhile isspace s);
          (neg, n, r) = skip_sign (drop ws s);
          ds = takeWhile isdigit r;
          v = int (dec_value ds)
      in if ds = [] then (0, 0)
         else (max LONG_MIN (min LONG_MAX (if neg then - v else v)), ws + n + length ds))"

text \<open>Decimal printing, the inverse of reading a number.\<close>

fun show_dec :: "nat \<Rightarrow> string" where
  "show_dec n = (if n < 10 then [char_of (48 + n)] else show_dec (n div 10) @ [char_of (48 + n mod 10)])"

declare show_dec.simps [simp del]

lemma cstr_no_nul [simp]: "nul \<notin> set buf \<Longrightarrow> cstr buf = buf"
  by (auto simp: cstr_def takeWhile_eq_all_conv)

lemma cstr_Nil [simp]: "cstr [] = []"
  by (simp add: cstr_def)

lemma nul_not_in_cstr [simp]: "nul \<notin> set (cstr buf)"
  unfolding cstr_def by (induction buf) auto

lemma cstr_eq_Nil_iff: "cstr buf = [] \<longleftrightarrow> buf = [] \<or> hd buf = nul"
  by (cases buf) (auto simp: cstr_def)

lemma length_cstr_le: "length (cstr buf) \<le> length buf"
  by (simp add: cstr_def length_takeWhile_le)

lemma strncmp_eq_take: "length p = n \<Longrightarrow> strncmp_eq p s n \<longleftrightarrow> take n s = p"
proof (induction p arbitrary: s n)
  case (Cons c p)
  then show ?case by (cases s; cases n) auto
qed simp

lemma char_of_digit [simp]:
  assumes "(d :: nat) < 10"
  shows "isdigit (char_of (48 + d))" and "of_char (char_of (48 + d) :: char) = 48 + d"
proof -
  have "(48 + d) mod 256 = 48 + d" using assms by simp
  then show "of_char (char_of (48 + d) :: char) = 48 + d" by (simp add: of_char_of)
  then show "isdigit (char_of (48 + d))" using assms by (simp add: isdigit_def)
qed

lemma show_dec_digits: "list_all isdigit (show_dec n) \<and> show_dec n \<noteq> []"
proof (induction n rule: show_dec.induct)
  case (1 n)
  show ?case
    using 1 by (subst (1 2) show_dec.simps) (auto simp: char_of_digit(1) [of "n mod 10"])
qed

lemma dec_value_snoc: "dec_value (ds @ [c]) = 10 * dec_value ds + (of_char c - 48)"
  by (simp add: dec_value_def)

lemma dec_value_show_dec [simp]: "dec_value (show_dec n) = n"
proof (induction n rule: show_dec.induct)
  case (1 n)
  show ?case
  proof (cases "n < 10")
    case True
    then show ?thesis by (subst show_dec.simps) (simp add: dec_value_def)
  next
    case False
    then show ?thesis
      using 1 char_of_digit(2) [of "n mod 10"] by (subst show_dec.simps) (simp add: dec_value_snoc)
  qed
qed

lemma isdigit_not_space_sign:
  "isdigit c \<Longrightarrow> \<not> isspace c \<and> c \<noteq> CHR ''-'' \<and> c \<noteq> CHR ''+'' \<and> c \<noteq> nul \<and> c \<noteq> newline \<and> c \<noteq> CHR '',''"
  by (auto simp: isdigit_def isspace_def)

lemma strtol_show_dec:
  assumes "r = [] \<or> \<not> isdigit (hd r)" and "int n \<le> LONG_MAX"
  shows "strtol (show_dec n @ r) = (int n, length (show_dec n))"
proof -
  have d: "\<And>c. c \<in> set (show_dec n) \<Longrightarrow> isdigit c" "show_dec n \<noteq> []"
    using show_dec_digits [of n] by (auto simp: list_all_iff)
  have h: "isdigit (hd (show_dec n))" using d by (simp add: hd_in_set)
  obtain c cs where c: "show_dec n = c # cs" using d(2) by (cases "show_dec n") auto
  have ws: "takeWhile isspace (show_dec n @ r) = []" using h c isdigit_not_space_sign by auto
  have sg: "skip_sign (show_dec n @ r) = (False, 0, show_dec n @ r)"
    using h c isdigit_not_space_sign by (auto simp: skip_sign_def)
  have "takeWhile isdigit r = []" using assms(1) by (cases r) auto
  then have ds: "takeWhile isdigit (show_dec n @ r) = show_dec n"
    using d(1) by (simp add: takeWhile_append2)
  show ?thesis using d(2) assms(2) by (simp add: strtol_def ws sg ds LONG_MIN_def)
qed

lemma strtol_range: "LONG_MIN \<le> fst (strtol s) \<and> fst (strtol s) \<le> LONG_MAX"
  by (auto simp: strtol_def LONG_MIN_def LONG_MAX_def Let_def split: prod.splits)

lemma skip_sign_length: "skip_sign s = (neg, n, r) \<Longrightarrow> n + length r = length s"
  by (auto simp: skip_sign_def split: list.splits if_splits)

lemma strtol_consumes_le: "snd (strtol s) \<le> length s"
proof -
  let ?ws = "takeWhile isspace s"
  obtain neg n r where sg: "skip_sign (drop (length ?ws) s) = (neg, n, r)" by (metis prod_cases3)
  have "n + length r = length (drop (length ?ws) s)"
    using sg by (rule skip_sign_length)
  moreover have "length ?ws \<le> length s" by (rule length_takeWhile_le)
  moreover have "length (takeWhile isdigit r) \<le> length r" by (rule length_takeWhile_le)
  ultimately show ?thesis by (auto simp: strtol_def sg Let_def)
qed

end
