(* ===== verification/C_Stdio.thy ===== *)
theory C_Stdio
  imports C_Strings
begin

text \<open>
  The buffered streams of the C library that the server uses, over the system calls of a file
  descriptor.  A descriptor of state \<open>'b\<close> is given by its calls (\<open>fd_ops\<close>); \<^verbatim>\<open>read\<close> returns the bytes (none
  at the end of the input) or an error, \<^verbatim>\<open>write\<close> the number of bytes taken or an error.  Using an update
  stream in the wrong order (output directly after input that did not meet the end, or input after
  output that was not flushed) is undefined in C and the fault \<open>Stream_order\<close> here.

  Two interfaces are stated as locales: \<open>byte_source\<close>, what a readable descriptor promises, and
  \<open>byte_sink\<close>, what a writable one promises.  The lemmas on \<^verbatim>\<open>fgets\<close>, \<^verbatim>\<open>fwrite\<close> and \<^verbatim>\<open>fflush\<close> are proved there once;
  sockets, regular files and the character device interpret them.
\<close>

section \<open>Streams\<close>

datatype stream_dir = Idle | Reading | Writing

record 'b FILE =
  file_fd :: 'b
  rbuf :: string
  wbuf :: string
  eof_seen :: bool
  err_seen :: bool
  dir :: stream_dir

text \<open>\<open>sys_lseek\<close> returns the new position or a negative value; \<open>sys_ioctl\<close> is the \<^verbatim>\<open>ioctl\<close> call with the
  request the server uses, whose two arguments are the members of the structure passed.\<close>

record 'b fd_ops =
  sys_read :: "'b \<Rightarrow> nat \<Rightarrow> (string option \<times> 'b) run"
  sys_write :: "'b \<Rightarrow> string \<Rightarrow> (nat option \<times> 'b) run"
  sys_lseek :: "'b \<Rightarrow> int \<Rightarrow> int \<Rightarrow> (int \<times> 'b) run"
  sys_ioctl :: "'b \<Rightarrow> u32 \<Rightarrow> u32 \<Rightarrow> (int \<times> 'b) run"

abbreviation (input) SEEK_SET :: int where "SEEK_SET \<equiv> 0"
abbreviation (input) SEEK_CUR :: int where "SEEK_CUR \<equiv> 1"

definition BUFSIZ :: nat where "BUFSIZ = 4096"

definition fdopen :: "'b \<Rightarrow> 'b FILE" where
  "fdopen b = \<lparr>file_fd = b, rbuf = [], wbuf = [], eof_seen = False, err_seen = False, dir = Idle\<rparr>"

lemma fdopen_sel [simp]:
  "file_fd (fdopen b) = b" "rbuf (fdopen b) = []" "wbuf (fdopen b) = []" "dir (fdopen b) = Idle"
  "\<not> eof_seen (fdopen b)"
  by (simp_all add: fdopen_def)

datatype getc_res = Got char | At_eof | Read_error

definition fgetc :: "('b \<Rightarrow> nat \<Rightarrow> (string option \<times> 'b) run) \<Rightarrow> 'b FILE \<Rightarrow> (getc_res \<times> 'b FILE) run" where
  "fgetc rd f =
     (if dir f = Writing then Some (Inl Stream_order)
      else case rbuf f of
        c # cs \<Rightarrow> ret (Got c, f\<lparr>rbuf := cs, dir := Reading\<rparr>)
      | [] \<Rightarrow>
          if eof_seen f then ret (At_eof, f\<lparr>dir := Idle\<rparr>)
          else run_bind (rd (file_fd f) BUFSIZ) (\<lambda>(r, b).
            case r of
              None \<Rightarrow> ret (Read_error, f\<lparr>file_fd := b, err_seen := True, dir := Reading\<rparr>)
            | Some [] \<Rightarrow> ret (At_eof, f\<lparr>file_fd := b, eof_seen := True, dir := Idle\<rparr>)
            | Some (c # cs) \<Rightarrow> ret (Got c, f\<lparr>file_fd := b, rbuf := cs, dir := Reading\<rparr>)))"

datatype chunk_end = Chunk_full | Chunk_eof | Chunk_err

fun fgets_chars ::
  "('b \<Rightarrow> nat \<Rightarrow> (string option \<times> 'b) run) \<Rightarrow> nat \<Rightarrow> 'b FILE \<Rightarrow> ((string \<times> chunk_end) \<times> 'b FILE) run"
where
  "fgets_chars rd 0 f = ret (([], Chunk_full), f)"
| "fgets_chars rd (Suc n) f =
     run_bind (fgetc rd f) (\<lambda>(r, f).
       case r of
         At_eof \<Rightarrow> ret (([], Chunk_eof), f)
       | Read_error \<Rightarrow> ret (([], Chunk_err), f)
       | Got c \<Rightarrow>
           if c = newline then ret (([c], Chunk_full), f)
           else run_bind (fgets_chars rd n f) (\<lambda>((cs, e), f). ret ((c # cs, e), f)))"

text \<open>\<^verbatim>\<open>fgets\<close>: at most \<open>sz - 1\<close> characters, through the first newline; NULL on an error, and at the end of
  the input when no character was read.\<close>

definition fgets ::
  "('b \<Rightarrow> nat \<Rightarrow> (string option \<times> 'b) run) \<Rightarrow> nat \<Rightarrow> 'b FILE \<Rightarrow> (string option \<times> 'b FILE) run"
where
  "fgets rd sz f =
     run_bind (fgets_chars rd (sz - 1) f) (\<lambda>((cs, e), f).
       ret (if e = Chunk_err \<or> cs = [] then None else Some cs, f))"

text \<open>Transmission of a buffer: repeated \<^verbatim>\<open>write\<close> calls until everything is taken or one fails.\<close>

partial_function (option) write_all ::
  "('b \<Rightarrow> string \<Rightarrow> (nat option \<times> 'b) run) \<Rightarrow> 'b \<Rightarrow> string \<Rightarrow> (bool \<times> 'b) run"
where
  "write_all wr b bs =
     (if bs = [] then ret (True, b)
      else run_bind (wr b bs) (\<lambda>(r, b').
        case r of None \<Rightarrow> ret (False, b') | Some k \<Rightarrow> write_all wr b' (drop k bs)))"

lemma write_all_Nil [simp]: "write_all wr b [] = ret (True, b)"
  by (subst write_all.simps) simp

definition fwrite ::
  "('b \<Rightarrow> string \<Rightarrow> (nat option \<times> 'b) run) \<Rightarrow> string \<Rightarrow> 'b FILE \<Rightarrow> (nat \<times> 'b FILE) run"
where
  "fwrite wr bs f =
     (if bs = [] then ret (0, f)
      else if dir f = Reading then Some (Inl Stream_order)
      else if length (wbuf f) + length bs < BUFSIZ
        then ret (length bs, f\<lparr>wbuf := wbuf f @ bs, dir := Writing\<rparr>)
      else run_bind (write_all wr (file_fd f) (wbuf f @ bs)) (\<lambda>(ok, b).
        ret (if ok then length bs else 0,
             f\<lparr>file_fd := b, wbuf := [], err_seen := err_seen f \<or> \<not> ok, dir := Writing\<rparr>)))"

definition fflush ::
  "('b \<Rightarrow> string \<Rightarrow> (nat option \<times> 'b) run) \<Rightarrow> 'b FILE \<Rightarrow> (int \<times> 'b FILE) run"
where
  "fflush wr f =
     (if dir f = Reading then Some (Inl Stream_order)
      else run_bind (write_all wr (file_fd f) (wbuf f)) (\<lambda>(ok, b).
        ret (if ok then 0 else -1,
             f\<lparr>file_fd := b, wbuf := [], err_seen := err_seen f \<or> \<not> ok, dir := Idle\<rparr>)))"

definition fseek :: "'b fd_ops \<Rightarrow> int \<Rightarrow> int \<Rightarrow> 'b FILE \<Rightarrow> (int \<times> 'b FILE) run" where
  "fseek ops offset whence f =
     run_bind (write_all (sys_write ops) (file_fd f) (wbuf f)) (\<lambda>(ok, b).
       let f1 = f\<lparr>file_fd := b, wbuf := []\<rparr> in
       if \<not> ok then ret (-1, f1\<lparr>err_seen := True\<rparr>)
       else
         run_bind (sys_lseek ops b
             (if whence = SEEK_CUR then offset - int (length (rbuf f)) else offset) whence) (\<lambda>(r, b).
           if r < 0 then ret (-1, f1\<lparr>file_fd := b\<rparr>)
           else ret (0, f1\<lparr>file_fd := b, rbuf := [], eof_seen := False, dir := Idle\<rparr>)))"

definition rewind :: "'b fd_ops \<Rightarrow> 'b FILE \<Rightarrow> 'b FILE run" where
  "rewind ops f = run_bind (fseek ops 0 SEEK_SET f) (\<lambda>(_, f). ret (f\<lparr>err_seen := False\<rparr>))"

section \<open>The pieces in which a text is read\<close>

fun first_chunk :: "nat \<Rightarrow> string \<Rightarrow> string" where
  "first_chunk 0 s = []"
| "first_chunk (Suc n) [] = []"
| "first_chunk (Suc n) (c # s) = c # (if c = newline then [] else first_chunk n s)"

text \<open>The text ends before \<open>n\<close> characters or a newline were found.\<close>

fun ran_out :: "nat \<Rightarrow> string \<Rightarrow> bool" where
  "ran_out 0 s = False"
| "ran_out (Suc n) [] = True"
| "ran_out (Suc n) (c # s) = (c \<noteq> newline \<and> ran_out n s)"

lemma first_chunk_prefix: "s = first_chunk n s @ drop (length (first_chunk n s)) s"
  by (induction n s rule: first_chunk.induct) auto

lemma first_chunk_drop [simp]:
  "first_chunk n s @ drop (length (first_chunk n s)) s = s"
  using first_chunk_prefix [of s n] by simp

lemma length_first_chunk: "length (first_chunk n s) \<le> n"
  by (induction n s rule: first_chunk.induct) auto

lemma length_first_chunk_le: "length (first_chunk n s) \<le> length s"
  by (induction n s rule: first_chunk.induct) auto

lemma set_first_chunk: "set (first_chunk n s) \<subseteq> set s"
  by (induction n s rule: first_chunk.induct) auto

lemma first_chunk_eq_Nil [simp]: "0 < n \<Longrightarrow> first_chunk n s = [] \<longleftrightarrow> s = []"
  by (cases n; cases s) auto

lemma ran_out_all: "ran_out n s \<Longrightarrow> first_chunk n s = s \<and> newline \<notin> set s"
  by (induction n s rule: ran_out.induct) auto

text \<open>A piece that is not last holds no newline but at its end.\<close>

lemma first_chunk_newline:
  "newline \<in> set (first_chunk n s) \<Longrightarrow> \<exists>p. first_chunk n s = p @ [newline] \<and> newline \<notin> set p"
proof (induction n s rule: first_chunk.induct)
  case (3 n c s)
  then show ?case
  proof (cases "c = newline")
    case True
    then show ?thesis by (intro exI [of _ "[]"]) simp
  next
    case False
    then obtain p where "first_chunk n s = p @ [newline]" "newline \<notin> set p" using 3 by auto
    then show ?thesis using False by (intro exI [of _ "c # p"]) simp
  qed
qed auto

function chunks :: "nat \<Rightarrow> string \<Rightarrow> string list" where
  "chunks n s = (if n = 0 \<or> s = [] then []
     else first_chunk n s # chunks n (drop (length (first_chunk n s)) s))"
  by pat_completeness auto
termination
  by (relation "measure (\<lambda>(n, s). length s)") (auto simp: length_first_chunk_le)

declare chunks.simps [simp del]

lemma chunks_Nil [simp]: "chunks n [] = []"
  by (simp add: chunks.simps)

lemma chunks_nonempty:
  "0 < n \<Longrightarrow> s \<noteq> [] \<Longrightarrow> chunks n s = first_chunk n s # chunks n (drop (length (first_chunk n s)) s)"
  by (subst chunks.simps) simp

lemma concat_chunks [simp]: "0 < n \<Longrightarrow> concat (chunks n s) = s"
proof (induction n s rule: chunks.induct)
  case (1 n s)
  then show ?case by (cases "s = []") (simp_all add: chunks_nonempty)
qed

lemma chunks_no_nul: "0 < n \<Longrightarrow> nul \<notin> set s \<Longrightarrow> concat (map cstr (chunks n s)) = s"
proof -
  assume "0 < n" and s: "nul \<notin> set s"
  then have c: "concat (chunks n s) = s" by simp
  then have "\<forall>x \<in> set (chunks n s). nul \<notin> set x" using s by (metis UN_I set_concat)
  then have "map cstr (chunks n s) = chunks n s" by (simp add: map_idI)
  then show ?thesis using c by simp
qed

section \<open>Sources of bytes\<close>

text \<open>What can still be read from a stream: the buffered bytes and those the descriptor will deliver.\<close>

definition avail :: "('b \<Rightarrow> string) \<Rightarrow> 'b FILE \<Rightarrow> string" where
  "avail pending f = rbuf f @ pending (file_fd f)"

text \<open>Nothing buffered and free for either direction.\<close>

definition idle_stream :: "'b FILE \<Rightarrow> bool" where
  "idle_stream f \<longleftrightarrow> wbuf f = [] \<and> rbuf f = [] \<and> dir f = Idle"

definition source_ok :: "('b \<Rightarrow> bool) \<Rightarrow> ('b \<Rightarrow> string) \<Rightarrow> ('b \<Rightarrow> bool) \<Rightarrow> 'b FILE \<Rightarrow> bool" where
  "source_ok good pending broken f \<longleftrightarrow> good (file_fd f) \<and> dir f \<noteq> Writing
     \<and> (eof_seen f \<longrightarrow> avail pending f = [] \<and> \<not> broken (file_fd f))"

text \<open>
  A descriptor that delivers the bytes \<open>pending\<close>, in pieces of any size, and then the end of the input or,
  when \<open>broken\<close>, an error.  \<open>frame\<close> is the part of its state that reading does not change.
\<close>

locale byte_source =
  fixes rd :: "'b \<Rightarrow> nat \<Rightarrow> (string option \<times> 'b) run"
    and good :: "'b \<Rightarrow> bool"
    and pending :: "'b \<Rightarrow> string"
    and broken :: "'b \<Rightarrow> bool"
    and frame :: "'b \<Rightarrow> 'f"
  assumes rd_data: "good b \<Longrightarrow> pending b \<noteq> [] \<Longrightarrow>
      \<exists>d b'. rd b BUFSIZ = ret (Some d, b') \<and> d \<noteq> [] \<and> pending b = d @ pending b'
        \<and> good b' \<and> broken b' = broken b \<and> frame b' = frame b"
    and rd_end: "good b \<Longrightarrow> pending b = [] \<Longrightarrow>
      \<exists>b'. rd b BUFSIZ = ret (if broken b then None else Some [], b') \<and> pending b' = []
        \<and> good b' \<and> broken b' = broken b \<and> frame b' = frame b"
begin

text \<open>What reading keeps: the state of the source that matters and the output buffer.\<close>

abbreviation same :: "'b FILE \<Rightarrow> 'b FILE \<Rightarrow> bool" where
  "same f f' \<equiv> source_ok good pending broken f' \<and> broken (file_fd f') = broken (file_fd f)
     \<and> frame (file_fd f') = frame (file_fd f) \<and> wbuf f' = wbuf f"

lemma fgetc_data:
  assumes ok: "source_ok good pending broken f" and av: "avail pending f = c # cs"
  shows "\<exists>f'. fgetc rd f = ret (Got c, f') \<and> same f f' \<and> avail pending f' = cs
    \<and> dir f' = Reading \<and> \<not> eof_seen f'"
proof (cases "rbuf f")
  case (Cons d ds)
  then have "d = c" "ds @ pending (file_fd f) = cs" "\<not> eof_seen f"
    using av ok by (auto simp: avail_def source_ok_def)
  then show ?thesis using ok Cons by (auto simp: fgetc_def source_ok_def avail_def)
next
  case Nil
  then have p: "pending (file_fd f) = c # cs" "\<not> eof_seen f" "good (file_fd f)" "dir f \<noteq> Writing"
    using av ok by (auto simp: avail_def source_ok_def)
  obtain d b' where d: "rd (file_fd f) BUFSIZ = ret (Some d, b')" "d \<noteq> []" "pending (file_fd f) = d @ pending b'"
    "good b'" "broken b' = broken (file_fd f)" "frame b' = frame (file_fd f)"
    using rd_data [OF p(3)] p(1) by auto
  then obtain e es where "d = e # es" by (cases d) auto
  then show ?thesis using d p Nil by (auto simp: fgetc_def source_ok_def avail_def)
qed

lemma fgetc_end:
  assumes ok: "source_ok good pending broken f" and av: "avail pending f = []"
  shows "\<exists>f'. fgetc rd f = ret (if broken (file_fd f) then Read_error else At_eof, f') \<and> same f f'
    \<and> avail pending f' = [] \<and> (\<not> broken (file_fd f) \<longrightarrow> eof_seen f' \<and> dir f' = Idle)
    \<and> (broken (file_fd f) \<longrightarrow> \<not> eof_seen f')"
proof (cases "eof_seen f")
  case True
  then show ?thesis using ok av by (auto simp: fgetc_def source_ok_def avail_def)
next
  case False
  have p: "rbuf f = []" "pending (file_fd f) = []" "good (file_fd f)" "dir f \<noteq> Writing"
    using ok av by (auto simp: source_ok_def avail_def)
  obtain b' where "rd (file_fd f) BUFSIZ = ret (if broken (file_fd f) then None else Some [], b')"
    "pending b' = []" "good b'" "broken b' = broken (file_fd f)" "frame b' = frame (file_fd f)"
    using rd_end [OF p(3,2)] by auto
  then show ?thesis using p False by (auto simp: fgetc_def source_ok_def avail_def)
qed

lemma fgets_chars_reads:
  "source_ok good pending broken f \<Longrightarrow>
    \<exists>f'. fgets_chars rd n f = ret ((first_chunk n (avail pending f),
            if ran_out n (avail pending f) then if broken (file_fd f) then Chunk_err else Chunk_eof
            else Chunk_full), f')
      \<and> same f f' \<and> avail pending f' = drop (length (first_chunk n (avail pending f))) (avail pending f)
      \<and> (ran_out n (avail pending f) \<longrightarrow> (if broken (file_fd f) then \<not> eof_seen f' else eof_seen f' \<and> dir f' = Idle))
      \<and> (\<not> ran_out n (avail pending f) \<and> 0 < n \<longrightarrow> \<not> eof_seen f' \<and> dir f' = Reading)"
proof (induction n arbitrary: f)
  case 0
  then show ?case by simp
next
  case (Suc n)
  show ?case
  proof (cases "avail pending f")
    case Nil
    then show ?thesis using fgetc_end [OF Suc.prems] by auto
  next
    case (Cons c cs)
    obtain f1 where f1: "fgetc rd f = ret (Got c, f1)" "same f f1" "avail pending f1 = cs" "\<not> eof_seen f1"
      "dir f1 = Reading"
      using fgetc_data [OF Suc.prems Cons] by blast
    have ok1: "source_ok good pending broken f1" using f1(2) by simp
    show ?thesis
    proof (cases "c = newline")
      case True
      then show ?thesis using f1 Cons by simp
    next
      case False
      then show ?thesis using Suc.IH [OF ok1] f1 Cons by (cases n) auto
    qed
  qed
qed

lemma fgets_reads:
  assumes ok: "source_ok good pending broken f" and n: "0 < n"
  defines "s \<equiv> avail pending f"
  obtains f' where "fgets rd (Suc n) f = ret (if s = [] \<or> ran_out n s \<and> broken (file_fd f) then None
        else Some (first_chunk n s), f')"
    "same f f'" "avail pending f' = drop (length (first_chunk n s)) s"
    "eof_seen f' \<longleftrightarrow> ran_out n s \<and> \<not> broken (file_fd f)" "eof_seen f' \<Longrightarrow> dir f' = Idle"
    "\<not> ran_out n s \<Longrightarrow> dir f' = Reading"
proof -
  obtain f' where f': "fgets_chars rd n f = ret ((first_chunk n s,
            if ran_out n s then if broken (file_fd f) then Chunk_err else Chunk_eof else Chunk_full), f')"
      "same f f'" "avail pending f' = drop (length (first_chunk n s)) s"
      "ran_out n s \<Longrightarrow> if broken (file_fd f) then \<not> eof_seen f' else eof_seen f' \<and> dir f' = Idle"
      "\<not> ran_out n s \<Longrightarrow> \<not> eof_seen f' \<and> dir f' = Reading"
    using fgets_chars_reads [OF ok, of n] n unfolding s_def by blast
  have "fgets rd (Suc n) f = ret (if s = [] \<or> ran_out n s \<and> broken (file_fd f) then None
        else Some (first_chunk n s), f')"
    using f'(1) n by (auto simp: fgets_def)
  moreover have "eof_seen f' \<longleftrightarrow> ran_out n s \<and> \<not> broken (file_fd f)" "eof_seen f' \<Longrightarrow> dir f' = Idle"
    using f'(4,5) by (cases "ran_out n s"; cases "broken (file_fd f)"; simp)+
  ultimately show ?thesis using that f'(2,3,5) by blast
qed

end

section \<open>Sinks of bytes\<close>

text \<open>A descriptor that takes at least one byte of every write, as long as it is open.\<close>

locale byte_sink =
  fixes wr :: "'s \<Rightarrow> string \<Rightarrow> (nat option \<times> 's) run"
    and up :: "'s \<Rightarrow> bool"
    and taken :: "'s \<Rightarrow> string"
  assumes wr_progress: "up s \<Longrightarrow> bs \<noteq> [] \<Longrightarrow>
      \<exists>k s'. wr s bs = ret (Some k, s') \<and> 0 < k \<and> k \<le> length bs \<and> up s' \<and> taken s' = taken s @ take k bs"
begin

text \<open>All bytes accepted by the stream, in order.\<close>

abbreviation outgoing :: "'s FILE \<Rightarrow> string" where
  "outgoing f \<equiv> taken (file_fd f) @ wbuf f"

abbreviation sink_ok :: "'s FILE \<Rightarrow> bool" where
  "sink_ok f \<equiv> up (file_fd f) \<and> dir f \<noteq> Reading"

lemma write_all_sink:
  "up s \<Longrightarrow> \<exists>s'. write_all wr s bs = ret (True, s') \<and> up s' \<and> taken s' = taken s @ bs"
proof (induction bs arbitrary: s rule: length_induct)
  case (1 bs)
  show ?case
  proof (cases "bs = []")
    case True
    then show ?thesis using 1 by (subst write_all.simps) simp
  next
    case False
    then obtain k s1 where k: "wr s bs = ret (Some k, s1)" "0 < k" "k \<le> length bs" "up s1"
      "taken s1 = taken s @ take k bs"
      using wr_progress [OF 1(2)] by blast
    have "length (drop k bs) < length bs" using k(2,3) by simp
    then obtain s' where s': "write_all wr s1 (drop k bs) = ret (True, s')" "up s'"
      "taken s' = taken s1 @ drop k bs"
      using 1(1) k(4) by blast
    have "write_all wr s bs = write_all wr s1 (drop k bs)"
      using False k(1) by (subst write_all.simps) simp
    then show ?thesis using s' k(5) by auto
  qed
qed

lemma fwrite_sink:
  assumes "sink_ok f"
  obtains f' where "fwrite wr bs f = ret (length bs, f')" "sink_ok f'" "outgoing f' = outgoing f @ bs"
proof -
  consider "bs = []" | "bs \<noteq> []" "length (wbuf f) + length bs < BUFSIZ"
    | "bs \<noteq> []" "\<not> length (wbuf f) + length bs < BUFSIZ" by blast
  then show ?thesis
  proof cases
    case 1
    then show ?thesis using that assms by (simp add: fwrite_def)
  next
    case 2
    then show ?thesis
      using that [of "f\<lparr>wbuf := wbuf f @ bs, dir := Writing\<rparr>"] assms by (simp add: fwrite_def)
  next
    case 3
    then show ?thesis
      using that assms write_all_sink [of "file_fd f" "wbuf f @ bs"] by (auto simp: fwrite_def)
  qed
qed

lemma fflush_sink:
  assumes "sink_ok f"
  obtains f' where "fflush wr f = ret (0, f')" "sink_ok f'" "taken (file_fd f') = outgoing f" "wbuf f' = []"
  using that assms write_all_sink [of "file_fd f" "wbuf f"] by (auto simp: fflush_def)

end

end
