(* ===== verification/Server_Protocol.thy ===== *)
theory Server_Protocol
  imports C_Stdio
begin

text \<open>
  The dialogue of the server with one client, \<^verbatim>\<open>server_protocol\<close> of \<^verbatim>\<open>server/server_impl.c\<close>: lines from the
  socket are appended to the output file until one is complete, or a seek command moves the position in
  it, and the file is then sent back.  The function is modelled over any socket and any output file,
  given by their system calls; the locale \<open>output_store\<close> states what the server relies on in the output
  file, \<open>line_server\<close> puts the three streams together, and the behaviour of the protocol is proved
  there once for both kinds of output file.
\<close>

section \<open>The functions of the server\<close>

datatype ret_t = RET_OK | RET_ERR

definition BUFFER_SIZE :: nat where "BUFFER_SIZE = 256"

definition seek_prefix :: string where "seek_prefix = ''AESDCHAR_IOCSEEKTO:''"

text \<open>Recognition of the command \<^verbatim>\<open>AESDCHAR_IOCSEEKTO:X,Y\<close> in the C string of the buffer; the numbers go through
  \<^verbatim>\<open>long\<close>, \<^verbatim>\<open>int\<close> and \<^verbatim>\<open>uint32_t\<close>, so only their low 32 bits count.\<close>

definition parse_seek :: "string \<Rightarrow> (u32 \<times> u32) option" where
  "parse_seek s =
     (let prefix_length = length seek_prefix in
      if strncmp_eq seek_prefix s prefix_length \<and> length s > prefix_length
         \<and> CHR '','' \<in> set (drop (prefix_length + 1) s)
      then
        let (x, consumed) = strtol (drop prefix_length s) in
        if consumed \<noteq> 0 \<and> char_at s (prefix_length + consumed) = CHR '','' then
          let (y, consumed') = strtol (drop (prefix_length + consumed + 1) s) in
          if consumed' \<noteq> 0 then Some (word_of_int x, word_of_int y) else None
        else None
      else None)"

datatype received = Got_line | Got_seek | Failed

text \<open>The first loop of \<^verbatim>\<open>server_protocol\<close>.  A buffer whose C string is empty makes \<^verbatim>\<open>buffer[length-1]\<close> a read
  before the array.\<close>

partial_function (option) receive_loop ::
  "('i \<Rightarrow> nat \<Rightarrow> (string option \<times> 'i) run) \<Rightarrow> 'b fd_ops \<Rightarrow> 'i FILE \<Rightarrow> 'b FILE
    \<Rightarrow> (received \<times> 'i FILE \<times> 'b FILE) run"
where
  "receive_loop rd ops socket_input output_file =
     run_bind (fgets rd BUFFER_SIZE socket_input) (\<lambda>(fgets_ret, socket_input).
       case fgets_ret of
         None \<Rightarrow> ret (Failed, socket_input, output_file)
       | Some buf \<Rightarrow>
           (case parse_seek (cstr buf) of
              Some (x, y) \<Rightarrow>
                run_bind (sys_ioctl ops (file_fd output_file) x y) (\<lambda>(r, b).
                  ret (if r = -1 then Failed else Got_seek, socket_input, output_file\<lparr>file_fd := b\<rparr>))
            | None \<Rightarrow>
                run_bind (fwrite (sys_write ops) (cstr buf) output_file) (\<lambda>(write_ret, output_file).
                  if strlen buf \<noteq> write_ret then ret (Failed, socket_input, output_file)
                  else
                    run_bind (fflush (sys_write ops) output_file) (\<lambda>(_, output_file).
                      if strlen buf = 0 then Some (Inl Out_of_bounds)
                      else if buf ! (strlen buf - 1) = newline then ret (Got_line, socket_input, output_file)
                      else receive_loop rd ops socket_input output_file))))"

text \<open>The second loop: the rest of the output file goes to the socket.\<close>

partial_function (option) send_loop ::
  "('b \<Rightarrow> nat \<Rightarrow> (string option \<times> 'b) run) \<Rightarrow> ('s \<Rightarrow> string \<Rightarrow> (nat option \<times> 's) run) \<Rightarrow> 'b FILE \<Rightarrow> 's FILE
    \<Rightarrow> (bool \<times> 'b FILE \<times> 's FILE) run"
where
  "send_loop rd wr output_file socket_output =
     run_bind (fgets rd BUFFER_SIZE output_file) (\<lambda>(r, output_file).
       case r of
         None \<Rightarrow> ret (True, output_file, socket_output)
       | Some buf \<Rightarrow>
           run_bind (fwrite wr (cstr buf) socket_output) (\<lambda>(n, socket_output).
             if strlen buf \<noteq> n then ret (False, output_file, socket_output)
             else send_loop rd wr output_file socket_output))"

definition server_protocol ::
  "('i \<Rightarrow> nat \<Rightarrow> (string option \<times> 'i) run) \<Rightarrow> ('s \<Rightarrow> string \<Rightarrow> (nat option \<times> 's) run) \<Rightarrow> 'b fd_ops
    \<Rightarrow> 'i FILE \<Rightarrow> 's FILE \<Rightarrow> 'b FILE \<Rightarrow> (ret_t \<times> 'i FILE \<times> 's FILE \<times> 'b FILE) run"
where
  "server_protocol rd wr ops socket_input socket_output output_file =
     run_bind (receive_loop rd ops socket_input output_file) (\<lambda>(r, socket_input, output_file).
       if r = Failed then ret (RET_ERR, socket_input, socket_output, output_file)
       else
         run_bind (if r \<noteq> Got_seek then rewind ops output_file
                   else run_bind (fseek ops 0 SEEK_CUR output_file) (\<lambda>(_, f). ret f)) (\<lambda>output_file.
         run_bind (send_loop (sys_read ops) wr output_file socket_output) (\<lambda>(sent, output_file, socket_output).
           ret (if \<not> sent then RET_ERR else if \<not> eof_seen output_file then RET_ERR else RET_OK,
                socket_input, socket_output, output_file))))"

section \<open>The seek command\<close>

definition show_seek :: "nat \<Rightarrow> nat \<Rightarrow> string" where
  "show_seek x y = seek_prefix @ show_dec x @ '','' @ show_dec y"

lemma show_dec_set: "c \<in> set (show_dec n) \<Longrightarrow> isdigit c"
  using show_dec_digits [of n] by (simp add: list_all_iff)

lemma parse_seek_show:
  assumes "int x \<le> LONG_MAX" and "int y \<le> LONG_MAX" and r: "r = [] \<or> \<not> isdigit (hd r)"
  shows "parse_seek (show_seek x y @ r) = Some (of_nat x, of_nat y)"
proof -
  let ?t = "show_dec x @ CHR '','' # show_dec y @ r"
  have s: "show_seek x y @ r = seek_prefix @ ?t" by (simp add: show_seek_def)
  have "show_dec x \<noteq> []" using show_dec_digits by blast
  then obtain d ds where d: "show_dec x = d # ds" by (cases "show_dec x") auto
  have x: "strtol ?t = (int x, length (show_dec x))"
    using assms(1) by (intro strtol_show_dec) (simp_all add: isdigit_def)
  have y: "strtol (show_dec y @ r) = (int y, length (show_dec y))"
    using assms(2) r by (rule strtol_show_dec [rotated])
  have pre: "strncmp_eq seek_prefix (seek_prefix @ ?t) (length seek_prefix)"
    by (simp add: strncmp_eq_take)
  have "CHR '','' \<in> set (drop (length seek_prefix + 1) (seek_prefix @ ?t))"
    by (simp add: d)
  moreover have "char_at (seek_prefix @ ?t) (length seek_prefix + length (show_dec x)) = CHR '',''"
    by (simp add: char_at_def nth_append)
  moreover have "drop (length seek_prefix + length (show_dec x) + 1) (seek_prefix @ ?t) = show_dec y @ r"
    by simp
  moreover have "length (show_dec x) \<noteq> 0" "length (show_dec y) \<noteq> 0" using show_dec_digits by auto
  ultimately show ?thesis
    unfolding s parse_seek_def Let_def using pre x y by (simp add: d)
qed

lemma parse_seek_prefix: "parse_seek s \<noteq> None \<Longrightarrow> take (length seek_prefix) s = seek_prefix"
  by (auto simp: parse_seek_def strncmp_eq_take Let_def split: if_splits)

section \<open>Lines and their pieces\<close>

lemma BUFFER_SIZE_Suc: "BUFFER_SIZE = Suc 255"
  by (simp add: BUFFER_SIZE_def)

definition line :: "string \<Rightarrow> bool" where
  "line w \<longleftrightarrow> (\<exists>p. w = p @ [newline] \<and> newline \<notin> set p)"

lemma line_not_Nil: "line w \<Longrightarrow> w \<noteq> []"
  by (auto simp: line_def)

lemma line_last: "line w \<Longrightarrow> last w = newline \<and> newline \<in> set w"
  by (auto simp: line_def)

lemma first_chunk_append:
  "newline \<in> set w \<Longrightarrow> first_chunk n (w @ r) = first_chunk n w \<and> \<not> ran_out n (w @ r)"
proof (induction w arbitrary: n)
  case (Cons c w)
  then show ?case by (cases n) auto
qed simp

lemma first_chunk_of_line:
  assumes "line w" and "0 < n"
  shows "(first_chunk n w = w \<and> chunks n w = [w])
    \<or> (newline \<notin> set (first_chunk n w) \<and> line (drop (length (first_chunk n w)) w))"
proof -
  obtain p where p: "w = p @ [newline]" "newline \<notin> set p" using assms(1) by (auto simp: line_def)
  let ?c = "first_chunk n w" and ?d = "drop (length (first_chunk n w)) w"
  have w: "?c @ ?d = w" by simp
  show ?thesis
  proof (cases "?d" rule: rev_cases)
    case Nil
    then have "?c = w" using w by simp
    moreover have "chunks n w = ?c # chunks n ?d" using assms p by (intro chunks_nonempty) auto
    ultimately show ?thesis using Nil by simp
  next
    case (snoc q x)
    then have "p = ?c @ q" "x = newline" using w p(1) by (metis append_assoc append1_eq_conv)+
    then show ?thesis using p(2) snoc by (auto simp: line_def)
  qed
qed

lemma first_chunk_short:
  assumes "line w" and "length w \<le> n"
  shows "first_chunk n w = w"
proof -
  have "newline \<notin> set p \<Longrightarrow> length (p @ [newline]) \<le> n \<Longrightarrow> first_chunk n (p @ [newline]) = p @ [newline]" for p
  proof (induction p arbitrary: n)
    case Nil
    then show ?case by (cases n) auto
  next
    case (Cons c p)
    then show ?case by (cases n) auto
  qed
  then show ?thesis using assms by (auto simp: line_def)
qed

lemma first_chunk_full: "newline \<notin> set s \<Longrightarrow> \<not> ran_out n s \<Longrightarrow> length (first_chunk n s) = n"
  by (induction n s rule: first_chunk.induct) auto

lemma ran_out_short: "ran_out n s \<Longrightarrow> length s < n"
  by (induction n s rule: ran_out.induct) auto

lemma chunks_ran_out: "ran_out n s \<Longrightarrow> chunks n s = (if s = [] then [] else [s])"
  using ran_out_all [of n s] ran_out_short [of n s] by (subst chunks.simps) auto

text \<open>Without newlines the pieces are full but the last.\<close>

lemma full_chunks:
  "newline \<notin> set s \<Longrightarrow> 0 < n \<Longrightarrow>
     concat (filter (\<lambda>c. length c = n \<or> b) (chunks n s)) = (if b then s else take (length s div n * n) s)"
proof (induction "length s" arbitrary: s rule: less_induct)
  case less
  let ?c = "first_chunk n s" and ?d = "drop (length (first_chunk n s)) s"
  show ?case
  proof (cases "ran_out n s")
    case True
    then show ?thesis using ran_out_short [OF True] by (auto simp: chunks_ran_out)
  next
    case False
    then have c: "length ?c = n" "s \<noteq> []" "n \<le> length s"
      using first_chunk_full [OF less.prems(1)] length_first_chunk_le [of n s] less.prems(2) by (cases n, auto)
    then have "length ?d < length s" "newline \<notin> set ?d" using less.prems set_drop_subset [of n s] by auto
    then have "concat (filter (\<lambda>c. length c = n \<or> b) (chunks n ?d)) = (if b then ?d else take (length ?d div n * n) ?d)"
      using less.hyps less.prems(2) by blast
    moreover have "chunks n s = ?c # chunks n ?d" using c less.prems(2) by (simp add: chunks_nonempty)
    moreover have "length s div n * n = n + length ?d div n * n"
      using c less.prems(2) by (simp add: le_div_geq)
    moreover have "take (n + k) s = ?c @ take k ?d" for k
      by (metis c(1) first_chunk_drop append_eq_conv_conj take_add)
    moreover have "?c @ drop n s = s" using first_chunk_drop [of n s] c(1) by simp
    ultimately show ?thesis using c(1) by simp
  qed
qed

text \<open>No piece of the text is taken for a command, and none contains a NUL.\<close>

definition plain :: "string \<Rightarrow> bool" where
  "plain w \<longleftrightarrow> nul \<notin> set w \<and> list_all (\<lambda>c. parse_seek c = None) (chunks 255 w)"

lemma plain_step:
  assumes "plain w" and "w \<noteq> []"
  shows "parse_seek (first_chunk 255 w) = None" and "nul \<notin> set (first_chunk 255 w)"
    and "plain (drop (length (first_chunk 255 w)) w)"
  using assms set_first_chunk [of 255 w] set_drop_subset [of "length (first_chunk 255 w)" w]
  by (auto simp: plain_def chunks_nonempty)

section \<open>The contract of the output file\<close>

text \<open>
  \<open>frame\<close> is the stored text in an abstract form, \<open>view\<close> its bytes, \<open>put\<close> the effect of one \<^verbatim>\<open>write\<close> of at most a
  buffer, and \<open>room s n\<close> that \<open>n\<close> more bytes can be written.  A descriptor is \<open>ready\<close> when a write appends;
  one that was read to its end always is.
\<close>

locale output_store = byte_source "sys_read ops" good pending broken frame
  for ops :: "'b fd_ops" and good :: "'b \<Rightarrow> bool" and pending :: "'b \<Rightarrow> string" and broken :: "'b \<Rightarrow> bool"
    and frame :: "'b \<Rightarrow> 'f" +
  fixes ready :: "'b \<Rightarrow> bool"
    and room :: "'f \<Rightarrow> nat \<Rightarrow> bool"
    and put :: "'f \<Rightarrow> string \<Rightarrow> 'f"
    and view :: "'f \<Rightarrow> string"
  assumes never_broken: "good b \<Longrightarrow> \<not> broken b"
    and end_ready: "good b \<Longrightarrow> pending b = [] \<Longrightarrow> ready b"
    and write_puts: "good b \<Longrightarrow> ready b \<Longrightarrow> w \<noteq> [] \<Longrightarrow> length w < BUFFER_SIZE \<Longrightarrow>
      room (frame b) (length w + n) \<Longrightarrow>
      \<exists>b'. sys_write ops b w = ret (Some (length w), b') \<and> good b' \<and> ready b'
        \<and> frame b' = put (frame b) w \<and> room (frame b') n"
    and lseek_start: "good b \<Longrightarrow>
      \<exists>p b'. sys_lseek ops b 0 SEEK_SET = ret (p, b') \<and> 0 \<le> p \<and> good b' \<and> frame b' = frame b
        \<and> pending b' = view (frame b)"
begin

definition at_rest :: "'b FILE \<Rightarrow> bool" where
  "at_rest f \<longleftrightarrow> idle_stream f \<and> good (file_fd f) \<and> ready (file_fd f)"

lemma put_piece:
  assumes f: "at_rest f" and w: "w \<noteq> []" "length w < BUFFER_SIZE" and r: "room (frame (file_fd f)) (length w + n)"
  obtains f1 f2 where "fwrite (sys_write ops) w f = ret (length w, f1)" "fflush (sys_write ops) f1 = ret (0, f2)"
    "at_rest f2" "frame (file_fd f2) = put (frame (file_fd f)) w" "room (frame (file_fd f2)) n"
proof -
  let ?f1 = "f\<lparr>wbuf := w, dir := Writing\<rparr>"
  obtain b' where b': "sys_write ops (file_fd f) w = ret (Some (length w), b')" "good b'" "ready b'"
    "frame b' = put (frame (file_fd f)) w" "room (frame b') n"
    using write_puts [OF _ _ w r] f by (auto simp: at_rest_def idle_stream_def)
  have "fwrite (sys_write ops) w f = ret (length w, ?f1)"
    using f w by (simp add: fwrite_def at_rest_def idle_stream_def BUFFER_SIZE_def BUFSIZ_def)
  moreover have "write_all (sys_write ops) (file_fd f) w = ret (True, b')"
    using b'(1) w(1) by (subst write_all.simps) simp
  then have "fflush (sys_write ops) ?f1 = ret (0, f\<lparr>file_fd := b', wbuf := [], dir := Idle\<rparr>)"
    using f by (simp add: fflush_def at_rest_def idle_stream_def)
  ultimately show ?thesis using that b' f by (simp add: at_rest_def idle_stream_def)
qed

lemma rewind_store:
  assumes "at_rest f"
  obtains f' where "rewind ops f = ret f'" "source_ok good pending broken f'" "wbuf f' = []"
    "avail pending f' = view (frame (file_fd f))" "frame (file_fd f') = frame (file_fd f)"
proof -
  obtain p b' where b': "sys_lseek ops (file_fd f) 0 SEEK_SET = ret (p, b')" "0 \<le> p" "good b'"
    "frame b' = frame (file_fd f)" "pending b' = view (frame (file_fd f))"
    using lseek_start [of "file_fd f"] assms by (auto simp: at_rest_def idle_stream_def)
  have "write_all (sys_write ops) (file_fd f) [] = ret (True, file_fd f)" by simp
  then show ?thesis
    using that [of "f\<lparr>file_fd := b', wbuf := [], rbuf := [], eof_seen := False, dir := Idle, err_seen := False\<rparr>"]
      b' assms by (simp add: rewind_def fseek_def at_rest_def idle_stream_def source_ok_def avail_def)
qed

end

section \<open>The three streams of a dialogue\<close>

locale line_server =
  inp: byte_source rd_in good_in pending_in broken_in frame_in
  + snk: byte_sink wr up taken
  + output_store ops good pending broken frame ready room put view
  for rd_in :: "'i \<Rightarrow> nat \<Rightarrow> (string option \<times> 'i) run" and good_in :: "'i \<Rightarrow> bool"
    and pending_in :: "'i \<Rightarrow> string" and broken_in :: "'i \<Rightarrow> bool" and frame_in :: "'i \<Rightarrow> 'g"
    and wr :: "'s \<Rightarrow> string \<Rightarrow> (nat option \<times> 's) run" and up :: "'s \<Rightarrow> bool" and taken :: "'s \<Rightarrow> string"
    and ops :: "'b fd_ops" and good :: "'b \<Rightarrow> bool" and pending :: "'b \<Rightarrow> string" and broken :: "'b \<Rightarrow> bool"
    and frame :: "'b \<Rightarrow> 'f" and ready :: "'b \<Rightarrow> bool" and room :: "'f \<Rightarrow> nat \<Rightarrow> bool"
    and put :: "'f \<Rightarrow> string \<Rightarrow> 'f" and view :: "'f \<Rightarrow> string"
begin

text \<open>The file is sent to its end, in pieces, and is then ready for the next client.\<close>

lemma send_loop_sends:
  "source_ok good pending broken f \<Longrightarrow> wbuf f = [] \<Longrightarrow> snk.sink_ok so \<Longrightarrow>
    \<exists>f' so'. send_loop (sys_read ops) wr f so = ret (True, f', so') \<and> eof_seen f' \<and> at_rest f'
      \<and> frame (file_fd f') = frame (file_fd f) \<and> snk.sink_ok so'
      \<and> snk.outgoing so' = snk.outgoing so @ concat (map cstr (chunks 255 (avail pending f)))"
proof (induction "length (avail pending f)" arbitrary: f so rule: less_induct)
  case less
  let ?s = "avail pending f"
  have nb: "\<not> broken (file_fd f)" using less.prems(1) never_broken by (simp add: source_ok_def)
  obtain f1 where f1: "fgets (sys_read ops) (Suc 255) f = ret (if ?s = [] then None else Some (first_chunk 255 ?s), f1)"
    "same f f1" "avail pending f1 = drop (length (first_chunk 255 ?s)) ?s"
    "eof_seen f1 \<longleftrightarrow> ran_out 255 ?s" "eof_seen f1 \<Longrightarrow> dir f1 = Idle"
    using fgets_reads [OF less.prems(1), of 255] nb by auto
  show ?case
  proof (cases "?s = []")
    case True
    then have "eof_seen f1" using f1(4) by (simp add: numeral_eq_Suc)
    moreover have "rbuf f1 = []" "pending (file_fd f1) = []" using f1(3) True by (simp_all add: avail_def)
    ultimately have "at_rest f1" "eof_seen f1"
      using f1(2,5) less.prems(2) end_ready by (auto simp: at_rest_def idle_stream_def source_ok_def)
    then show ?thesis
      using f1(1,2) less.prems(3) True by (subst send_loop.simps) (simp add: BUFFER_SIZE_Suc)
  next
    case False
    let ?c = "first_chunk 255 ?s"
    obtain so1 where so1: "fwrite wr (cstr ?c) so = ret (length (cstr ?c), so1)" "snk.sink_ok so1"
      "snk.outgoing so1 = snk.outgoing so @ cstr ?c"
      using snk.fwrite_sink [OF less.prems(3)] by blast
    have "?c \<noteq> []" using False by simp
    then have "length (avail pending f1) < length ?s" using f1(3) False by simp
    then obtain f' so' where "send_loop (sys_read ops) wr f1 so1 = ret (True, f', so')" "eof_seen f'" "at_rest f'"
      "frame (file_fd f') = frame (file_fd f1)" "snk.sink_ok so'"
      "snk.outgoing so' = snk.outgoing so1 @ concat (map cstr (chunks 255 (avail pending f1)))"
      using less.hyps [of f1 so1] f1(2) less.prems(2) so1(2) by auto
    then show ?thesis
      using f1(1-3) so1 False
      by (subst send_loop.simps) (simp add: BUFFER_SIZE_Suc strlen_def chunks_nonempty)
  qed
qed

end

context line_server
begin

lemma receive_piece:
  assumes si: "source_ok good_in pending_in broken_in si" and fo: "at_rest fo"
  defines "s \<equiv> avail pending_in si"
  assumes s: "s \<noteq> []" "\<not> (ran_out 255 s \<and> broken_in (file_fd si))"
    and c: "parse_seek (first_chunk 255 s) = None" "nul \<notin> set (first_chunk 255 s)"
    and r: "room (frame (file_fd fo)) (length (first_chunk 255 s) + n)"
  obtains si' fo' where
    "receive_loop rd_in ops si fo =
       (if last (first_chunk 255 s) = newline then ret (Got_line, si', fo') else receive_loop rd_in ops si' fo')"
    "inp.same si si'" "avail pending_in si' = drop (length (first_chunk 255 s)) s"
    "at_rest fo'" "frame (file_fd fo') = put (frame (file_fd fo)) (first_chunk 255 s)" "room (frame (file_fd fo')) n"
proof -
  let ?c = "first_chunk 255 s"
  have ne: "?c \<noteq> []" using s(1) by simp
  have len: "length ?c < BUFFER_SIZE" using length_first_chunk [of 255 s] by (simp add: BUFFER_SIZE_def)
  obtain si' where si': "fgets rd_in (Suc 255) si = ret (Some ?c, si')" "inp.same si si'"
    "avail pending_in si' = drop (length ?c) s"
    using inp.fgets_reads [OF si, of 255] s unfolding s_def by auto
  obtain f1 fo' where fo': "fwrite (sys_write ops) ?c fo = ret (length ?c, f1)" "fflush (sys_write ops) f1 = ret (0, fo')"
    "at_rest fo'" "frame (file_fd fo') = put (frame (file_fd fo)) ?c" "room (frame (file_fd fo')) n"
    using put_piece [OF fo ne len r] by blast
  have "receive_loop rd_in ops si fo =
      (if last ?c = newline then ret (Got_line, si', fo') else receive_loop rd_in ops si' fo')"
    using si'(1) fo'(1,2) c ne
    by (subst receive_loop.simps) (simp add: BUFFER_SIZE_Suc strlen_def last_conv_nth)
  then show ?thesis using that si'(2,3) fo'(3-) by blast
qed

text \<open>A complete line is stored piece by piece; what follows it stays in the socket.\<close>

lemma receive_line:
  "source_ok good_in pending_in broken_in si \<Longrightarrow> at_rest fo \<Longrightarrow> line w \<Longrightarrow> plain w \<Longrightarrow>
    avail pending_in si = w @ rest \<Longrightarrow> room (frame (file_fd fo)) (length w + n) \<Longrightarrow>
    \<exists>si' fo'. receive_loop rd_in ops si fo = ret (Got_line, si', fo') \<and> inp.same si si'
      \<and> avail pending_in si' = rest \<and> at_rest fo' \<and> room (frame (file_fd fo')) n
      \<and> frame (file_fd fo') = foldl put (frame (file_fd fo)) (chunks 255 w)"
proof (induction "length w" arbitrary: w si fo rule: less_induct)
  case less
  let ?c = "first_chunk 255 w" and ?d = "drop (length (first_chunk 255 w)) w"
  have w: "w \<noteq> []" "newline \<in> set w" using less.prems(3) line_not_Nil line_last by auto
  have fc: "first_chunk 255 (w @ rest) = ?c" "\<not> ran_out 255 (w @ rest)"
    using first_chunk_append [OF w(2)] by auto
  have cd: "length w = length ?c + length ?d" using length_first_chunk_le [of 255 w] by simp
  note pl = plain_step [OF less.prems(4) w(1)]
  let ?s = "avail pending_in si"
  have pre: "?s \<noteq> []" "\<not> (ran_out 255 ?s \<and> broken_in (file_fd si))" "parse_seek (first_chunk 255 ?s) = None"
    "nul \<notin> set (first_chunk 255 ?s)" "room (frame (file_fd fo)) (length (first_chunk 255 ?s) + (length ?d + n))"
    using less.prems(6) w(1) pl(1,2) unfolding less.prems(5) fc cd [symmetric] add.assoc [symmetric] by (simp_all add: fc(2))
  obtain si' fo' where st: "receive_loop rd_in ops si fo =
       (if last ?c = newline then ret (Got_line, si', fo') else receive_loop rd_in ops si' fo')"
    "inp.same si si'" "avail pending_in si' = drop (length ?c) (w @ rest)" "at_rest fo'"
    "frame (file_fd fo') = put (frame (file_fd fo)) ?c" "room (frame (file_fd fo')) (length ?d + n)"
    by (rule receive_piece [OF less.prems(1,2) pre, unfolded less.prems(5) fc(1)])
  have av: "avail pending_in si' = ?d @ rest"
    unfolding st(3) drop_append using length_first_chunk_le [of 255 w] by simp
  consider "?c = w" "chunks 255 w = [w]" | "newline \<notin> set ?c" "line ?d"
    using first_chunk_of_line [OF less.prems(3), of 255] by auto
  then show ?case
  proof cases
    case 1
    then show ?thesis using st av line_last [OF less.prems(3)] by auto
  next
    case 2
    have ne: "?c \<noteq> []" using w(1) by simp
    have "last ?c \<noteq> newline" using 2(1) last_in_set [OF ne] by auto
    moreover have "length ?d < length w" using cd ne by (cases ?c) auto
    moreover have "chunks 255 w = ?c # chunks 255 ?d" using w(1) by (simp add: chunks_nonempty)
    ultimately show ?thesis
      using less.hyps [of ?d si' fo'] st 2 pl(3) av by auto
  qed
qed

text \<open>Input that ends, or fails, before a newline: the dialogue fails.  The pieces received stay stored.\<close>

lemma receive_incomplete:
  "source_ok good_in pending_in broken_in si \<Longrightarrow> at_rest fo \<Longrightarrow> newline \<notin> set (avail pending_in si) \<Longrightarrow>
    plain (avail pending_in si) \<Longrightarrow> room (frame (file_fd fo)) (length (avail pending_in si) + n) \<Longrightarrow>
    \<exists>si' fo'. receive_loop rd_in ops si fo = ret (Failed, si', fo') \<and> at_rest fo' \<and> wbuf si' = wbuf si
      \<and> frame (file_fd fo') = foldl put (frame (file_fd fo))
          (filter (\<lambda>c. length c = 255 \<or> \<not> broken_in (file_fd si)) (chunks 255 (avail pending_in si)))"
proof (induction "length (avail pending_in si)" arbitrary: si fo rule: less_induct)
  case less
  let ?s = "avail pending_in si"
  let ?c = "first_chunk 255 ?s" and ?d = "drop (length (first_chunk 255 ?s)) ?s"
  have cd: "length ?s = length ?c + length ?d" using length_first_chunk_le [of 255 ?s] by simp
  show ?case
  proof (cases "?s = [] \<or> ran_out 255 ?s \<and> broken_in (file_fd si)")
    case True
    then obtain si' where si': "fgets rd_in (Suc 255) si = ret (None, si')" "wbuf si' = wbuf si"
      using inp.fgets_reads [OF less.prems(1), of 255] by auto
    then have "receive_loop rd_in ops si fo = ret (Failed, si', fo)"
      by (subst receive_loop.simps) (simp add: BUFFER_SIZE_Suc)
    moreover have "filter (\<lambda>c. length c = 255 \<or> \<not> broken_in (file_fd si)) (chunks 255 ?s) = []"
      using True ran_out_short [of 255 ?s] by (auto simp: chunks_ran_out)
    ultimately show ?thesis using less.prems(2) si'(2) by simp
  next
    case False
    then have s: "?s \<noteq> []" "\<not> (ran_out 255 ?s \<and> broken_in (file_fd si))" by auto
    note pl = plain_step [OF less.prems(4) s(1)]
    have rm: "room (frame (file_fd fo)) (length ?c + (length ?d + n))"
      using less.prems(5) unfolding cd [symmetric] add.assoc [symmetric] .
    obtain si' fo' where st: "receive_loop rd_in ops si fo =
         (if last ?c = newline then ret (Got_line, si', fo') else receive_loop rd_in ops si' fo')"
      "inp.same si si'" "avail pending_in si' = ?d" "at_rest fo'"
      "frame (file_fd fo') = put (frame (file_fd fo)) ?c" "room (frame (file_fd fo')) (length ?d + n)"
      by (rule receive_piece [OF less.prems(1,2) s pl(1,2) rm])
    have ne: "?c \<noteq> []" using s(1) by simp
    have "last ?c \<noteq> newline" using set_first_chunk [of 255 ?s] last_in_set [OF ne] less.prems(3) by auto
    moreover have "length ?d < length ?s" using cd ne by (cases ?c) auto
    moreover have "newline \<notin> set ?d" using less.prems(3) set_drop_subset [of "length ?c" ?s] by auto
    moreover have "length ?c = 255 \<or> \<not> broken_in (file_fd si)"
      using s(2) first_chunk_full [OF less.prems(3), of 255] by auto
    ultimately show ?thesis
      using less.hyps [of si' fo'] st pl(3) s(1) by (auto simp: chunks_nonempty)
  qed
qed

end

section \<open>The dialogue\<close>

context line_server
begin

text \<open>What comes after the line was received does not depend on what became of it.\<close>

lemma protocol_after_line:
  assumes a: "receive_loop rd_in ops si fo = ret (Got_line, si', f1)" and so: "snk.sink_ok so" and f1: "at_rest f1"
  obtains so' fo' where "server_protocol rd_in wr ops si so fo = ret (RET_OK, si', so', fo')" "snk.sink_ok so'"
    "snk.outgoing so' = snk.outgoing so @ concat (map cstr (chunks 255 (view (frame (file_fd f1)))))"
    "at_rest fo'" "frame (file_fd fo') = frame (file_fd f1)"
proof -
  obtain f2 where b: "rewind ops f1 = ret f2" "source_ok good pending broken f2" "wbuf f2 = []"
    "avail pending f2 = view (frame (file_fd f1))" "frame (file_fd f2) = frame (file_fd f1)"
    using rewind_store [OF f1] by auto
  obtain f3 so' where "send_loop (sys_read ops) wr f2 so = ret (True, f3, so')" "eof_seen f3" "at_rest f3"
    "frame (file_fd f3) = frame (file_fd f1)" "snk.sink_ok so'"
    "snk.outgoing so' = snk.outgoing so @ concat (map cstr (chunks 255 (view (frame (file_fd f1)))))"
    using send_loop_sends [OF b(2,3) so] b(4,5) by auto
  then show ?thesis using that a b(1) by (simp add: server_protocol_def)
qed

lemma protocol_line:
  assumes si: "source_ok good_in pending_in broken_in si" and so: "snk.sink_ok so" and fo: "at_rest fo"
    and w: "line w" "plain w" "avail pending_in si = w @ rest"
    and r: "room (frame (file_fd fo)) (length w + n)"
  defines "F \<equiv> foldl put (frame (file_fd fo)) (chunks 255 w)"
  obtains si' so' fo' where "server_protocol rd_in wr ops si so fo = ret (RET_OK, si', so', fo')"
    "inp.same si si'" "avail pending_in si' = rest" "snk.sink_ok so'"
    "snk.outgoing so' = snk.outgoing so @ concat (map cstr (chunks 255 (view F)))"
    "at_rest fo'" "frame (file_fd fo') = F" "room F n"
proof -
  obtain si' f1 where a: "receive_loop rd_in ops si fo = ret (Got_line, si', f1)" "inp.same si si'"
    "avail pending_in si' = rest" "at_rest f1" "room (frame (file_fd f1)) n" "frame (file_fd f1) = F"
    using receive_line [OF si fo w r] unfolding F_def by blast
  show ?thesis
    using protocol_after_line [OF a(1) so a(4)] that a by metis
qed

text \<open>A line whose write fails: the result of \<^verbatim>\<open>fflush\<close> is not looked at, so the dialogue goes on without it.\<close>

lemma protocol_dropped:
  assumes si: "source_ok good_in pending_in broken_in si" and so: "snk.sink_ok so" and fo: "at_rest fo"
    and w: "line w" "plain w" "avail pending_in si = w @ rest" "length w \<le> 255"
    and fail: "sys_write ops (file_fd fo) w = ret (None, file_fd fo)"
  obtains si' so' fo' where "server_protocol rd_in wr ops si so fo = ret (RET_OK, si', so', fo')"
    "inp.same si si'" "snk.sink_ok so'"
    "snk.outgoing so' = snk.outgoing so @ concat (map cstr (chunks 255 (view (frame (file_fd fo)))))"
    "at_rest fo'" "frame (file_fd fo') = frame (file_fd fo)"
proof -
  have n: "newline \<in> set w" "w \<noteq> []" using w(1) line_last line_not_Nil by auto
  have fc: "first_chunk 255 (w @ rest) = w" "\<not> ran_out 255 (w @ rest)"
    using first_chunk_append [OF n(1), of 255 rest] first_chunk_short [OF w(1,4)] by auto
  obtain si' where si': "fgets rd_in (Suc 255) si = ret (Some w, si')" "inp.same si si'"
    using inp.fgets_reads [OF si, of 255] fc n(2) w(3) by auto
  have pl: "parse_seek w = None" "nul \<notin> set w" using plain_step [OF w(2) n(2)] first_chunk_short [OF w(1,4)] by auto
  let ?f = "fo\<lparr>err_seen := True\<rparr>"
  have "write_all (sys_write ops) (file_fd fo) w = ret (False, file_fd fo)"
    using fail n(2) by (subst write_all.simps) simp
  then have "receive_loop rd_in ops si fo = ret (Got_line, si', ?f)"
    using si'(1) pl n(2) fo w(4) line_last [OF w(1)]
    by (subst receive_loop.simps)
      (simp add: BUFFER_SIZE_Suc strlen_def fwrite_def fflush_def at_rest_def idle_stream_def BUFSIZ_def last_conv_nth)
  moreover have "at_rest ?f" using fo by (simp add: at_rest_def idle_stream_def)
  ultimately show ?thesis
  proof (rule protocol_after_line [OF _ so], goal_cases)
    case p: (1 so' fo')
    then show ?thesis using that [OF p(1) si'(2)] by simp
  qed
qed

lemma protocol_incomplete:
  assumes "source_ok good_in pending_in broken_in si" and "at_rest fo"
    and "newline \<notin> set (avail pending_in si)" and "plain (avail pending_in si)"
    and "room (frame (file_fd fo)) (length (avail pending_in si) + n)"
  obtains si' fo' where "server_protocol rd_in wr ops si so fo = ret (RET_ERR, si', so, fo')" "at_rest fo'"
    "wbuf si' = wbuf si" "frame (file_fd fo') = foldl put (frame (file_fd fo))
       (filter (\<lambda>c. length c = 255 \<or> \<not> broken_in (file_fd si)) (chunks 255 (avail pending_in si)))"
  using receive_incomplete [OF assms] that by (auto simp: server_protocol_def)

text \<open>A line that starts with NUL has an empty C string, whose last character is not in the buffer.\<close>

lemma protocol_nul:
  assumes si: "source_ok good_in pending_in broken_in si" and fo: "at_rest fo"
    and s: "avail pending_in si = nul # s" and n: "newline \<in> set s"
  shows "server_protocol rd_in wr ops si so fo = Some (Inl Out_of_bounds)"
proof -
  have "\<not> ran_out 255 (nul # s)" using first_chunk_append [of "nul # s" 255 "[]"] n by simp
  then obtain si' where si': "fgets rd_in (Suc 255) si = ret (Some (first_chunk 255 (nul # s)), si')"
    using inp.fgets_reads [OF si, of 255] s by auto
  have c: "cstr (first_chunk 255 (nul # s)) = []" by (simp add: cstr_def numeral_eq_Suc)
  have p: "parse_seek [] = None" by (simp add: parse_seek_def)
  have "write_all (sys_write ops) (file_fd fo) [] = ret (True, file_fd fo)" by simp
  then have "receive_loop rd_in ops si fo = Some (Inl Out_of_bounds)"
    using fo si' by (subst receive_loop.simps)
      (simp add: BUFFER_SIZE_Suc c p strlen_def fwrite_def fflush_def at_rest_def idle_stream_def)
  then show ?thesis by (simp add: server_protocol_def)
qed

end

section \<open>Output files with a seek command\<close>

text \<open>\<open>seek s x y\<close> is the position that byte \<open>y\<close> of command \<open>x\<close> has in the text, if there is one; \<open>seek_safe\<close>
  restricts the law to calls that do not leave the implementation's memory.\<close>

locale seek_store = output_store ops good pending broken frame ready room put view
  for ops :: "'b fd_ops" and good :: "'b \<Rightarrow> bool" and pending :: "'b \<Rightarrow> string" and broken :: "'b \<Rightarrow> bool"
    and frame :: "'b \<Rightarrow> 'f" and ready :: "'b \<Rightarrow> bool" and room :: "'f \<Rightarrow> nat \<Rightarrow> bool"
    and put :: "'f \<Rightarrow> string \<Rightarrow> 'f" and view :: "'f \<Rightarrow> string" +
  fixes seek_safe :: "'b \<Rightarrow> u32 \<Rightarrow> bool"
    and seek :: "'f \<Rightarrow> u32 \<Rightarrow> u32 \<Rightarrow> nat option"
  assumes ioctl_moves: "good b \<Longrightarrow> seek_safe b x \<Longrightarrow> seek (frame b) x y = Some p \<Longrightarrow>
      p < length (view (frame b)) \<and> (\<exists>b'. sys_ioctl ops b x y = ret (0, b') \<and> good b' \<and> frame b' = frame b
        \<and> pending b' = drop p (view (frame b)))"
    and ioctl_refuses: "good b \<Longrightarrow> seek_safe b x \<Longrightarrow> seek (frame b) x y = None \<Longrightarrow>
      sys_ioctl ops b x y = ret (-1, b)"
    and lseek_stays: "good b \<Longrightarrow> pending b \<noteq> [] \<Longrightarrow>
      \<exists>q b'. sys_lseek ops b 0 SEEK_CUR = ret (q, b') \<and> 0 \<le> q \<and> good b' \<and> frame b' = frame b
        \<and> pending b' = pending b"
begin

lemma fseek_stays:
  assumes "wbuf f = []" and "rbuf f = []" and "good (file_fd f)" and "pending (file_fd f) \<noteq> []"
  obtains f' where "fseek ops 0 SEEK_CUR f = ret (0, f')" "source_ok good pending broken f'" "wbuf f' = []"
    "avail pending f' = pending (file_fd f)" "frame (file_fd f') = frame (file_fd f)"
proof -
  obtain q b' where b': "sys_lseek ops (file_fd f) 0 SEEK_CUR = ret (q, b')" "0 \<le> q" "good b'"
    "frame b' = frame (file_fd f)" "pending b' = pending (file_fd f)"
    using lseek_stays [OF assms(3,4)] by blast
  have "write_all (sys_write ops) (file_fd f) [] = ret (True, file_fd f)" by simp
  then show ?thesis
    using that [of "f\<lparr>file_fd := b', wbuf := [], rbuf := [], eof_seen := False, dir := Idle\<rparr>"] b' assms
    by (simp add: fseek_def source_ok_def avail_def)
qed

end

locale seek_server =
  line_server rd_in good_in pending_in broken_in frame_in wr up taken ops good pending broken frame ready room put view
  + seek_store ops good pending broken frame ready room put view seek_safe seek
  for rd_in :: "'i \<Rightarrow> nat \<Rightarrow> (string option \<times> 'i) run" and good_in :: "'i \<Rightarrow> bool"
    and pending_in :: "'i \<Rightarrow> string" and broken_in :: "'i \<Rightarrow> bool" and frame_in :: "'i \<Rightarrow> 'g"
    and wr :: "'s \<Rightarrow> string \<Rightarrow> (nat option \<times> 's) run" and up :: "'s \<Rightarrow> bool" and taken :: "'s \<Rightarrow> string"
    and ops :: "'b fd_ops" and good :: "'b \<Rightarrow> bool" and pending :: "'b \<Rightarrow> string" and broken :: "'b \<Rightarrow> bool"
    and frame :: "'b \<Rightarrow> 'f" and ready :: "'b \<Rightarrow> bool" and room :: "'f \<Rightarrow> nat \<Rightarrow> bool"
    and put :: "'f \<Rightarrow> string \<Rightarrow> 'f" and view :: "'f \<Rightarrow> string"
    and seek_safe :: "'b \<Rightarrow> u32 \<Rightarrow> bool" and seek :: "'f \<Rightarrow> u32 \<Rightarrow> u32 \<Rightarrow> nat option"
begin

text \<open>A command sends the text from the position it names, stores nothing, and fails when there is no such
  position.\<close>

lemma protocol_seek:
  assumes si: "source_ok good_in pending_in broken_in si" and so: "snk.sink_ok so" and fo: "at_rest fo"
    and s: "avail pending_in si = w @ rest" "line w" "length w \<le> 255"
    and c: "parse_seek (cstr w) = Some (x, y)" and safe: "seek_safe (file_fd fo) x"
  obtains si' so' fo' where
    "server_protocol rd_in wr ops si so fo =
       ret (if seek (frame (file_fd fo)) x y = None then RET_ERR else RET_OK, si', so', fo')"
    "inp.same si si'" "avail pending_in si' = rest" "snk.sink_ok so'"
    "snk.outgoing so' = snk.outgoing so @ (case seek (frame (file_fd fo)) x y of None \<Rightarrow> []
       | Some p \<Rightarrow> concat (map cstr (chunks 255 (drop p (view (frame (file_fd fo)))))))"
    "at_rest fo'" "frame (file_fd fo') = frame (file_fd fo)"
proof -
  let ?v = "view (frame (file_fd fo))"
  have nw: "newline \<in> set w" "w \<noteq> []" using s(2) line_last line_not_Nil by auto
  have fc: "first_chunk 255 (w @ rest) = w" "\<not> ran_out 255 (w @ rest)"
    using first_chunk_append [OF nw(1)] first_chunk_short [OF s(2,3)] by auto
  obtain si' where si': "fgets rd_in (Suc 255) si = ret (Some w, si')" "inp.same si si'"
    "avail pending_in si' = rest"
    using inp.fgets_reads [OF si, of 255] nw(2) fc unfolding s(1) by auto
  have g: "good (file_fd fo)" "wbuf fo = []" "rbuf fo = []" using fo by (simp_all add: at_rest_def idle_stream_def)
  show ?thesis
  proof (cases "seek (frame (file_fd fo)) x y")
    case None
    have "receive_loop rd_in ops si fo = ret (Failed, si', fo)"
      using ioctl_refuses [OF g(1) safe None] c si'(1) by (subst receive_loop.simps) (simp add: BUFFER_SIZE_Suc)
    then show ?thesis
      using that [of si' so fo] None si' so fo by (simp add: server_protocol_def)
  next
    case (Some p)
    obtain b' where b': "p < length ?v" "sys_ioctl ops (file_fd fo) x y = ret (0, b')" "good b'"
      "frame b' = frame (file_fd fo)" "pending b' = drop p ?v"
      using ioctl_moves [OF g(1) safe Some] by blast
    let ?f1 = "fo\<lparr>file_fd := b'\<rparr>"
    have a: "receive_loop rd_in ops si fo = ret (Got_seek, si', ?f1)"
      using b'(2) c si'(1) by (subst receive_loop.simps) (simp add: BUFFER_SIZE_Suc)
    obtain f2 where f2: "fseek ops 0 SEEK_CUR ?f1 = ret (0, f2)" "source_ok good pending broken f2" "wbuf f2 = []"
      "avail pending f2 = drop p ?v" "frame (file_fd f2) = frame (file_fd fo)"
      using fseek_stays [of ?f1] b' g by auto
    obtain f3 so' where "send_loop (sys_read ops) wr f2 so = ret (True, f3, so')" "eof_seen f3" "at_rest f3"
      "frame (file_fd f3) = frame (file_fd fo)" "snk.sink_ok so'"
      "snk.outgoing so' = snk.outgoing so @ concat (map cstr (chunks 255 (drop p ?v)))"
      using send_loop_sends [OF f2(2,3) so] f2(4,5) by auto
    then show ?thesis
      using that [of si' so' f3] Some si' a f2(1) by (simp add: server_protocol_def)
  qed
qed

end

section \<open>Property of the command parser\<close>



end
