(* ===== verification/Output_Files.thy ===== *)
theory Output_Files
  imports Char_Driver Server_Protocol
begin

text \<open>
  The descriptors behind the server's streams: the two directions of a connected socket, the regular file
  \<^verbatim>\<open>/var/tmp/aesdsocketdata\<close> and, when the server is built with \<^verbatim>\<open>USE_AESD_CHAR_DEVICE\<close>, the character device,
  whose system calls run the functions of the driver model.  Each is shown to satisfy the interface of
  \<open>C_Stdio\<close> and \<open>Server_Protocol\<close> it is used through, so that the laws of the dialogue hold for the server over
  the file and for the server over the driver.
\<close>

section \<open>Sockets\<close>

text \<open>Receiving: the segments the peer sent, which \<^verbatim>\<open>read\<close> returns one at a time, and whether the connection is
  then reset instead of closed.  Sending: the bytes the peer got, how many one call takes at most, and
  whether the peer is gone.\<close>

record sock_in =
  segments :: "string list"
  reset :: bool

record sock_out =
  got :: string
  window :: nat
  gone :: bool

definition sock_read :: "sock_in \<Rightarrow> nat \<Rightarrow> (string option \<times> sock_in) run" where
  "sock_read s n =
     (case segments s of
        [] \<Rightarrow> ret (if reset s then None else Some [], s)
      | seg # rest \<Rightarrow>
          ret (Some (take n seg), s\<lparr>segments := (if length seg \<le> n then rest else drop n seg # rest)\<rparr>))"

definition sock_write :: "sock_out \<Rightarrow> string \<Rightarrow> (nat option \<times> sock_out) run" where
  "sock_write s bs =
     (if gone s then ret (None, s)
      else ret (Some (min (window s) (length bs)), s\<lparr>got := got s @ take (window s) bs\<rparr>))"

definition segments_ok :: "sock_in \<Rightarrow> bool" where
  "segments_ok s \<longleftrightarrow> [] \<notin> set (segments s)"

definition incoming :: "sock_in \<Rightarrow> string" where
  "incoming s = concat (segments s)"

definition connected :: "sock_out \<Rightarrow> bool" where
  "connected s \<longleftrightarrow> \<not> gone s \<and> 0 < window s"

interpretation sin: byte_source sock_read segments_ok incoming reset "\<lambda>_. ()"
proof
  fix b :: sock_in
  assume b: "segments_ok b"
  show "incoming b \<noteq> [] \<Longrightarrow> \<exists>d b'. sock_read b BUFSIZ = ret (Some d, b') \<and> d \<noteq> [] \<and> incoming b = d @ incoming b'
      \<and> segments_ok b' \<and> reset b' = reset b \<and> () = ()"
    using b by (cases "segments b") (auto simp: sock_read_def incoming_def segments_ok_def BUFSIZ_def)
  show "incoming b = [] \<Longrightarrow> \<exists>b'. sock_read b BUFSIZ = ret (if reset b then None else Some [], b') \<and> incoming b' = []
      \<and> segments_ok b' \<and> reset b' = reset b \<and> () = ()"
    using b by (cases "segments b") (auto simp: sock_read_def incoming_def segments_ok_def)
qed

interpretation sout: byte_sink sock_write connected got
proof
  fix s :: sock_out and bs :: string
  assume "connected s" "bs \<noteq> []"
  then show "\<exists>k s'. sock_write s bs = ret (Some k, s') \<and> 0 < k \<and> k \<le> length bs \<and> connected s'
      \<and> got s' = got s @ take k bs"
    by (auto simp: sock_write_def connected_def min_def intro!: exI [of _ "s\<lparr>got := got s @ take (window s) bs\<rparr>"])
qed

section \<open>The regular file\<close>

text \<open>The file opened with mode \<^verbatim>\<open>w+\<close> (which does not append): its bytes, the position, and the size at which
  the file system is full.\<close>

record reg_file =
  contents :: string
  offset :: nat
  limit :: nat

definition reg_read :: "reg_file \<Rightarrow> nat \<Rightarrow> (string option \<times> reg_file) run" where
  "reg_read f n =
     (let d = take n (drop (offset f) (contents f)) in ret (Some d, f\<lparr>offset := offset f + length d\<rparr>))"

definition reg_write :: "reg_file \<Rightarrow> string \<Rightarrow> (nat option \<times> reg_file) run" where
  "reg_write f bs =
     (let d = take (limit f - offset f) bs in
      if d = [] then ret (None, f)
      else ret (Some (length d),
        f\<lparr>contents := take (offset f) (contents f @ replicate (offset f - length (contents f)) nul)
             @ d @ drop (offset f + length d) (contents f),
          offset := offset f + length d\<rparr>))"

definition reg_lseek :: "reg_file \<Rightarrow> int \<Rightarrow> int \<Rightarrow> (int \<times> reg_file) run" where
  "reg_lseek f off whence =
     (let p = (if whence = SEEK_SET then off else if whence = SEEK_CUR then int (offset f) + off
               else int (length (contents f)) + off)
      in if p < 0 then ret (-1, f) else ret (p, f\<lparr>offset := nat p\<rparr>))"

text \<open>A regular file does not know the request: \<^verbatim>\<open>ENOTTY\<close>.\<close>

definition reg_ioctl :: "reg_file \<Rightarrow> u32 \<Rightarrow> u32 \<Rightarrow> (int \<times> reg_file) run" where
  "reg_ioctl f x y = ret (-1, f)"

definition reg_ops :: "reg_file fd_ops" where
  "reg_ops = \<lparr>sys_read = reg_read, sys_write = reg_write, sys_lseek = reg_lseek, sys_ioctl = reg_ioctl\<rparr>"

definition reg_good :: "reg_file \<Rightarrow> bool" where
  "reg_good f \<longleftrightarrow> offset f \<le> length (contents f)"

definition reg_pending :: "reg_file \<Rightarrow> string" where
  "reg_pending f = drop (offset f) (contents f)"

definition reg_frame :: "reg_file \<Rightarrow> string \<times> nat" where
  "reg_frame f = (contents f, limit f)"

definition reg_ready :: "reg_file \<Rightarrow> bool" where
  "reg_ready f \<longleftrightarrow> offset f = length (contents f)"

definition reg_room :: "string \<times> nat \<Rightarrow> nat \<Rightarrow> bool" where
  "reg_room s n \<longleftrightarrow> length (fst s) + n \<le> snd s"

definition reg_put :: "string \<times> nat \<Rightarrow> string \<Rightarrow> string \<times> nat" where
  "reg_put s w = (fst s @ w, snd s)"

lemmas reg_defs = reg_good_def reg_pending_def reg_frame_def reg_ready_def reg_room_def reg_put_def reg_ops_def

lemma take_then_drop: "take n xs @ drop (length (take n xs)) xs = xs"
  by (cases "n \<le> length xs") simp_all

interpretation freg_src: byte_source "sys_read reg_ops" reg_good reg_pending "\<lambda>_. False" reg_frame
proof
  fix b :: reg_file
  assume b: "reg_good b"
  let ?d = "take BUFSIZ (drop (offset b) (contents b))"
  have d: "drop (offset b) (contents b) = ?d @ drop (offset b + length ?d) (contents b)"
    using take_then_drop [of BUFSIZ "drop (offset b) (contents b)"] by (simp add: add.commute)
  show "\<exists>d b'. sys_read reg_ops b BUFSIZ = ret (Some d, b') \<and> d \<noteq> [] \<and> reg_pending b = d @ reg_pending b'
      \<and> reg_good b' \<and> False = False \<and> reg_frame b' = reg_frame b" if "reg_pending b \<noteq> []"
    using b that d
    by (intro exI [of _ ?d] exI [of _ "b\<lparr>offset := offset b + length ?d\<rparr>"])
      (auto simp: reg_defs reg_read_def Let_def BUFSIZ_def)
  show "\<exists>b'. sys_read reg_ops b BUFSIZ = ret (if False then None else Some [], b') \<and> reg_pending b' = []
      \<and> reg_good b' \<and> False = False \<and> reg_frame b' = reg_frame b" if "reg_pending b = []"
    using b that by (simp add: reg_defs reg_read_def)
qed

interpretation freg: seek_server sock_read segments_ok incoming reset "\<lambda>_. ()" sock_write connected got
  reg_ops reg_good reg_pending "\<lambda>_. False" reg_frame reg_ready reg_room reg_put fst "\<lambda>_ _. True" "\<lambda>_ _ _. None"
proof
  fix b :: reg_file and w :: string and n :: nat and x y :: u32
  assume b: "reg_good b"
  show "reg_pending b = [] \<Longrightarrow> reg_ready b" using b by (simp add: reg_defs)
  show "\<exists>b'. sys_write reg_ops b w = ret (Some (length w), b') \<and> reg_good b' \<and> reg_ready b'
        \<and> reg_frame b' = reg_put (reg_frame b) w \<and> reg_room (reg_frame b') n"
    if "reg_ready b" "w \<noteq> []" "reg_room (reg_frame b) (length w + n)"
    using that by (auto simp: reg_defs reg_write_def Let_def)
  show "\<exists>p b'. sys_lseek reg_ops b 0 SEEK_SET = ret (p, b') \<and> 0 \<le> p \<and> reg_good b' \<and> reg_frame b' = reg_frame b
        \<and> reg_pending b' = fst (reg_frame b)"
    by (simp add: reg_defs reg_lseek_def)
  show "\<exists>q b'. sys_lseek reg_ops b 0 SEEK_CUR = ret (q, b') \<and> 0 \<le> q \<and> reg_good b' \<and> reg_frame b' = reg_frame b
        \<and> reg_pending b' = reg_pending b"
    using b by (simp add: reg_defs reg_lseek_def)
  show "sys_ioctl reg_ops b x y = ret (-1, b)" by (simp add: reg_ops_def reg_ioctl_def)
qed simp_all

section \<open>The character device\<close>

text \<open>
  An open descriptor of \<^verbatim>\<open>/dev/aesdchar\<close> is the driver's state and the file position.  The system calls run
  the driver's operations on buffers of the calling process; a negative result is the error \<^verbatim>\<open>-1\<close> of
  the C library.  For \<^verbatim>\<open>ioctl\<close>, the structure the server passes is what the driver's copy from the user sees.
\<close>

type_synonym dev_fd = "driver \<times> loff_t"

definition dev_read :: "kernel \<Rightarrow> dev_fd \<Rightarrow> nat \<Rightarrow> (string option \<times> dev_fd) run" where
  "dev_read K d n = (case d of (s, pos) \<Rightarrow>
     run_bind (aesd_read K s (replicate n nul) (of_nat n) pos) (\<lambda>(r, pos', buf, s').
       ret (if sint r < 0 then None else Some (take (unat r) buf), (s', pos'))))"

definition dev_write :: "kernel \<Rightarrow> dev_fd \<Rightarrow> string \<Rightarrow> (nat option \<times> dev_fd) run" where
  "dev_write K d bs = (case d of (s, pos) \<Rightarrow>
     run_bind (Some (aesd_write K s bs (of_nat (length bs)))) (\<lambda>(r, s').
       ret (if sint r < 0 then None else Some (unat r), (s', pos))))"

definition dev_lseek :: "kernel \<Rightarrow> dev_fd \<Rightarrow> int \<Rightarrow> int \<Rightarrow> (int \<times> dev_fd) run" where
  "dev_lseek K d off whence = (case d of (s, pos) \<Rightarrow>
     run_bind (llseek K s pos (word_of_int off) whence) (\<lambda>(r, pos').
       ret (if sint r < 0 then -1 else sint r, (s, pos'))))"

definition dev_ioctl :: "kernel \<Rightarrow> dev_fd \<Rightarrow> u32 \<Rightarrow> u32 \<Rightarrow> (int \<times> dev_fd) run" where
  "dev_ioctl K d x y = (case d of (s, pos) \<Rightarrow>
     run_bind (unlocked_ioctl (K\<lparr>get_seekto := (\<lambda>_. (\<lparr>write_cmd = x, write_cmd_offset = y\<rparr>, 0))\<rparr>) s pos
                 (AESDCHAR_IOCSEEKTO K) 0) (\<lambda>(r, pos').
       ret (if sint r < 0 then -1 else sint r, (s, pos'))))"

definition dev_ops :: "kernel \<Rightarrow> dev_fd fd_ops" where
  "dev_ops K = \<lparr>sys_read = dev_read K, sys_write = dev_write K, sys_lseek = dev_lseek K, sys_ioctl = dev_ioctl K\<rparr>"

text \<open>A kernel whose allocator serves requests up to its limit as long as fewer than twelve blocks of the driver
  are live, and a process whose buffers are mapped.\<close>

definition roomy :: "kernel \<Rightarrow> bool" where
  "roomy K \<longleftrightarrow> (\<forall>h n. finite (dom h) \<and> card (dom h) < 12 \<and> unat n \<le> kmalloc_max K \<longrightarrow> snd (kmalloc K h n) \<noteq> NULL)
     \<and> (\<forall>h a n. finite (dom h) \<and> card (dom h) < 12 \<and> h a \<noteq> None \<and> unat n \<le> kmalloc_max K
          \<longrightarrow> snd (krealloc K h a n) \<noteq> NULL)"

definition user_mapped :: "kernel \<Rightarrow> bool" where
  "user_mapped K \<longleftrightarrow> (\<forall>u n. unat n \<le> length u \<longrightarrow> snd (copy_from_user K u n) = 0)
     \<and> (\<forall>u bs. length bs \<le> length u \<longrightarrow> snd (copy_to_user K u bs) = 0)"

definition dev_good :: "kernel \<Rightarrow> dev_fd \<Rightarrow> bool" where
  "dev_good K d \<longleftrightarrow> kernel_ok K \<and> roomy K \<and> user_mapped K \<and> drv_inv K (fst d) \<and> heap_exact (fst d)
     \<and> \<not> lock (aesd_device (fst d))"

definition dev_pending :: "dev_fd \<Rightarrow> string" where
  "dev_pending d = drop (unat (snd d)) (concat (dev_lines (fst d)))"

definition dev_frame :: "dev_fd \<Rightarrow> line_log" where
  "dev_frame d = dev_log (fst d)"

definition dev_room :: "kernel \<Rightarrow> line_log \<Rightarrow> nat \<Rightarrow> bool" where
  "dev_room K l n \<longleftrightarrow> length (snd l) + n \<le> kmalloc_max K"

definition log_text :: "line_log \<Rightarrow> string" where
  "log_text l = concat (fst l)"

text \<open>The position of a byte of a line in the whole text.\<close>

definition log_seek :: "line_log \<Rightarrow> u32 \<Rightarrow> u32 \<Rightarrow> nat option" where
  "log_seek l x y =
     (if unat x < length (fst l) \<and> unat y < length (fst l ! unat x)
      then Some (length (concat (take (unat x) (fst l))) + unat y) else None)"

definition dev_seek_safe :: "dev_fd \<Rightarrow> u32 \<Rightarrow> bool" where
  "dev_seek_safe d x \<longleftrightarrow> length (dev_lines (fst d)) \<le> unat x \<or> unat (out_offs (buffer (aesd_device (fst d)))) + unat x < 10"

lemma live_blocks_small:
  assumes "heap_exact s"
  shows "finite (dom (heap s)) \<and> card (dom (heap s)) < 12"
proof -
  have "length (entry_addrs es) \<le> length es" for es
  proof (induction es)
    case (Cons e es)
    then show ?case by (cases "buffptr e") simp_all
  qed simp
  then have "length (entry_addrs (ring_of s)) \<le> 10"
    using length_cb_list_le [of "buffer (aesd_device s)"] le_trans by blast
  moreover have "length (ptr_addrs (buffptr (cur_of s))) \<le> 1" by (cases "buffptr (cur_of s)") auto
  ultimately have "card (set (drv_addrs s)) \<le> 11"
    using card_length [of "drv_addrs s"] by (simp add: drv_addrs_def)
  then show ?thesis using assms by (simp add: heap_exact_def)
qed

lemma roomy_available:
  assumes g: "dev_good K (s, pos)" and n: "dev_room K (dev_log s) (unat count)"
  shows "mem_available K s count"
proof -
  have K: "roomy K" "kernel_ok K" and inv: "drv_inv K s" and live: "finite (dom (heap s))" "card (dom (heap s)) < 12"
    using g live_blocks_small by (auto simp: dev_good_def)
  have m: "kmalloc_max K < 2 ^ 32" using K(2) by (simp add: kernel_ok_def kmalloc_ok_def)
  have n: "length (dev_partial s) + unat count \<le> kmalloc_max K"
    using n by (simp add: dev_room_def dev_log_def)
  show ?thesis
  proof (cases "buffptr (cur_of s)")
    case NULL
    then show ?thesis using K(1) live n by (simp add: mem_available_def roomy_def)
  next
    case (Ptr a)
    then obtain bs where bs: "heap s a = Some bs" "length bs = unat (entry_size (cur_of s))"
      using drv_invD(3) [OF inv] by (auto simp: block_ok_iff)
    then have "dev_partial s = bs" using Ptr by (simp add: dev_partial_def entry_bytes_def)
    then have sz: "unat (entry_size (cur_of s)) + unat count \<le> kmalloc_max K" using n bs(2) by simp
    then have "unat (entry_size (cur_of s) + count) \<le> kmalloc_max K"
      using m by (subst unat_small_add) simp_all
    then show ?thesis using K(1) live bs(1) Ptr by (auto simp: mem_available_def roomy_def)
  qed
qed

lemma sint_of_small: "n < 2 ^ 63 \<Longrightarrow> sint (of_nat n :: 64 word) = int n"
  by (simp add: signed_of_nat signed_take_bit_int_eq_self)

lemma stored_small:
  assumes "dev_good K (s, pos)"
  shows "length (concat (dev_lines s)) < 2 ^ 36"
  using assms total_size_small [of K s] by (simp add: dev_good_def length_concat)

lemma dev_read_gets:
  assumes g: "dev_good K (s, pos)"
  defines "d \<equiv> log_read (dev_lines s) (unat pos) BUFSIZ"
  shows "dev_read K (s, pos) BUFSIZ = ret (Some d, (s, pos + of_nat (length d)))"
    and "dev_pending (s, pos) = d @ dev_pending (s, pos + of_nat (length d))"
    and "d = [] \<longleftrightarrow> dev_pending (s, pos) = []"
proof -
  have K: "kernel_ok K" "drv_inv K s" "\<not> lock (aesd_device s)" and um: "user_mapped K"
    using g by (simp_all add: dev_good_def)
  obtain m where m: "d = take m (drop (unat pos) (concat (dev_lines s)))" "m \<le> BUFSIZ"
    unfolding d_def using log_read_prefix by blast
  have l: "length d \<le> BUFSIZ" using m by simp
  have b: "unat (of_nat BUFSIZ :: size_t) = BUFSIZ" by (simp add: BUFSIZ_def)
  have c: "snd (copy_to_user K (replicate BUFSIZ nul) d) = 0"
    using um l by (simp add: user_mapped_def)
  have r: "aesd_read K s (replicate BUFSIZ nul) (of_nat BUFSIZ) pos = Some (Inr
      (if d = [] then (0, pos, replicate BUFSIZ nul, s)
       else (of_nat (length d), pos + of_nat (length d), d @ drop (length d) (replicate BUFSIZ nul), s)))"
    using aesd_read_spec [OF K, of "replicate BUFSIZ nul" "of_nat BUFSIZ" pos] copied_to_user [OF K(1) c] c
    unfolding b d_def [symmetric] by (auto simp: Let_def split: prod.splits)
  have u: "unat (of_nat (length d) :: size_t) = length d" "sint (of_nat (length d) :: size_t) = int (length d)"
    using l by (auto simp: BUFSIZ_def intro!: unat_of_nat_small sint_of_small)
  show "dev_read K (s, pos) BUFSIZ = ret (Some d, (s, pos + of_nat (length d)))"
    using r u by (cases "d = []") (simp_all add: dev_read_def)
  show e: "d = [] \<longleftrightarrow> dev_pending (s, pos) = []"
    unfolding d_def by (simp add: log_read_empty_iff dev_pending_def BUFSIZ_def)
  have dd: "drop (unat pos) (concat (dev_lines s)) = d @ drop (unat pos + length d) (concat (dev_lines s))"
    using take_then_drop [of m "drop (unat pos) (concat (dev_lines s))"] m(1) by (simp add: add.commute)
  show "dev_pending (s, pos) = d @ dev_pending (s, pos + of_nat (length d))"
  proof (cases "d = []")
    case False
    have "length d \<le> length (concat (dev_lines s)) - unat pos" using m(1) by simp
    moreover have "unat pos < length (concat (dev_lines s))" using False e by (simp add: dev_pending_def)
    ultimately have "unat pos + length d < 2 ^ 36" using stored_small [OF g] by linarith
    then have "unat (pos + of_nat (length d)) = unat pos + length d" using u(1) by (subst unat_small_add) simp_all
    then show ?thesis using dd by (simp add: dev_pending_def)
  qed simp
qed

interpretation dev_src: byte_source "sys_read (dev_ops K)" "dev_good K" dev_pending "\<lambda>_. False" dev_frame
  for K
proof
  fix b :: dev_fd
  assume b: "dev_good K b"
  obtain s pos where sp: "b = (s, pos)" by fastforce
  note r = dev_read_gets [OF b [unfolded sp]]
  let ?d = "log_read (dev_lines s) (unat pos) BUFSIZ"
  let ?b = "(s, pos + of_nat (length ?d))"
  have k: "dev_good K ?b" "dev_frame ?b = dev_frame b" using b sp by (simp_all add: dev_good_def dev_frame_def)
  show "\<exists>d b'. sys_read (dev_ops K) b BUFSIZ = ret (Some d, b') \<and> d \<noteq> [] \<and> dev_pending b = d @ dev_pending b'
      \<and> dev_good K b' \<and> False = False \<and> dev_frame b' = dev_frame b" if "dev_pending b \<noteq> []"
    using r k that sp by (intro exI [of _ ?d] exI [of _ ?b]) (simp add: dev_ops_def)
  show "\<exists>b'. sys_read (dev_ops K) b BUFSIZ = ret (if False then None else Some [], b') \<and> dev_pending b' = []
      \<and> dev_good K b' \<and> False = False \<and> dev_frame b' = dev_frame b" if "dev_pending b = []"
    using r k that sp by (simp add: dev_ops_def)
qed

lemma dev_write_puts:
  assumes g: "dev_good K (s, pos)" and w: "w \<noteq> []" "length w < BUFFER_SIZE"
    and r: "dev_room K (dev_log s) (length w + n)"
  shows "\<exists>s'. dev_write K (s, pos) w = ret (Some (length w), (s', pos)) \<and> dev_good K (s', pos)
    \<and> dev_log s' = log_write (dev_log s) w \<and> dev_room K (dev_log s') n"
proof -
  have K: "kernel_ok K" "drv_inv K s" "\<not> lock (aesd_device s)" and um: "user_mapped K" and he: "heap_exact s"
    using g by (simp_all add: dev_good_def)
  have u: "unat (of_nat (length w) :: size_t) = length w" "sint (of_nat (length w) :: size_t) = int (length w)"
    using w by (auto simp: BUFFER_SIZE_def intro!: unat_of_nat_small sint_of_small)
  have c: "(of_nat (length w) :: size_t) \<noteq> 0" "unat (of_nat (length w) :: size_t) < 2 ^ 32"
    using u w by (auto simp: word_unat_eq_iff BUFFER_SIZE_def)
  have "mem_available K s (of_nat (length w))"
    using roomy_available [OF g, of "of_nat (length w)"] r u(1) by (simp add: dev_room_def)
  moreover have "user_readable K w (of_nat (length w))" using um u(1) by (simp add: user_mapped_def user_readable_def)
  ultimately obtain s' where s': "aesd_write K s w (of_nat (length w)) = Inr (of_nat (length w), s')" "drv_inv K s'"
    "\<not> lock (aesd_device s')" "dev_log s' = log_write (dev_log s) w" "heap_exact s'"
    using aesd_write_done [OF K c] u(1) he by (metis take_all_iff order_refl)
  have "dev_room K (log_write (dev_log s) w) n"
    using r by (cases "dev_log s") (auto simp: dev_room_def)
  then show ?thesis
    using s' u g by (auto simp: dev_write_def dev_good_def)
qed

lemma dev_lseek_moves:
  assumes g: "dev_good K (s, pos)"
  shows "\<exists>b'. dev_lseek K (s, pos) 0 SEEK_SET = ret (0, b') \<and> dev_good K b' \<and> dev_frame b' = dev_log s
      \<and> dev_pending b' = concat (dev_lines s)"
    and "dev_pending (s, pos) \<noteq> [] \<Longrightarrow> dev_lseek K (s, pos) 0 SEEK_CUR = ret (int (unat pos), (s, pos))"
proof -
  have K: "kernel_ok K" "drv_inv K s" using g by (simp_all add: dev_good_def)
  show "\<exists>b'. dev_lseek K (s, pos) 0 SEEK_SET = ret (0, b') \<and> dev_good K b' \<and> dev_frame b' = dev_log s
      \<and> dev_pending b' = concat (dev_lines s)"
    using g llseek_at [OF K, of pos 0 0]
    by (simp add: dev_lseek_def dev_good_def dev_frame_def dev_pending_def)
  assume p: "dev_pending (s, pos) \<noteq> []"
  then have l: "unat pos < length (concat (dev_lines s))" by (simp add: dev_pending_def)
  then have "unat pos < 2 ^ 63" using stored_small [OF g] by simp
  moreover have l': "uint pos \<le> int (length (concat (dev_lines s)))" using l by (simp add: uint_nat del: of_nat_unat)
  ultimately have "sint pos = int (unat pos)" using sint_of_small [of "unat pos"] by simp
  then show "dev_lseek K (s, pos) 0 SEEK_CUR = ret (int (unat pos), (s, pos))"
    using l' llseek_at [OF K, of pos 0 1] by (simp add: dev_lseek_def Let_def)
qed

lemma dev_ioctl_adjust:
  assumes "kernel_ok K"
  shows "dev_ioctl K (s, pos) x y = run_bind (aesd_adjust_file_offset s pos x y) (\<lambda>(r, pos').
    ret (if sint r < 0 then -1 else sint r, (s, pos')))"
proof -
  let ?K = "K\<lparr>get_seekto := (\<lambda>_. (\<lparr>write_cmd = x, write_cmd_offset = y\<rparr>, 0))\<rparr>"
  have "ioc_ok ?K" "AESDCHAR_IOCSEEKTO ?K = AESDCHAR_IOCSEEKTO K"
    using assms by (simp_all add: kernel_ok_def ioc_ok_def AESDCHAR_IOCSEEKTO_def)
  then have "unlocked_ioctl ?K s pos (AESDCHAR_IOCSEEKTO K) 0 = aesd_adjust_file_offset s pos x y"
    by (simp add: ioc_ok_def unlocked_ioctl_def AESDCHAR_IOCSEEKTO_def AESD_IOC_MAGIC_def AESDCHAR_IOC_MAXNR_def)
  then show ?thesis by (simp add: dev_ioctl_def)
qed

lemma sint_minus_EINVAL: "sint (- EINVAL) < 0"
  by (simp add: EINVAL_def)

lemma dev_ioctl_seeks:
  assumes g: "dev_good K (s, pos)" and safe: "dev_seek_safe (s, pos) x"
  shows "dev_ioctl K (s, pos) x y =
    (case log_seek (dev_log s) x y of None \<Rightarrow> ret (-1, (s, pos)) | Some p \<Rightarrow> ret (0, (s, of_nat p)))"
proof -
  have K: "kernel_ok K" "drv_inv K s" using g by (simp_all add: dev_good_def)
  have small: "sum_list (map length (dev_lines s)) < 2 ^ 64" using total_size_small [OF K] by simp
  show ?thesis
  proof (cases "length (dev_lines s) \<le> unat x")
    case True
    then show ?thesis
      using adjust_no_entry [OF K(2) True] sint_minus_EINVAL
      by (simp add: dev_ioctl_adjust [OF K(1)] log_seek_def dev_log_def)
  next
    case False
    then have c: "unat x < length (dev_lines s)" "unat (out_offs (buffer (aesd_device s))) + unat x < 10"
      using safe by (auto simp: dev_seek_safe_def)
    show ?thesis
      using adjust_in_array [OF K(2) small c, of pos y] sint_minus_EINVAL c(1)
      by (simp add: dev_ioctl_adjust [OF K(1)] log_seek_def dev_log_def)
  qed
qed

lemma log_seek_less:
  assumes "log_seek l x y = Some p"
  shows "p < length (log_text l)"
proof -
  let ?ls = "fst l"
  have x: "unat x < length ?ls" "unat y < length (?ls ! unat x)" "p = length (concat (take (unat x) ?ls)) + unat y"
    using assms by (auto simp: log_seek_def split: if_splits)
  have "concat ?ls = concat (take (unat x) ?ls) @ ?ls ! unat x @ concat (drop (Suc (unat x)) ?ls)"
    using id_take_nth_drop [OF x(1)] by (metis concat.simps(2) concat_append)
  then show ?thesis using x(2,3) by (simp add: log_text_def)
qed

interpretation dev: seek_server sock_read segments_ok incoming reset "\<lambda>_. ()" sock_write connected got
  "dev_ops K" "dev_good K" dev_pending "\<lambda>_. False" dev_frame "\<lambda>_. True" "dev_room K" log_write log_text
  dev_seek_safe log_seek
  for K
proof
  fix b :: dev_fd and w :: string and n p :: nat and x y :: u32
  assume g: "dev_good K b"
  obtain s pos where sp: "b = (s, pos)" by fastforce
  note g' = g [unfolded sp]
  show "\<exists>b'. sys_write (dev_ops K) b w = ret (Some (length w), b') \<and> dev_good K b' \<and> True
        \<and> dev_frame b' = log_write (dev_frame b) w \<and> dev_room K (dev_frame b') n"
    if "w \<noteq> []" "length w < BUFFER_SIZE" "dev_room K (dev_frame b) (length w + n)"
    using dev_write_puts [OF g' that(1,2), of n] that(3) sp by (force simp: dev_ops_def dev_frame_def)
  show "\<exists>p b'. sys_lseek (dev_ops K) b 0 SEEK_SET = ret (p, b') \<and> 0 \<le> p \<and> dev_good K b'
        \<and> dev_frame b' = dev_frame b \<and> dev_pending b' = log_text (dev_frame b)"
    using dev_lseek_moves(1) [OF g'] sp
    by (auto simp: dev_ops_def dev_frame_def log_text_def dev_log_def)
  show "\<exists>q b'. sys_lseek (dev_ops K) b 0 SEEK_CUR = ret (q, b') \<and> 0 \<le> q \<and> dev_good K b'
        \<and> dev_frame b' = dev_frame b \<and> dev_pending b' = dev_pending b" if "dev_pending b \<noteq> []"
    using dev_lseek_moves(2) [OF g'] that g sp by (simp add: dev_ops_def)
  assume safe: "dev_seek_safe b x"
  show "sys_ioctl (dev_ops K) b x y = ret (-1, b)" if "log_seek (dev_frame b) x y = None"
    using dev_ioctl_seeks [OF g' safe [unfolded sp]] that sp by (simp add: dev_ops_def dev_frame_def)
  show "p < length (log_text (dev_frame b)) \<and> (\<exists>b'. sys_ioctl (dev_ops K) b x y = ret (0, b') \<and> dev_good K b'
        \<and> dev_frame b' = dev_frame b \<and> dev_pending b' = drop p (log_text (dev_frame b)))"
    if some: "log_seek (dev_frame b) x y = Some p"
  proof -
    have p: "p < length (log_text (dev_frame b))" by (rule log_seek_less [OF some])
    then have "p < 2 ^ 64" using stored_small [OF g'] sp by (simp add: dev_frame_def log_text_def dev_log_def)
    then have "unat (of_nat p :: loff_t) = p" by (intro unat_of_nat_small) simp
    then show ?thesis
      using p dev_ioctl_seeks [OF g' safe [unfolded sp], of y] some sp g
      by (auto simp: dev_ops_def dev_frame_def dev_good_def dev_pending_def log_text_def dev_log_def)
  qed
qed simp_all

end
