(* ===== verification/Client_Session.thy ===== *)
theory Client_Session
  imports Output_Files
begin

text \<open>
  One client from the accepted connection to the closed sockets: \<^verbatim>\<open>client_thread\<close> and \<^verbatim>\<open>client_thread_wrapper\<close> of
  \<^verbatim>\<open>server/server_impl.c\<close>, and the history of a server whose clients get the output file one after the
  other, which is the order in which they obtain its mutex.  The theorems say what the peers receive and
  what the output file holds afterwards, for the server over the regular file and over the driver.
\<close>

section \<open>The thread of a client\<close>

text \<open>\<^verbatim>\<open>thread_info_t\<close>: the streams of the connection, and what the thread leaves for the clean-up thread.
  The shared part is what \<^verbatim>\<open>data_t\<close> holds for all threads: the output file, its mutex and the semaphore.\<close>

record ('i, 's) thread_info =
  socket_input :: "'i FILE"
  socket_output :: "'s FILE"
  thread_finished :: bool
  thread_ret :: ret_t

record 'b shared =
  output_file :: "'b FILE"
  output_file_mutex :: bool
  finished_posts :: nat

text \<open>\<^verbatim>\<open>fclose\<close>: flush, then \<^verbatim>\<open>close\<close>, whose result is an argument; the stream is gone, its descriptor state stays
  for the peer.\<close>

definition fclose :: "('b \<Rightarrow> string \<Rightarrow> (nat option \<times> 'b) run) \<Rightarrow> int \<Rightarrow> 'b FILE \<Rightarrow> (int \<times> 'b FILE) run" where
  "fclose wr close_ret f =
     run_bind (write_all wr (file_fd f) (wbuf f)) (\<lambda>(ok, b).
       ret (if ok \<and> close_ret = 0 then 0 else -1, f\<lparr>file_fd := b, wbuf := []\<rparr>))"

definition no_write :: "'i \<Rightarrow> string \<Rightarrow> (nat option \<times> 'i) run" where
  "no_write s bs = ret (None, s)"  \<comment> \<open>a stream opened for reading only\<close>

text \<open>What the thread does with the mutex held, and with its sockets afterwards.\<close>

definition client_dialogue ::
  "('i \<Rightarrow> nat \<Rightarrow> (string option \<times> 'i) run) \<Rightarrow> ('s \<Rightarrow> string \<Rightarrow> (nat option \<times> 's) run) \<Rightarrow> 'b fd_ops
    \<Rightarrow> ('i, 's) thread_info \<Rightarrow> 'b FILE \<Rightarrow> (ret_t \<times> ('i, 's) thread_info \<times> 'b FILE) run"
where
  "client_dialogue rd wr ops ti f =
     run_bind (server_protocol rd wr ops (socket_input ti) (socket_output ti) f) (\<lambda>(r, si, so, f).
       ret (if r \<noteq> RET_OK then RET_ERR else RET_OK, ti\<lparr>socket_input := si, socket_output := so\<rparr>, f))"

definition close_sockets ::
  "('s \<Rightarrow> string \<Rightarrow> (nat option \<times> 's) run) \<Rightarrow> int \<times> int \<Rightarrow> ret_t \<Rightarrow> ('i, 's) thread_info
    \<Rightarrow> (ret_t \<times> ('i, 's) thread_info) run"
where
  "close_sockets wr close_rets r ti =
     run_bind (fclose no_write (fst close_rets) (socket_input ti)) (\<lambda>(c1, si).
       let r1 = (if c1 \<noteq> 0 then RET_ERR else r) in
       run_bind (fclose wr (snd close_rets) (socket_output ti)) (\<lambda>(c2, so).
         let r2 = (if c2 \<noteq> 0 then RET_ERR else r1) in
         ret (r2, ti\<lparr>socket_input := si, socket_output := so\<rparr>)))"

text \<open>The thread waits while another one holds the mutex; alone, it would not return then.\<close>

definition client_thread ::
  "('i \<Rightarrow> nat \<Rightarrow> (string option \<times> 'i) run) \<Rightarrow> ('s \<Rightarrow> string \<Rightarrow> (nat option \<times> 's) run) \<Rightarrow> 'b fd_ops
    \<Rightarrow> int \<times> int \<Rightarrow> ('i, 's) thread_info \<Rightarrow> 'b shared \<Rightarrow> (ret_t \<times> ('i, 's) thread_info \<times> 'b shared) run"
where
  "client_thread rd wr ops close_rets ti sh =
     (if output_file_mutex sh then None
      else
        let sh = sh\<lparr>output_file_mutex := True\<rparr> in
        run_bind (client_dialogue rd wr ops ti (output_file sh)) (\<lambda>(r, ti, fo).
          let sh = sh\<lparr>output_file := fo, output_file_mutex := False\<rparr> in
          run_bind (close_sockets wr close_rets r ti) (\<lambda>(r, ti).
            ret (r, ti\<lparr>thread_finished := True\<rparr>, sh\<lparr>finished_posts := finished_posts sh + 1\<rparr>))))"

lemmas client_thread_defs = client_thread_def client_dialogue_def close_sockets_def

definition client_thread_wrapper ::
  "('i \<Rightarrow> nat \<Rightarrow> (string option \<times> 'i) run) \<Rightarrow> ('s \<Rightarrow> string \<Rightarrow> (nat option \<times> 's) run) \<Rightarrow> 'b fd_ops
    \<Rightarrow> int \<times> int \<Rightarrow> ('i, 's) thread_info \<Rightarrow> 'b shared \<Rightarrow> (('i, 's) thread_info \<times> 'b shared) run"
where
  "client_thread_wrapper rd wr ops close_rets ti sh =
     run_bind (client_thread rd wr ops close_rets ti sh) (\<lambda>(r, ti, sh).
       ret (ti\<lparr>thread_ret := r\<rparr>, sh))"

text \<open>The part of \<^verbatim>\<open>server_run\<close> that prepares the thread of an accepted connection.\<close>

definition new_thread_info :: "'i \<Rightarrow> 's \<Rightarrow> ('i, 's) thread_info" where
  "new_thread_info input_fd output_fd =
     \<lparr>socket_input = fdopen input_fd, socket_output = fdopen output_fd, thread_finished = False,
      thread_ret = RET_OK\<rparr>"

text \<open>A history of clients over a socket each: the results and what each peer got.\<close>

fun serve ::
  "'b fd_ops \<Rightarrow> 'b shared \<Rightarrow> (sock_in \<times> sock_out) list \<Rightarrow> ((ret_t \<times> string) list \<times> 'b shared) run"
where
  "serve ops sh [] = ret ([], sh)"
| "serve ops sh ((i, out) # cs) =
     run_bind (client_thread_wrapper sock_read sock_write ops (0, 0) (new_thread_info i out) sh) (\<lambda>(ti, sh).
       run_bind (serve ops sh cs) (\<lambda>(rs, sh).
         ret ((thread_ret ti, got (file_fd (socket_output ti))) # rs, sh)))"

section \<open>Lemmas on the thread\<close>

lemma fclose_input [simp]: "wbuf f = [] \<Longrightarrow> fclose wr 0 f = ret (0, f)"
  by (simp add: fclose_def)

lemma source_of_fdopen:
  "segments_ok i \<Longrightarrow> source_ok segments_ok incoming reset (fdopen i) \<and> avail incoming (fdopen i) = incoming i"
  by (simp add: source_ok_def avail_def fdopen_def)

lemma fclose_output:
  assumes "sout.sink_ok f"
  obtains f' where "fclose sock_write 0 f = ret (0, f')" "got (file_fd f') = sout.outgoing f"
  using sout.write_all_sink [of "file_fd f" "wbuf f"] assms that by (auto simp: fclose_def)

text \<open>From a result of the protocol on fresh sockets to the result of the thread.\<close>

lemma thread_of_protocol:
  assumes free: "\<not> output_file_mutex sh"
    and p: "server_protocol sock_read sock_write ops (fdopen i) (fdopen out) (output_file sh) = ret (r, si, so, fo)"
    and si: "wbuf si = []" and so: "sout.sink_ok so"
  shows "\<exists>ti. client_thread_wrapper sock_read sock_write ops (0, 0) (new_thread_info i out) sh =
      ret (ti, sh\<lparr>output_file := fo, finished_posts := finished_posts sh + 1\<rparr>)
    \<and> thread_ret ti = r \<and> thread_finished ti \<and> got (file_fd (socket_output ti)) = sout.outgoing so"
proof -
  obtain so' where so': "fclose sock_write 0 so = ret (0, so')" "got (file_fd so') = sout.outgoing so"
    using fclose_output [OF so] .
  have r: "(if r \<noteq> RET_OK then RET_ERR else RET_OK) = r" by (cases r) auto
  have m: "sh\<lparr>output_file_mutex := False\<rparr> = sh" using free by simp
  show ?thesis
    using free p si so' r m
    by (simp add: client_thread_wrapper_def client_thread_defs new_thread_info_def Let_def)
qed

section \<open>Effect of the pieces on the stores\<close>

lemma put_pieces_of_line:
  "line w \<Longrightarrow> foldl log_write l (chunks 255 w) = log_write l w"
proof (induction "length w" arbitrary: w l rule: less_induct)
  case less
  let ?c = "first_chunk 255 w" and ?d = "drop (length (first_chunk 255 w)) w"
  have w: "w \<noteq> []" using less.prems line_not_Nil by auto
  consider "?c = w" "chunks 255 w = [w]" | "newline \<notin> set ?c" "line ?d"
    using first_chunk_of_line [OF less.prems, of 255] by auto
  then show ?case
  proof cases
    case 2
    have ne: "?c \<noteq> []" using w by simp
    have nl: "last ?c \<noteq> newline" using 2(1) last_in_set [OF ne] by auto
    have "length ?d < length w" using ne w by (cases ?c) auto
    moreover have "chunks 255 w = ?c # chunks 255 ?d" using w by (simp add: chunks_nonempty)
    ultimately have "foldl log_write l (chunks 255 w) = log_write (log_write l ?c) ?d"
      using less.hyps 2(2) by simp
    also have "\<dots> = log_write l (?c @ ?d)"
      using nl ne line_last [OF 2(2)] line_not_Nil [OF 2(2)] by (cases l) simp
    finally show ?thesis by simp
  qed simp
qed

lemma put_pieces_no_newline:
  "newline \<notin> set (concat cs) \<Longrightarrow> foldl log_write (ls, p) cs = (ls, p @ concat cs)"
proof (induction cs arbitrary: p)
  case (Cons c cs)
  have "last c \<noteq> newline" if "c \<noteq> []"
    using last_in_set [OF that] Cons.prems by auto
  then show ?case using Cons by simp
qed simp

lemma put_pieces_file: "foldl reg_put s cs = (fst s @ concat cs, snd s)"
  by (induction cs arbitrary: s) (simp_all add: reg_put_def)

lemma log_write_line: "line w \<Longrightarrow> log_write (ls, p) w = (keep_last 10 (ls @ [p @ w]), [])"
  using line_last line_not_Nil by simp

section \<open>A client with a complete line\<close>

text \<open>A server between two clients: nobody holds the mutex, the stream of the output file is idle, and a
  write to it appends.\<close>

definition between_clients :: "('b \<Rightarrow> bool) \<Rightarrow> 'b shared \<Rightarrow> bool" where
  "between_clients good sh \<longleftrightarrow> \<not> output_file_mutex sh \<and> idle_stream (output_file sh) \<and> good (file_fd (output_file sh))"

abbreviation stored :: "dev_fd shared \<Rightarrow> line_log" where
  "stored sh \<equiv> dev_frame (file_fd (output_file sh))"

abbreviation file_text :: "reg_file shared \<Rightarrow> string" where
  "file_text sh \<equiv> contents (file_fd (output_file sh))"

lemma dev_protocol_line:
  assumes f: "idle_stream f" "dev_good K (file_fd f)" and i: "segments_ok i" and out: "connected out"
    and w: "line w" "plain w" "incoming i = w @ rest"
    and r: "length (snd (dev_frame (file_fd f))) + length w \<le> kmalloc_max K"
    and nn: "nul \<notin> set (log_text (log_write (dev_frame (file_fd f)) w))"
  obtains si' so' f' where
    "server_protocol sock_read sock_write (dev_ops K) (fdopen i) (fdopen out) f = ret (RET_OK, si', so', f')"
    "wbuf si' = []" "sout.sink_ok so'" "sout.outgoing so' = got out @ log_text (log_write (dev_frame (file_fd f)) w)"
    "idle_stream f'" "dev_good K (file_fd f')" "dev_frame (file_fd f') = log_write (dev_frame (file_fd f)) w"
proof -
  have rm: "dev_room K (dev_frame (file_fd f)) (length w + 0)" using r by (simp add: dev_room_def)
  have ar: "dev.at_rest K f" using f by (simp add: dev.at_rest_def)
  have so: "sout.sink_ok (fdopen out)" using out by (simp add: fdopen_def)
  obtain si' so' fo' where p: "server_protocol sock_read sock_write (dev_ops K) (fdopen i) (fdopen out) f
      = ret (RET_OK, si', so', fo')" "sin.same (fdopen i) si'" "sout.sink_ok so'"
    "sout.outgoing so' = sout.outgoing (fdopen out) @ concat (map cstr (chunks 255 (log_text (log_write (dev_frame (file_fd f)) w))))"
    "dev.at_rest K fo'" "dev_frame (file_fd fo') = log_write (dev_frame (file_fd f)) w"
    using dev.protocol_line [of "fdopen i" "fdopen out" K f w rest 0] source_of_fdopen [OF i] so ar w rm
    unfolding put_pieces_of_line [OF w(1)] by metis
  have "wbuf si' = []" using p(2) by (simp add: fdopen_def)
  then show ?thesis
    using that p nn by (simp add: dev.at_rest_def fdopen_def chunks_no_nul)
qed

lemma dev_client_line:
  assumes sh: "between_clients (dev_good K) sh" and i: "segments_ok i" and out: "connected out"
    and w: "line w" "plain w" "incoming i = w @ rest"
    and r: "length (snd (stored sh)) + length w \<le> kmalloc_max K"
    and nn: "nul \<notin> set (log_text (log_write (stored sh) w))"
  shows "\<exists>ti sh'. client_thread_wrapper sock_read sock_write (dev_ops K) (0, 0) (new_thread_info i out) sh = ret (ti, sh')
    \<and> thread_ret ti = RET_OK \<and> thread_finished ti \<and> between_clients (dev_good K) sh'
    \<and> finished_posts sh' = finished_posts sh + 1 \<and> stored sh' = log_write (stored sh) w
    \<and> got (file_fd (socket_output ti)) = got out @ log_text (log_write (stored sh) w)"
proof -
  have f: "\<not> output_file_mutex sh" "idle_stream (output_file sh)" "dev_good K (file_fd (output_file sh))"
    using sh by (simp_all add: between_clients_def)
  show ?thesis
  proof (rule dev_protocol_line [OF f(2,3) i out w r nn], goal_cases)
    case p: (1 si' so' f')
    from thread_of_protocol [OF f(1) p(1-3)] show ?thesis
      using p(4-) f(1) by (auto simp: between_clients_def)
  qed
qed

lemma file_protocol_line:
  assumes f: "idle_stream f" "reg_ready (file_fd f)" and i: "segments_ok i" and out: "connected out"
    and w: "line w" "plain w" "incoming i = w @ rest"
    and r: "length (contents (file_fd f)) + length w \<le> limit (file_fd f)"
    and nn: "nul \<notin> set (contents (file_fd f))"
  obtains si' so' f' where
    "server_protocol sock_read sock_write reg_ops (fdopen i) (fdopen out) f = ret (RET_OK, si', so', f')"
    "wbuf si' = []" "sout.sink_ok so'" "sout.outgoing so' = got out @ contents (file_fd f) @ w"
    "idle_stream f'" "reg_ready (file_fd f')" "contents (file_fd f') = contents (file_fd f) @ w"
    "limit (file_fd f') = limit (file_fd f)"
proof -
  let ?b = "file_fd f"
  have rm: "reg_room (reg_frame ?b) (length w + 0)" using r by (simp add: reg_room_def reg_frame_def)
  have ar: "freg.at_rest f" using f by (simp add: freg.at_rest_def reg_ready_def reg_good_def)
  have so: "sout.sink_ok (fdopen out)" using out by (simp add: fdopen_def)
  have put: "foldl reg_put (reg_frame ?b) (chunks 255 w) = (contents ?b @ w, limit ?b)"
    by (simp add: put_pieces_file reg_frame_def)
  obtain si' so' fo' where p: "server_protocol sock_read sock_write reg_ops (fdopen i) (fdopen out) f
      = ret (RET_OK, si', so', fo')" "sin.same (fdopen i) si'" "sout.sink_ok so'"
    "sout.outgoing so' = sout.outgoing (fdopen out) @ concat (map cstr (chunks 255 (contents ?b @ w)))"
    "freg.at_rest fo'" "reg_frame (file_fd fo') = (contents ?b @ w, limit ?b)"
    using freg.protocol_line [of "fdopen i" "fdopen out" f w rest 0] source_of_fdopen [OF i] so ar w rm
    unfolding put by (metis fst_conv)
  have "wbuf si' = []" using p(2) by (simp add: fdopen_def)
  moreover have "nul \<notin> set (contents ?b @ w)" using nn w(2) by (simp add: plain_def)
  ultimately show ?thesis
    using that p by (simp add: freg.at_rest_def fdopen_def chunks_no_nul reg_frame_def)
qed

lemma file_client_line:
  assumes sh: "between_clients reg_ready sh" and i: "segments_ok i" and out: "connected out"
    and w: "line w" "plain w" "incoming i = w @ rest"
    and r: "length (file_text sh) + length w \<le> limit (file_fd (output_file sh))"
    and nn: "nul \<notin> set (file_text sh)"
  shows "\<exists>ti sh'. client_thread_wrapper sock_read sock_write reg_ops (0, 0) (new_thread_info i out) sh = ret (ti, sh')
    \<and> thread_ret ti = RET_OK \<and> thread_finished ti \<and> between_clients reg_ready sh'
    \<and> finished_posts sh' = finished_posts sh + 1 \<and> file_text sh' = file_text sh @ w
    \<and> limit (file_fd (output_file sh')) = limit (file_fd (output_file sh))
    \<and> got (file_fd (socket_output ti)) = got out @ file_text sh @ w"
proof -
  have f: "\<not> output_file_mutex sh" "idle_stream (output_file sh)" "reg_ready (file_fd (output_file sh))"
    using sh by (simp_all add: between_clients_def)
  show ?thesis
  proof (rule file_protocol_line [OF f(2,3) i out w r nn], goal_cases)
    case p: (1 si' so' f')
    from thread_of_protocol [OF f(1) p(1-3)] show ?thesis
      using p(4-) f(1) by (auto simp: between_clients_def)
  qed
qed

section \<open>Histories of clients\<close>

text \<open>A client that sends the line \<open>w\<close> (in any segments) over a working connection.\<close>

definition sends :: "sock_in \<times> sock_out \<Rightarrow> string \<Rightarrow> bool" where
  "sends c w \<longleftrightarrow> segments_ok (fst c) \<and> incoming (fst c) = w \<and> connected (snd c) \<and> got (snd c) = []
     \<and> line w \<and> plain w"

text \<open>What the clients get: the \<open>k\<close>-th one the text after the first \<open>k\<close> lines.\<close>

fun replies :: "(string list \<Rightarrow> string) \<Rightarrow> string list \<Rightarrow> string list \<Rightarrow> (ret_t \<times> string) list" where
  "replies view ls [] = []"
| "replies view ls (w # ws) = (RET_OK, view (ls @ [w])) # replies view (ls @ [w]) ws"

lemma length_replies: "length (replies view ls ws) = length ws"
  by (induction ws arbitrary: ls) simp_all

lemma nth_replies: "k < length ws \<Longrightarrow> replies view ls ws ! k = (RET_OK, view (ls @ take (Suc k) ws))"
  by (induction ws arbitrary: ls k) (auto simp: nth_Cons split: nat.splits)

definition last_ten :: "string list \<Rightarrow> string" where
  "last_ten ls = concat (keep_last 10 ls)"

lemma nul_keep_last: "nul \<notin> set (concat ls) \<Longrightarrow> nul \<notin> set (concat (keep_last n ls))"
  using set_keep_last_subset [of n ls] by auto

lemma dev_serve:
  assumes "between_clients (dev_good K) sh" and "stored sh = (keep_last 10 ls, [])" and "nul \<notin> set (concat ls)"
    and "list_all2 sends cs ws" and "list_all (\<lambda>w. length w \<le> kmalloc_max K) ws"
  shows "\<exists>sh'. serve (dev_ops K) sh cs = ret (replies last_ten ls ws, sh')
    \<and> between_clients (dev_good K) sh' \<and> stored sh' = (keep_last 10 (ls @ ws), [])"
  using assms
proof (induction cs arbitrary: sh ls ws)
  case Nil
  then show ?case by simp
next
  case (Cons c cs)
  then obtain w ws' where ws: "ws = w # ws'" "sends c w" "list_all2 sends cs ws'" "length w \<le> kmalloc_max K"
    "list_all (\<lambda>w. length w \<le> kmalloc_max K) ws'"
    by (auto simp: list_all2_Cons1)
  obtain i out where c: "c = (i, out)" by fastforce
  have cl: "segments_ok i" "incoming i = w @ []" "connected out" "got out = []" "line w" "plain w"
    using ws(2) c by (simp_all add: sends_def)
  have l: "log_write (stored sh) w = (keep_last 10 (ls @ [w]), [])"
    using log_write_line [OF cl(5)] Cons.prems(2) by (simp add: keep_last_append_keep)
  have nn: "nul \<notin> set (concat (ls @ [w]))" using Cons.prems(3) cl(6) by (simp add: plain_def)
  have nt: "nul \<notin> set (log_text (log_write (stored sh) w))"
    unfolding l log_text_def fst_conv by (rule nul_keep_last [OF nn])
  obtain ti sh1 where ti: "client_thread_wrapper sock_read sock_write (dev_ops K) (0, 0) (new_thread_info i out) sh = ret (ti, sh1)"
    "thread_ret ti = RET_OK" "between_clients (dev_good K) sh1" "stored sh1 = (keep_last 10 (ls @ [w]), [])"
    "got (file_fd (socket_output ti)) = last_ten (ls @ [w])"
    using dev_client_line [OF Cons.prems(1) cl(1,3,5,6,2) _ nt] Cons.prems(2) ws(4) cl(4) l
    by (auto simp: log_text_def last_ten_def)
  obtain sh' where "serve (dev_ops K) sh1 cs = ret (replies last_ten (ls @ [w]) ws', sh')"
    "between_clients (dev_good K) sh'" "stored sh' = (keep_last 10 ((ls @ [w]) @ ws'), [])"
    using Cons.IH [OF ti(3,4) nn ws(3,5)] by blast
  then show ?case using ti(1,2,5) ws(1) c by simp
qed

lemma file_serve:
  assumes "between_clients reg_ready sh" and "file_text sh = concat ls" and "nul \<notin> set (concat ls)"
    and "list_all2 sends cs ws" and "length (concat ls) + length (concat ws) \<le> limit (file_fd (output_file sh))"
  shows "\<exists>sh'. serve reg_ops sh cs = ret (replies concat ls ws, sh')
    \<and> between_clients reg_ready sh' \<and> file_text sh' = concat (ls @ ws)"
  using assms
proof (induction cs arbitrary: sh ls ws)
  case Nil
  then show ?case by simp
next
  case (Cons c cs)
  then obtain w ws' where ws: "ws = w # ws'" "sends c w" "list_all2 sends cs ws'"
    by (auto simp: list_all2_Cons1)
  obtain i out where c: "c = (i, out)" by fastforce
  have cl: "segments_ok i" "incoming i = w @ []" "connected out" "got out = []" "line w" "plain w"
    using ws(2) c by (simp_all add: sends_def)
  have nn: "nul \<notin> set (concat (ls @ [w]))" using Cons.prems(3) cl(6) by (simp add: plain_def)
  have r: "length (file_text sh) + length w \<le> limit (file_fd (output_file sh))"
    using Cons.prems(2,5) ws(1) by simp
  obtain ti sh1 where ti: "client_thread_wrapper sock_read sock_write reg_ops (0, 0) (new_thread_info i out) sh = ret (ti, sh1)"
    "thread_ret ti = RET_OK" "between_clients reg_ready sh1" "file_text sh1 = concat (ls @ [w])"
    "limit (file_fd (output_file sh1)) = limit (file_fd (output_file sh))"
    "got (file_fd (socket_output ti)) = concat (ls @ [w])"
    using file_client_line [OF Cons.prems(1) cl(1,3,5,6,2) r] Cons.prems(2,3) cl(4) by auto
  have "length (concat (ls @ [w])) + length (concat ws') \<le> limit (file_fd (output_file sh1))"
    using Cons.prems(5) ws(1) ti(5) by simp
  then obtain sh' where "serve reg_ops sh1 cs = ret (replies concat (ls @ [w]) ws', sh')"
    "between_clients reg_ready sh'" "file_text sh' = concat ((ls @ [w]) @ ws')"
    using Cons.IH [OF ti(3,4) nn ws(3)] by blast
  then show ?case using ti(1,2,6) ws(1) c by simp
qed

section \<open>Commands and broken clients\<close>

lemma length_show_dec: "n < 10 ^ k \<Longrightarrow> 0 < k \<Longrightarrow> length (show_dec n) \<le> k"
proof (induction k arbitrary: n)
  case (Suc k)
  show ?case
  proof (cases "n < 10")
    case True
    then show ?thesis by (subst show_dec.simps) simp
  next
    case False
    then have "n div 10 < 10 ^ k" "0 < k" using Suc.prems(1) by (auto intro: gr0I simp: less_mult_imp_div_less)
    then have "length (show_dec (n div 10)) \<le> k" using Suc.IH by blast
    then show ?thesis using False by (subst show_dec.simps) simp
  qed
qed simp

lemma seek_line:
  assumes "x < 2 ^ 32" and "y < 2 ^ 32"
  defines "w \<equiv> show_seek x y @ [newline]"
  shows "line w" and "length w \<le> 255" and "parse_seek (cstr w) = Some (of_nat x, of_nat y)"
proof -
  have n: "c \<noteq> newline \<and> c \<noteq> nul" if "c \<in> set (show_dec z)" for c z
    using show_dec_set [OF that] isdigit_not_space_sign by blast
  have p: "newline \<notin> set seek_prefix" "nul \<notin> set seek_prefix" by (simp_all add: seek_prefix_def)
  have s: "newline \<notin> set (show_seek x y)" "nul \<notin> set w"
    using n p by (auto simp: show_seek_def w_def)
  show "line w" using s(1) by (auto simp: line_def w_def)
  have "length (show_dec x) \<le> 10" "length (show_dec y) \<le> 10" using assms(1,2) by (auto intro!: length_show_dec)
  then show "length w \<le> 255" by (simp add: w_def show_seek_def seek_prefix_def)
  have "int x \<le> LONG_MAX" "int y \<le> LONG_MAX" using assms(1,2) by (simp_all add: LONG_MAX_def)
  then show "parse_seek (cstr w) = Some (of_nat x, of_nat y)"
    using parse_seek_show [of x y "[newline]"] s(2) by (simp add: w_def isdigit_def)
qed

lemma u32_of_nat: "x < 2 ^ 32 \<Longrightarrow> unat (of_nat x :: u32) = x"
  by (intro unat_of_nat_small) simp

lemma drop_concat_nth:
  assumes "x < length ls" and "y \<le> length (ls ! x)"
  shows "drop (length (concat (take x ls)) + y) (concat ls) = drop y (ls ! x) @ concat (drop (Suc x) ls)"
proof -
  have e: "concat ls = concat (take x ls) @ ls ! x @ concat (drop (Suc x) ls)"
    using id_take_nth_drop [OF assms(1)] by (metis concat.simps(2) concat_append)
  have "drop (length a + y) (a @ b @ c) = drop y b @ c" if "y \<le> length b" for a b c :: "'a list"
    using that by simp
  then show ?thesis using assms(2) by (subst e) blast
qed

text \<open>A send to a peer that is gone fails as soon as the stream's buffer is full, with the output file in the
  middle of being read.\<close>

lemma send_loop_gone:
  "source_ok reg_good reg_pending (\<lambda>_. False) f \<Longrightarrow> gone (file_fd so) \<Longrightarrow> dir so \<noteq> Reading \<Longrightarrow>
    nul \<notin> set (avail reg_pending f) \<Longrightarrow> BUFSIZ + 255 \<le> length (wbuf so) + length (avail reg_pending f) \<Longrightarrow>
    length (wbuf so) < BUFSIZ \<Longrightarrow>
    \<exists>f' so'. send_loop (sys_read reg_ops) sock_write f so = ret (False, f', so') \<and> dir f' = Reading
      \<and> reg_frame (file_fd f') = reg_frame (file_fd f) \<and> wbuf so' = []"
proof (induction "length (avail reg_pending f)" arbitrary: f so rule: less_induct)
  case less
  let ?s = "avail reg_pending f"
  have big: "255 < length ?s" using less.prems(5,6) by simp
  then have nr: "\<not> ran_out 255 ?s" "?s \<noteq> []" using ran_out_short [of 255 ?s] by auto
  obtain f1 where f1: "fgets (sys_read reg_ops) (Suc 255) f = ret (Some (first_chunk 255 ?s), f1)"
    "freg_src.same f f1" "avail reg_pending f1 = drop (length (first_chunk 255 ?s)) ?s" "dir f1 = Reading"
    using freg_src.fgets_reads [OF less.prems(1), of 255] nr by auto
  let ?c = "first_chunk 255 ?s"
  have c: "?c \<noteq> []" "nul \<notin> set ?c" "length ?c \<le> 255"
    using nr(2) less.prems(4) set_first_chunk [of 255 ?s] length_first_chunk [of 255 ?s] by auto
  show ?case
  proof (cases "length (wbuf so) + length ?c < BUFSIZ")
    case True
    let ?so = "so\<lparr>wbuf := wbuf so @ ?c, dir := Writing\<rparr>"
    have w: "fwrite sock_write ?c so = ret (length ?c, ?so)"
      using True c(1) less.prems(3) by (simp add: fwrite_def)
    have "length (avail reg_pending f1) < length ?s" using f1(3) c(1) big by simp
    moreover have "nul \<notin> set (avail reg_pending f1)"
      using f1(3) less.prems(4) set_drop_subset [of "length ?c" ?s] by auto
    moreover have "BUFSIZ + 255 \<le> length (wbuf ?so) + length (avail reg_pending f1)"
      using less.prems(5) f1(3) length_first_chunk_le [of 255 ?s] by simp
    ultimately obtain f' so' where "send_loop (sys_read reg_ops) sock_write f1 ?so = ret (False, f', so')" "dir f' = Reading"
      "reg_frame (file_fd f') = reg_frame (file_fd f1)" "wbuf so' = []"
      using less.hyps [of f1 ?so] f1(2) less.prems(2) True by auto
    then show ?thesis
      using f1(1,2) w c by (subst send_loop.simps) (simp add: BUFFER_SIZE_Suc strlen_def)
  next
    case False
    have "write_all sock_write (file_fd so) (wbuf so @ ?c) = ret (False, file_fd so)"
      using less.prems(2) c(1) by (subst write_all.simps) (simp add: sock_write_def)
    then have "fwrite sock_write ?c so = ret (0, so\<lparr>wbuf := [], err_seen := True, dir := Writing\<rparr>)"
      using False c(1) less.prems(3) by (simp add: fwrite_def)
    then show ?thesis
      using f1(1,2,4) c by (subst send_loop.simps) (simp add: BUFFER_SIZE_Suc strlen_def)
  qed
qed

text \<open>The next client's output then follows input directly.\<close>

lemma receive_while_reading:
  assumes i: "segments_ok i" and w: "incoming i = w" "line w" "plain w" and d: "dir fo = Reading"
  shows "server_protocol sock_read wr ops (fdopen i) so fo = Some (Inl Stream_order)"
proof -
  have n: "newline \<in> set w" "w \<noteq> []" using w(2) line_last line_not_Nil by auto
  obtain si' where si': "fgets sock_read (Suc 255) (fdopen i) = ret (Some (first_chunk 255 w), si')"
    using sin.fgets_reads [of "fdopen i" 255] source_of_fdopen [OF i] n first_chunk_append [OF n(1), of 255 "[]"] w(1)
    by auto
  note pl = plain_step [OF w(3) n(2)]
  have "receive_loop sock_read ops (fdopen i) fo = Some (Inl Stream_order)"
    using si' pl n(2) d by (subst receive_loop.simps) (simp add: BUFFER_SIZE_Suc fwrite_def)
  then show ?thesis by (simp add: server_protocol_def)
qed

section \<open>Examples\<close>

lemma pool_kernel_roomy: "roomy pool_kernel"
proof -
  have f: "List.find (\<lambda>a. h a = None) [0..<32] \<noteq> None" if "finite (dom h)" "card (dom h) < 12" for h :: kheap
  proof
    assume "List.find (\<lambda>a. h a = None) [0..<32] = None"
    then have "set [0..<32] \<subseteq> dom h" by (auto simp: find_None_iff)
    then have "card (set [0..<32 :: nat]) \<le> card (dom h)" using that(1) by (intro card_mono) simp_all
    then show False using that(2) by simp
  qed
  show ?thesis
    unfolding roomy_def
  proof (intro conjI allI impI)
    fix h :: kheap and n :: size_t
    assume a: "finite (dom h) \<and> card (dom h) < 12 \<and> unat n \<le> kmalloc_max pool_kernel"
    then obtain b where "List.find (\<lambda>a. h a = None) [0..<32] = Some b" using f [of h] by auto
    then show "snd (kmalloc pool_kernel h n) \<noteq> NULL" using a by (simp add: pool_kernel_def del: upt_rec_numeral)
  qed (simp add: pool_kernel_def)
qed

lemma pool_kernel_mapped: "user_mapped pool_kernel"
  by (simp add: user_mapped_def pool_kernel_def Let_def)

definition dev_shared :: "driver \<Rightarrow> dev_fd shared" where
  "dev_shared s = \<lparr>output_file = fdopen (s, 0), output_file_mutex = False, finished_posts = 0\<rparr>"

definition file_shared :: "string \<Rightarrow> reg_file shared" where
  "file_shared t = \<lparr>output_file = fdopen \<lparr>contents = t, offset = length t, limit = 100000\<rparr>,
     output_file_mutex = False, finished_posts = 0\<rparr>"

definition peer :: sock_out where
  "peer = \<lparr>got = [], window = 1000, gone = False\<rparr>"

lemma dev_shared_ok:
  assumes "drv_inv pool_kernel s" and "\<not> lock (aesd_device s)" and "heap_exact s"
  shows "between_clients (dev_good pool_kernel) (dev_shared s)" and "stored (dev_shared s) = dev_log s"
  using assms pool_kernel_ok pool_kernel_roomy pool_kernel_mapped
  by (simp_all add: between_clients_def dev_shared_def idle_stream_def fdopen_def dev_good_def dev_frame_def)

lemma file_shared_ok: "between_clients reg_ready (file_shared t)" "file_text (file_shared t) = t"
  "limit (file_fd (output_file (file_shared t))) = 100000"
  by (simp_all add: between_clients_def file_shared_def idle_stream_def fdopen_def reg_ready_def)

lemma peer_ok: "connected peer" "got peer = []"
  by (simp_all add: connected_def peer_def)

lemma hi_line: "line (''hi'' @ [newline])" "plain (''hi'' @ [newline])"
proof -
  show l: "line (''hi'' @ [newline])" unfolding line_def by (intro exI [of _ "''hi''"]) simp
  have "first_chunk 255 (''hi'' @ [newline]) = ''hi'' @ [newline]" using l by (intro first_chunk_short) simp_all
  then have "chunks 255 (''hi'' @ [newline]) = [''hi'' @ [newline]]" by (subst chunks.simps) simp
  moreover have "parse_seek (''hi'' @ [newline]) = None"
    by (simp add: parse_seek_def strncmp_eq_take seek_prefix_def)
  ultimately show "plain (''hi'' @ [newline])" by (simp add: plain_def)
qed

lemma hi_sends: "sends (\<lparr>segments = [''h'', ''i'' @ [newline]], reset = False\<rparr>, peer) (''hi'' @ [newline])"
  using hi_line peer_ok by (simp add: sends_def segments_ok_def incoming_def)

section \<open>Properties of the server's sessions\<close>

text \<open>C3. The server over the driver, end to end: for clients that each send one complete line of text (in
  any TCP segments, of any length the allocator can hold) and are served one after the other on a freshly
  loaded device, every thread succeeds and the \<open>k\<close>-th client gets exactly the last ten of the lines sent
  up to its own, its own included; the device holds the last ten lines at the end.\<close>

theorem device_sessions_reply_last_ten:
  assumes "between_clients (dev_good K) sh" and "stored sh = ([], [])"
    and "list_all2 sends cs ws" and "list_all (\<lambda>w. length w \<le> kmalloc_max K) ws"
  shows "\<exists>rs sh'. serve (dev_ops K) sh cs = ret (rs, sh') \<and> length rs = length cs
    \<and> (\<forall>k < length cs. rs ! k = (RET_OK, concat (keep_last 10 (take (Suc k) ws))))
    \<and> stored sh' = (keep_last 10 ws, []) \<and> between_clients (dev_good K) sh'"
proof -
  obtain sh' where "serve (dev_ops K) sh cs = ret (replies last_ten [] ws, sh')"
    "between_clients (dev_good K) sh'" "stored sh' = (keep_last 10 ws, [])"
    using dev_serve [of K sh "[]" cs ws] assms by auto
  then show ?thesis
    using list_all2_lengthD [OF assms(3)] by (auto simp: length_replies nth_replies last_ten_def)
qed

theorem device_sessions_reply_last_ten_witness:
  "\<exists>sh'. serve (dev_ops pool_kernel) (dev_shared fresh_driver)
       [(\<lparr>segments = [''h'', ''i'' @ [newline]], reset = False\<rparr>, peer)] = ret ([(RET_OK, ''hi'' @ [newline])], sh')"
proof -
  note d = dev_shared_ok [OF fresh_driver_inv(1-3)]
  have m: "list_all (\<lambda>w. length w \<le> kmalloc_max pool_kernel) [''hi'' @ [newline]]" by (simp add: pool_kernel_def)
  obtain rs sh' where "serve (dev_ops pool_kernel) (dev_shared fresh_driver)
      [(\<lparr>segments = [''h'', ''i'' @ [newline]], reset = False\<rparr>, peer)] = ret (rs, sh')" "length rs = 1"
    "rs ! 0 = (RET_OK, ''hi'' @ [newline])"
    using device_sessions_reply_last_ten [OF d(1) _ _ m, of "[(\<lparr>segments = [''h'', ''i'' @ [newline]], reset = False\<rparr>, peer)]"]
      d(2) fresh_driver_inv(4) hi_sends by auto
  then show ?thesis by (cases rs) auto
qed

text \<open>C17. The server over the regular file: every client gets everything sent so far, its own line
  included, and the file holds all lines in order, as long as the file system has room.\<close>

theorem file_sessions_reply_everything:
  assumes "between_clients reg_ready sh" and "file_text sh = []"
    and "list_all2 sends cs ws" and "length (concat ws) \<le> limit (file_fd (output_file sh))"
  shows "\<exists>rs sh'. serve reg_ops sh cs = ret (rs, sh') \<and> length rs = length cs
    \<and> (\<forall>k < length cs. rs ! k = (RET_OK, concat (take (Suc k) ws)))
    \<and> file_text sh' = concat ws \<and> between_clients reg_ready sh'"
proof -
  obtain sh' where "serve reg_ops sh cs = ret (replies concat [] ws, sh')"
    "between_clients reg_ready sh'" "file_text sh' = concat ws"
    using file_serve [of sh "[]" cs ws] assms by auto
  then show ?thesis
    using list_all2_lengthD [OF assms(3)] by (auto simp: length_replies nth_replies)
qed

theorem file_sessions_reply_everything_witness:
  "\<exists>sh'. serve reg_ops (file_shared []) [(\<lparr>segments = [''h'', ''i'' @ [newline]], reset = False\<rparr>, peer)]
       = ret ([(RET_OK, ''hi'' @ [newline])], sh')"
proof -
  obtain rs sh' where "serve reg_ops (file_shared []) [(\<lparr>segments = [''h'', ''i'' @ [newline]], reset = False\<rparr>, peer)]
      = ret (rs, sh')" "length rs = 1" "rs ! 0 = (RET_OK, ''hi'' @ [newline])"
    using file_sessions_reply_everything [OF file_shared_ok(1,2),
        of "[(\<lparr>segments = [''h'', ''i'' @ [newline]], reset = False\<rparr>, peer)]" "[''hi'' @ [newline]]"] hi_sends
    by (auto simp: file_shared_ok(3))
  then show ?thesis by (cases rs) auto
qed

text \<open>C15. The seek command, from the bytes on the socket to the bytes of the reply: \<open>AESDCHAR_IOCSEEKTO:x,y\<close>
  makes the server over the driver reply with the text from byte \<open>y\<close> of stored line \<open>x\<close> to the end; if there
  is no such byte the thread fails and replies nothing.  Nothing is stored in either case.  (The line must
  not be one that the driver would look up past its array.)\<close>

theorem seek_command_dialogue:
  assumes "between_clients (dev_good K) sh" and "segments_ok i" and "connected out" and "x < 2 ^ 32" and "y < 2 ^ 32"
    and "incoming i = show_seek x y @ newline # rest" and "dev_seek_safe (file_fd (output_file sh)) (of_nat x)"
    and "nul \<notin> set (log_text (stored sh))"
  shows "\<exists>ti sh'. client_thread_wrapper sock_read sock_write (dev_ops K) (0, 0) (new_thread_info i out) sh = ret (ti, sh')
    \<and> stored sh' = stored sh \<and> between_clients (dev_good K) sh'
    \<and> (let ls = fst (stored sh) in
       if x < length ls \<and> y < length (ls ! x)
       then thread_ret ti = RET_OK
         \<and> got (file_fd (socket_output ti)) = got out @ drop y (ls ! x) @ concat (drop (Suc x) ls)
       else thread_ret ti = RET_ERR \<and> got (file_fd (socket_output ti)) = got out)"
proof -
  let ?ls = "fst (stored sh)" and ?w = "show_seek x y @ [newline]"
  note w = seek_line [OF assms(4,5)]
  have ux: "unat (of_nat x :: u32) = x" "unat (of_nat y :: u32) = y" using assms(4,5) by (simp_all add: u32_of_nat)
  let ?v = "log_seek (stored sh) (of_nat x) (of_nat y)"
  have v: "?v = (if x < length ?ls \<and> y < length (?ls ! x) then Some (length (concat (take x ?ls)) + y) else None)"
    unfolding log_seek_def ux ..
  have ar: "dev.at_rest K (output_file sh)" using assms(1) by (simp add: between_clients_def dev.at_rest_def)
  have so: "sout.sink_ok (fdopen out)" using assms(3) by (simp add: fdopen_def)
  have av: "avail incoming (fdopen i) = ?w @ rest" using source_of_fdopen [OF assms(2)] assms(6) by simp
  obtain si' so' fo' where p: "server_protocol sock_read sock_write (dev_ops K) (fdopen i) (fdopen out) (output_file sh)
      = ret (if ?v = None then RET_ERR else RET_OK, si', so', fo')" "sin.same (fdopen i) si'" "sout.sink_ok so'"
    "sout.outgoing so' = sout.outgoing (fdopen out) @ (case ?v of None \<Rightarrow> []
       | Some p \<Rightarrow> concat (map cstr (chunks 255 (drop p (log_text (stored sh))))))"
    "dev.at_rest K fo'" "dev_frame (file_fd fo') = stored sh"
    by (rule dev.protocol_seek [OF conjunct1 [OF source_of_fdopen [OF assms(2)]] so ar av w assms(7)])
  have si: "wbuf si' = []" using p(2) by (simp add: fdopen_def)
  have nn: "concat (map cstr (chunks 255 (drop n (log_text (stored sh))))) = drop n (log_text (stored sh))" for n
    using assms(8) set_drop_subset by (intro chunks_no_nul) (simp, fast)
  have "\<not> output_file_mutex sh" using assms(1) by (simp add: between_clients_def)
  from thread_of_protocol [OF this p(1) si p(3)] obtain ti where
    ti: "client_thread_wrapper sock_read sock_write (dev_ops K) (0, 0) (new_thread_info i out) sh =
      ret (ti, sh\<lparr>output_file := fo', finished_posts := finished_posts sh + 1\<rparr>)"
    "thread_ret ti = (if ?v = None then RET_ERR else RET_OK)" "got (file_fd (socket_output ti)) = sout.outgoing so'"
    by blast
  have "between_clients (dev_good K) (sh\<lparr>output_file := fo', finished_posts := finished_posts sh + 1\<rparr>)"
    using assms(1) p(5) by (simp add: between_clients_def dev.at_rest_def)
  moreover have "drop (length (concat (take x ?ls)) + y) (log_text (stored sh)) = drop y (?ls ! x) @ concat (drop (Suc x) ?ls)"
    if "x < length ?ls" "y < length (?ls ! x)"
    unfolding log_text_def using that by (intro drop_concat_nth) simp_all
  ultimately show ?thesis
    using ti p(6) v p(4) [unfolded nn] by (auto simp: Let_def)
qed

theorem seek_command_dialogue_witness:
  "\<exists>ti sh'. client_thread_wrapper sock_read sock_write (dev_ops pool_kernel) (0, 0)
      (new_thread_info \<lparr>segments = [show_seek 0 1 @ [newline]], reset = False\<rparr> peer) (dev_shared sample_driver)
        = ret (ti, sh')
     \<and> thread_ret ti = RET_OK \<and> got (file_fd (socket_output ti)) = ''i'' @ [newline]"
proof -
  note d = dev_shared_ok [OF sample_driver_inv(1-3)]
  have s: "stored (dev_shared sample_driver) = ([''hi'' @ [newline]], ''ab'')" using d(2) sample_driver_inv(4) by simp
  have safe: "dev_seek_safe (file_fd (output_file (dev_shared sample_driver))) (of_nat 0)"
    by (simp add: dev_seek_safe_def dev_shared_def fdopen_def sample_driver_def)
  show ?thesis
    using seek_command_dialogue [OF d(1) _ peer_ok(1), of "\<lparr>segments = [show_seek 0 1 @ [newline]], reset = False\<rparr>" 0 1 "[]"]
      safe s peer_ok(2)
    by (auto simp: segments_ok_def incoming_def log_text_def show_seek_def)
qed

text \<open>C25. A client that closes (or loses) the connection before a newline gets an error and no data, but
  what it sent stays in the device's unfinished line, where the next client's line continues it: only the
  last incomplete piece is dropped when the connection is reset.\<close>

theorem unfinished_line_is_kept:
  assumes "between_clients (dev_good K) sh" and "segments_ok i" and "connected out"
    and "newline \<notin> set (incoming i)" and "plain (incoming i)"
    and "length (snd (stored sh)) + length (incoming i) \<le> kmalloc_max K"
  shows "\<exists>ti sh'. client_thread_wrapper sock_read sock_write (dev_ops K) (0, 0) (new_thread_info i out) sh = ret (ti, sh')
    \<and> thread_ret ti = RET_ERR \<and> got (file_fd (socket_output ti)) = got out \<and> between_clients (dev_good K) sh'
    \<and> stored sh' = (fst (stored sh), snd (stored sh) @
         (if reset i then take (length (incoming i) div 255 * 255) (incoming i) else incoming i))"
proof -
  let ?w = "incoming i"
  have ar: "dev.at_rest K (output_file sh)" using assms(1) by (simp add: between_clients_def dev.at_rest_def)
  note src = source_of_fdopen [OF assms(2)]
  have rm: "dev_room K (stored sh) (length ?w + 0)" using assms(6) by (simp add: dev_room_def)
  obtain si' fo' where p: "server_protocol sock_read sock_write (dev_ops K) (fdopen i) (fdopen out) (output_file sh)
      = ret (RET_ERR, si', fdopen out, fo')" "wbuf si' = []" "dev.at_rest K fo'"
    "dev_frame (file_fd fo') = foldl log_write (stored sh) (filter (\<lambda>c. length c = 255 \<or> \<not> reset i) (chunks 255 ?w))"
    using dev.protocol_incomplete [of "fdopen i" K "output_file sh" 0 "fdopen out"] src ar assms(4,5) rm
    by (metis fdopen_sel)
  let ?cs = "filter (\<lambda>c. length c = 255 \<or> \<not> reset i) (chunks 255 ?w)"
  have cs: "concat ?cs = (if reset i then take (length ?w div 255 * 255) ?w else ?w)"
    using full_chunks [of ?w 255] assms(4) by simp
  then have "newline \<notin> set (concat ?cs)" using assms(4) set_take_subset [of _ ?w] by (auto split: if_splits)
  then have f: "foldl log_write (stored sh) ?cs = (fst (stored sh), snd (stored sh) @ concat ?cs)"
    using put_pieces_no_newline [of ?cs "fst (stored sh)" "snd (stored sh)"] by simp
  have so: "sout.sink_ok (fdopen out)" "sout.outgoing (fdopen out) = got out" using assms(3) by (simp_all add: fdopen_def)
  have "\<not> output_file_mutex sh" using assms(1) by (simp add: between_clients_def)
  from thread_of_protocol [OF this p(1,2) so(1)] obtain ti where
    ti: "client_thread_wrapper sock_read sock_write (dev_ops K) (0, 0) (new_thread_info i out) sh =
      ret (ti, sh\<lparr>output_file := fo', finished_posts := finished_posts sh + 1\<rparr>)"
    "thread_ret ti = RET_ERR" "got (file_fd (socket_output ti)) = got out"
    using so(2) by metis
  have "between_clients (dev_good K) (sh\<lparr>output_file := fo', finished_posts := finished_posts sh + 1\<rparr>)"
    using assms(1) p(3) by (simp add: between_clients_def dev.at_rest_def)
  then show ?thesis using ti p(4) f cs by simp
qed

theorem unfinished_line_is_kept_witness:
  "\<exists>ti sh'. client_thread_wrapper sock_read sock_write (dev_ops pool_kernel) (0, 0)
      (new_thread_info \<lparr>segments = [''cd''], reset = False\<rparr> peer) (dev_shared sample_driver) = ret (ti, sh')
     \<and> thread_ret ti = RET_ERR \<and> stored sh' = ([''hi'' @ [newline]], ''abcd'')"
proof -
  note d = dev_shared_ok [OF sample_driver_inv(1-3)]
  have s: "stored (dev_shared sample_driver) = ([''hi'' @ [newline]], ''ab'')" using d(2) sample_driver_inv(4) by simp
  have "chunks 255 ''cd'' = [''cd'']" by (simp add: chunks_ran_out numeral_eq_Suc)
  then have "plain ''cd''" by (simp add: plain_def parse_seek_def strncmp_eq_take seek_prefix_def)
  then show ?thesis
    using unfinished_line_is_kept [OF d(1) _ peer_ok(1), of "\<lparr>segments = [''cd''], reset = False\<rparr>"] s
    by (auto simp: segments_ok_def incoming_def pool_kernel_def)
qed

text \<open>C31. A line that starts with a NUL byte makes the server read before its buffer: \<^verbatim>\<open>fgets\<close> reports a line,
  \<^verbatim>\<open>strlen\<close> is zero, and \<^verbatim>\<open>buffer[length-1]\<close> is outside the array.\<close>

theorem nul_line_leaves_buffer:
  assumes "between_clients (dev_good K) sh" and "segments_ok i" and "incoming i = nul # s" and "newline \<in> set s"
  shows "client_thread_wrapper sock_read sock_write (dev_ops K) (0, 0) (new_thread_info i out) sh
    = Some (Inl Out_of_bounds)"
proof -
  have ar: "dev.at_rest K (output_file sh)" using assms(1) by (simp add: between_clients_def dev.at_rest_def)
  have "server_protocol sock_read sock_write (dev_ops K) (fdopen i) (fdopen out) (output_file sh) = Some (Inl Out_of_bounds)"
    using dev.protocol_nul [of "fdopen i" K "output_file sh" s "fdopen out"] source_of_fdopen [OF assms(2)] ar assms(3,4)
    by simp
  then show ?thesis
    using assms(1) by (simp add: client_thread_wrapper_def client_thread_defs new_thread_info_def between_clients_def)
qed

theorem nul_line_leaves_buffer_witness:
  "client_thread_wrapper sock_read sock_write (dev_ops pool_kernel) (0, 0)
     (new_thread_info \<lparr>segments = [[nul, newline]], reset = False\<rparr> peer) (dev_shared fresh_driver)
   = Some (Inl Out_of_bounds)"
  using nul_line_leaves_buffer [OF dev_shared_ok(1) [OF fresh_driver_inv(1-3)],
      of "\<lparr>segments = [[nul, newline]], reset = False\<rparr>" "[newline]" peer]
  by (simp add: segments_ok_def incoming_def)

text \<open>C30. A client that disappears while a text larger than the stream buffers is sent to it leaves the output
  stream in the middle of its input: the thread reports the error, its line is stored, but the next
  client's line is then written directly after input, which C leaves undefined.\<close>

theorem aborted_send_breaks_next_client:
  assumes "between_clients reg_ready sh" and "segments_ok i" and "gone out" and "line w" and "plain w"
    and "incoming i = w" and "nul \<notin> set (file_text sh)"
    and "length (file_text sh) + length w \<le> limit (file_fd (output_file sh))"
    and "BUFSIZ + 255 \<le> length (file_text sh) + length w"
  shows "\<exists>ti sh'. client_thread_wrapper sock_read sock_write reg_ops (0, 0) (new_thread_info i out) sh = ret (ti, sh')
    \<and> thread_ret ti = RET_ERR \<and> file_text sh' = file_text sh @ w \<and> \<not> output_file_mutex sh'
    \<and> (\<forall>c w'. sends c w' \<longrightarrow>
        client_thread_wrapper sock_read sock_write reg_ops (0, 0) (new_thread_info (fst c) (snd c)) sh'
          = Some (Inl Stream_order))"
proof -
  let ?b = "file_fd (output_file sh)"
  have rm: "reg_room (reg_frame ?b) (length w + 0)" using assms(8) by (simp add: reg_room_def reg_frame_def)
  have ar: "freg.at_rest (output_file sh)"
    using assms(1) by (simp add: between_clients_def freg.at_rest_def reg_ready_def reg_good_def)
  have fr: "foldl reg_put (reg_frame ?b) (chunks 255 w) = (file_text sh @ w, limit ?b)"
    by (simp add: put_pieces_file reg_frame_def)
  obtain si' f1 where a: "receive_loop sock_read reg_ops (fdopen i) (output_file sh) = ret (Got_line, si', f1)"
    "sin.same (fdopen i) si'" "freg.at_rest f1" "reg_frame (file_fd f1) = (file_text sh @ w, limit ?b)"
    using freg.receive_line [of "fdopen i" "output_file sh" w "[]" 0] source_of_fdopen [OF assms(2)] ar assms(4-6) rm
    unfolding fr by auto
  obtain f2 where b: "rewind reg_ops f1 = ret f2" "source_ok reg_good reg_pending (\<lambda>_. False) f2"
    "avail reg_pending f2 = file_text sh @ w" "reg_frame (file_fd f2) = (file_text sh @ w, limit ?b)"
    using freg.rewind_store [OF a(3)] a(4) by auto
  have nn: "nul \<notin> set (file_text sh @ w)" using assms(5,7) by (simp add: plain_def)
  have big: "BUFSIZ + 255 \<le> length (wbuf (fdopen out)) + length (file_text sh @ w)" using assms(9) by simp
  obtain f3 so' where c: "send_loop (sys_read reg_ops) sock_write f2 (fdopen out) = ret (False, f3, so')" "dir f3 = Reading"
    "reg_frame (file_fd f3) = (file_text sh @ w, limit ?b)" "wbuf so' = []"
    using send_loop_gone [OF b(2), of "fdopen out"] assms(3) nn big b(3,4) by (auto simp: BUFSIZ_def)
  let ?sh = "sh\<lparr>output_file := f3, finished_posts := finished_posts sh + 1\<rparr>"
  have free: "\<not> output_file_mutex sh" using assms(1) by (simp add: between_clients_def)
  then have m: "sh\<lparr>output_file_mutex := False\<rparr> = sh" by simp
  have "server_protocol sock_read sock_write reg_ops (fdopen i) (fdopen out) (output_file sh) = ret (RET_ERR, si', so', f3)"
    using a(1) b(1) c(1) by (simp add: server_protocol_def)
  moreover have "wbuf si' = []" using a(2) by simp
  ultimately have "\<exists>ti. client_thread_wrapper sock_read sock_write reg_ops (0, 0) (new_thread_info i out) sh = ret (ti, ?sh)
      \<and> thread_ret ti = RET_ERR"
    using c(4) free m by (simp add: client_thread_wrapper_def client_thread_defs new_thread_info_def Let_def)
  moreover have "file_text ?sh = file_text sh @ w" using c(3) by (simp add: reg_frame_def)
  moreover have "client_thread_wrapper sock_read sock_write reg_ops (0, 0) (new_thread_info (fst k) (snd k)) ?sh
      = Some (Inl Stream_order)" if "sends k w'" for k w'
    using receive_while_reading [of "fst k" w' f3 sock_write reg_ops "fdopen (snd k)"] that c(2) free
    by (simp add: client_thread_wrapper_def client_thread_defs new_thread_info_def sends_def)
  ultimately show ?thesis using free by auto
qed

theorem aborted_send_breaks_next_client_witness:
  "\<exists>ti sh'. client_thread_wrapper sock_read sock_write reg_ops (0, 0)
      (new_thread_info \<lparr>segments = [''hi'' @ [newline]], reset = False\<rparr> (peer\<lparr>gone := True\<rparr>))
      (file_shared (replicate 5000 CHR ''a'')) = ret (ti, sh')
     \<and> client_thread_wrapper sock_read sock_write reg_ops (0, 0)
         (new_thread_info \<lparr>segments = [''h'', ''i'' @ [newline]], reset = False\<rparr> peer) sh' = Some (Inl Stream_order)"
proof -
  note f = file_shared_ok [of "replicate 5000 CHR ''a''"]
  show ?thesis
    using aborted_send_breaks_next_client [OF f(1), of "\<lparr>segments = [''hi'' @ [newline]], reset = False\<rparr>"
        "peer\<lparr>gone := True\<rparr>" "''hi'' @ [newline]"] hi_line hi_sends f(2,3)
    by (fastforce simp: segments_ok_def incoming_def BUFSIZ_def)
qed

text \<open>On a regular file the seek command is refused: the thread fails and nothing is stored or sent.\<close>

theorem file_refuses_seek_command:
  assumes "between_clients reg_ready sh" and "segments_ok i" and "connected out" and "x < 2 ^ 32" and "y < 2 ^ 32"
    and "incoming i = show_seek x y @ newline # rest"
  shows "\<exists>ti sh'. client_thread_wrapper sock_read sock_write reg_ops (0, 0) (new_thread_info i out) sh = ret (ti, sh')
    \<and> thread_ret ti = RET_ERR \<and> file_text sh' = file_text sh \<and> between_clients reg_ready sh'
    \<and> got (file_fd (socket_output ti)) = got out"
proof -
  note w = seek_line [OF assms(4,5)]
  have ar: "freg.at_rest (output_file sh)"
    using assms(1) by (simp add: between_clients_def freg.at_rest_def reg_ready_def reg_good_def)
  have so: "sout.sink_ok (fdopen out)" using assms(3) by simp
  have av: "avail incoming (fdopen i) = (show_seek x y @ [newline]) @ rest" using source_of_fdopen [OF assms(2)] assms(6) by simp
  obtain si' so' fo' where p: "server_protocol sock_read sock_write reg_ops (fdopen i) (fdopen out) (output_file sh)
      = ret (RET_ERR, si', so', fo')" "sin.same (fdopen i) si'" "sout.sink_ok so'"
    "sout.outgoing so' = sout.outgoing (fdopen out)" "freg.at_rest fo'"
    "reg_frame (file_fd fo') = reg_frame (file_fd (output_file sh))"
    by (rule freg.protocol_seek [OF conjunct1 [OF source_of_fdopen [OF assms(2)]] so ar av w TrueI])
      (simp add: that)
  have si: "wbuf si' = []" using p(2) by simp
  have "\<not> output_file_mutex sh" using assms(1) by (simp add: between_clients_def)
  from thread_of_protocol [OF this p(1) si p(3)] show ?thesis
    using p(4-6) assms(1) by (auto simp: between_clients_def freg.at_rest_def reg_frame_def)
qed

theorem file_refuses_seek_command_witness:
  "\<exists>ti sh'. client_thread_wrapper sock_read sock_write reg_ops (0, 0)
      (new_thread_info \<lparr>segments = [show_seek 0 1 @ [newline]], reset = False\<rparr> peer) (file_shared ''a'') = ret (ti, sh')
     \<and> thread_ret ti = RET_ERR \<and> file_text sh' = ''a''"
  using file_refuses_seek_command [OF file_shared_ok(1) _ peer_ok(1),
      of "\<lparr>segments = [show_seek 0 1 @ [newline]], reset = False\<rparr>" 0 1 "[]" "''a''"] file_shared_ok(2)
  by (fastforce simp: segments_ok_def incoming_def show_seek_def)

text \<open>C39. A store that fails goes unnoticed: when the file system is full, a client whose line fits in one piece gets
  the text without its line, its thread reports success, and nothing is stored; \<^verbatim>\<open>server_protocol\<close> looks at the
  result of \<^verbatim>\<open>fwrite\<close>, which only filled the stream's buffer, and not at that of \<^verbatim>\<open>fflush\<close>.\<close>

theorem failed_store_goes_unnoticed:
  assumes "between_clients reg_ready sh" and "segments_ok i" and "connected out" and "incoming i = w"
    and "line w" and "plain w" and "length w \<le> 255" and "limit (file_fd (output_file sh)) = length (file_text sh)"
    and "nul \<notin> set (file_text sh)"
  shows "\<exists>ti sh'. client_thread_wrapper sock_read sock_write reg_ops (0, 0) (new_thread_info i out) sh = ret (ti, sh')
    \<and> thread_ret ti = RET_OK \<and> got (file_fd (socket_output ti)) = got out @ file_text sh
    \<and> file_text sh' = file_text sh \<and> between_clients reg_ready sh'"
proof -
  let ?f = "output_file sh"
  have free: "\<not> output_file_mutex sh" and ar: "freg.at_rest ?f" and r: "reg_ready (file_fd ?f)"
    using assms(1) by (simp_all add: between_clients_def freg.at_rest_def reg_ready_def reg_good_def)
  have so: "sout.sink_ok (fdopen out)" using assms(3) by (simp add: fdopen_def)
  have av: "avail incoming (fdopen i) = w @ []" using source_of_fdopen [OF assms(2)] assms(4) by simp
  have fail: "sys_write reg_ops (file_fd ?f) w = ret (None, file_fd ?f)"
    using r assms(8) by (simp add: reg_ops_def reg_write_def reg_ready_def)
  obtain si' so' fo' where p: "server_protocol sock_read sock_write reg_ops (fdopen i) (fdopen out) ?f
      = ret (RET_OK, si', so', fo')" "sin.same (fdopen i) si'" "sout.sink_ok so'"
    "sout.outgoing so' = sout.outgoing (fdopen out) @ concat (map cstr (chunks 255 (fst (reg_frame (file_fd ?f)))))"
    "freg.at_rest fo'" "reg_frame (file_fd fo') = reg_frame (file_fd ?f)"
    by (rule freg.protocol_dropped [OF conjunct1 [OF source_of_fdopen [OF assms(2)]] so ar assms(5,6) av assms(7) fail])
  have "wbuf si' = []" using p(2) by simp
  from thread_of_protocol [OF free p(1) this p(3)] show ?thesis
    using p(4-6) assms(9) free
    by (auto simp: between_clients_def freg.at_rest_def reg_frame_def fdopen_def chunks_no_nul)
qed

theorem failed_store_goes_unnoticed_witness:
  "\<exists>ti sh'. client_thread_wrapper sock_read sock_write reg_ops (0, 0)
      (new_thread_info \<lparr>segments = [''hi'' @ [newline]], reset = False\<rparr> peer)
      \<lparr>output_file = fdopen \<lparr>contents = ''a'', offset = 1, limit = 1\<rparr>, output_file_mutex = False, finished_posts = 0\<rparr>
        = ret (ti, sh') \<and> thread_ret ti = RET_OK \<and> got (file_fd (socket_output ti)) = ''a''"
  using failed_store_goes_unnoticed [of "\<lparr>output_file = fdopen \<lparr>contents = ''a'', offset = 1, limit = 1\<rparr>,
      output_file_mutex = False, finished_posts = 0\<rparr>" "\<lparr>segments = [''hi'' @ [newline]], reset = False\<rparr>" peer
      "''hi'' @ [newline]"] hi_line peer_ok
  by (fastforce simp: between_clients_def idle_stream_def fdopen_def reg_ready_def segments_ok_def incoming_def)

end
