(* ===== verification/Server_Lifecycle.thy ===== *)
theory Server_Lifecycle
  imports Client_Session
begin

text \<open>
  The server process around the dialogues: \<^verbatim>\<open>server_zero_data\<close>, \<^verbatim>\<open>server_init\<close>, \<^verbatim>\<open>server_run\<close>, \<^verbatim>\<open>server_stop\<close>,
  \<^verbatim>\<open>server_exit\<close>, the clean-up thread, the clock thread and the timer signal of \<^verbatim>\<open>server/server_impl.c\<close>.  The set-up and tear-down are functions of the results of the library calls
  they make.  The threads are a step relation over program counters, in which the select loop, the
  joins, the semaphores, the mutex and the signals interleave; \<open>reachable\<close> is its closure from the
  states \<^verbatim>\<open>server_init\<close> can leave.
\<close>

section \<open>State\<close>

text \<open>\<^verbatim>\<open>data_t\<close> and the globals.  A semaphore that exists is its count; \<open>timer\<close> is the allocated timer and whether
  \<^verbatim>\<open>timer_create\<close> filled it in; \<open>held\<close> records what the process has acquired and not given back.\<close>

datatype resource = R_signal | R_clock_sem | R_file | R_path | R_socket | R_mutex | R_timer

record server =
  socket_fd :: int
  output_open :: bool
  finished_signal :: "nat option"
  thread_list :: "nat list"
  timer :: "bool option"
  should_stop :: bool
  cleanup_thread_initialized :: bool
  clock_thread_initialized :: bool
  clock_sem :: "nat option"
  timer_armed :: bool
  held :: "resource set"

text \<open>The static initial values of the globals.\<close>

definition at_start :: server where
  "at_start = \<lparr>socket_fd = 0, output_open = False, finished_signal = None, thread_list = [], timer = None,
     should_stop = False, cleanup_thread_initialized = False, clock_thread_initialized = False,
     clock_sem = None, timer_armed = False, held = {}\<rparr>"

definition server_zero_data :: "server \<Rightarrow> server" where
  "server_zero_data s = s\<lparr>socket_fd := -1, output_open := False, finished_signal := None, timer := None,
     thread_list := [], held := insert R_mutex (held s)\<rparr>"

text \<open>Results of the calls of \<^verbatim>\<open>server_init\<close>.\<close>

record init_env =
  malloc_signal :: bool
  sem_init_signal :: int
  malloc_clock_sem :: bool
  sem_init_clock :: int
  fopen_ok :: bool
  create_cleanup :: int
  create_clock :: int
  socket_ret :: int
  bind_ret :: int
  listen_ret :: int
  malloc_timer :: bool
  timer_create_ret :: int
  timer_settime_ret :: int

text \<open>Setting up the threads' shared objects and the threads; \<open>char_device\<close> is the build option
  \<^verbatim>\<open>USE_AESD_CHAR_DEVICE\<close>.  The second component tells whether to go on.\<close>

definition init_threads :: "bool \<Rightarrow> init_env \<Rightarrow> server \<Rightarrow> fault + bool \<times> server" where
  "init_threads char_device e s =
     (if \<not> malloc_signal e then Inl Null_deref
      else if sem_init_signal e \<noteq> 0 then Inr (False, s\<lparr>finished_signal := None\<rparr>)
      else let s = s\<lparr>finished_signal := Some 0, held := insert R_signal (held s)\<rparr> in
      if \<not> malloc_clock_sem e then Inl Null_deref
      else if sem_init_clock e \<noteq> 0 then Inr (False, s\<lparr>clock_sem := None\<rparr>)
      else let s = s\<lparr>clock_sem := Some 0, held := insert R_clock_sem (held s)\<rparr> in
      if \<not> char_device \<and> \<not> fopen_ok e then Inr (False, s\<lparr>output_open := False\<rparr>)
      else let s = (if char_device then s
                    else s\<lparr>output_open := True, held := {R_file, R_path} \<union> held s\<rparr>) in
      if create_cleanup e \<noteq> 0 then Inr (False, s)
      else let s = s\<lparr>cleanup_thread_initialized := True\<rparr> in
      if create_clock e \<noteq> 0 then Inr (False, s)
      else Inr (True, s\<lparr>clock_thread_initialized := True\<rparr>))"

definition init_socket :: "init_env \<Rightarrow> server \<Rightarrow> fault + bool \<times> server" where
  "init_socket e s =
     (let s = s\<lparr>socket_fd := socket_ret e\<rparr> in
      if socket_ret e = -1 then Inr (False, s)
      else let s = s\<lparr>held := insert R_socket (held s)\<rparr> in
      if bind_ret e \<noteq> 0 then Inr (False, s)
      else if listen_ret e = -1 then Inr (False, s)
      else if \<not> malloc_timer e then Inl Null_deref
      else if timer_create_ret e \<noteq> 0 then Inr (False, s\<lparr>timer := Some False\<rparr>)
      else let s = s\<lparr>timer := Some True, held := insert R_timer (held s)\<rparr> in
      if timer_settime_ret e \<noteq> 0 then Inr (False, s)
      else Inr (True, s\<lparr>timer_armed := True\<rparr>))"

definition server_init :: "bool \<Rightarrow> init_env \<Rightarrow> server \<Rightarrow> fault + ret_t \<times> server" where
  "server_init char_device e s =
     bind_fault (init_threads char_device e s) (\<lambda>(ok, s).
       if \<not> ok then Inr (RET_ERR, s)
       else bind_fault (init_socket e s) (\<lambda>(ok, s). Inr (if ok then RET_OK else RET_ERR, s)))"

text \<open>\<^verbatim>\<open>server_stop\<close>, run by the handler of SIGINT and SIGTERM: \<^verbatim>\<open>sem_post\<close> on a null pointer faults.\<close>

definition server_stop :: "server \<Rightarrow> fault + server" where
  "server_stop s =
     (let s = s\<lparr>should_stop := True\<rparr> in
      case clock_sem s of None \<Rightarrow> Inl Null_deref | Some n \<Rightarrow> Inr (s\<lparr>clock_sem := Some (n + 1)\<rparr>))"

lemma server_stop_eq:
  "server_stop s = Inr v \<longleftrightarrow> (\<exists>n. clock_sem s = Some n \<and> v = s\<lparr>should_stop := True, clock_sem := Some (n + 1)\<rparr>)"
  by (auto simp: server_stop_def Let_def split: option.splits)

definition timer_callback :: "server \<Rightarrow> server" where
  "timer_callback s =
     (case clock_sem s of None \<Rightarrow> s | Some n \<Rightarrow> s\<lparr>clock_sem := Some (n + 1)\<rparr>)"

text \<open>\<^verbatim>\<open>server_exit\<close> in three parts: before the joins, and after them.  The environment gives the results of its
  calls.\<close>

record exit_env =
  timer_delete_ret :: int
  close_ret :: int
  fclose_ret :: int
  mutex_destroy_ret :: int
  sem_destroy_signal :: int
  sem_destroy_clock :: int
  unlink_ret :: int

definition exit_timer :: "exit_env \<Rightarrow> server \<Rightarrow> fault + ret_t \<times> server" where
  "exit_timer e s =
     (case timer s of
        None \<Rightarrow> Inr (RET_OK, s)
      | Some created \<Rightarrow>
          if \<not> created then Inl Uninitialised
          else Inr (if timer_delete_ret e \<noteq> 0 then RET_ERR else RET_OK,
                    s\<lparr>timer := None, timer_armed := False, held := held s - {R_timer}\<rparr>))"

definition post_finished :: "server \<Rightarrow> server" where
  "post_finished s = s\<lparr>finished_signal := map_option Suc (finished_signal s)\<rparr>"

definition fails :: "bool \<Rightarrow> ret_t \<Rightarrow> ret_t" where
  "fails b r = (if b then RET_ERR else r)"

definition exit_release :: "bool \<Rightarrow> exit_env \<Rightarrow> ret_t \<Rightarrow> server \<Rightarrow> ret_t \<times> server" where
  "exit_release char_device e r s =
     (let (r, s) = (if socket_fd s \<noteq> -1
                    then (fails (close_ret e = -1) r, s\<lparr>held := held s - {R_socket}\<rparr>) else (r, s));
          (r, s) = (if output_open s
                    then (fails (fclose_ret e \<noteq> 0) r, s\<lparr>held := held s - {R_file}\<rparr>) else (r, s));
          (r, s) = (fails (mutex_destroy_ret e \<noteq> 0) r, s\<lparr>held := held s - {R_mutex}\<rparr>);
          (r, s) = (if finished_signal s \<noteq> None
                    then (fails (sem_destroy_signal e \<noteq> 0) r,
                          s\<lparr>finished_signal := None, held := held s - {R_signal}\<rparr>) else (r, s));
          (r, s) = (if clock_sem s \<noteq> None
                    then (fails (sem_destroy_clock e \<noteq> 0) r,
                          s\<lparr>clock_sem := None, held := held s - {R_clock_sem}\<rparr>) else (r, s));
          s = s\<lparr>thread_list := []\<rparr>
      in if char_device then (r, s)
         else (fails (unlink_ret e \<noteq> 0) r, s\<lparr>held := held s - {R_path}\<rparr>))"

section \<open>The ticking of the clock\<close>

text \<open>What \<^verbatim>\<open>clock_thread\<close> does with the mutex held: append the time stamp that \<^verbatim>\<open>strftime\<close> left in its buffer.\<close>

definition clock_append :: "'b fd_ops \<Rightarrow> string \<Rightarrow> 'b FILE \<Rightarrow> (ret_t \<times> 'b FILE) run" where
  "clock_append ops buf f =
     run_bind (fwrite (sys_write ops) (cstr buf) f) (\<lambda>(write_ret, f).
       if strlen buf \<noteq> write_ret then ret (RET_ERR, f)
       else run_bind (fflush (sys_write ops) f) (\<lambda>(_, f). ret (RET_OK, f)))"

definition clock_write :: "'b fd_ops \<Rightarrow> string \<Rightarrow> 'b shared \<Rightarrow> (ret_t \<times> 'b shared) run" where
  "clock_write ops buf sh =
     (if output_file_mutex sh then None
      else run_bind (clock_append ops buf (output_file sh)) (\<lambda>(r, f). ret (r, sh\<lparr>output_file := f\<rparr>)))"

section \<open>Threads\<close>

datatype main_pc = Selecting | Interrupted | Accepting | Exit_begin | Join_cleanup ret_t | Join_clock ret_t | Releasing ret_t | Main_done ret_t

datatype cleanup_pc = Cleanup_wait | Cleanup_join nat | Cleanup_done

datatype clock_pc = Clock_wait | Clock_lock | Clock_write | Clock_done

datatype client_pc = Client_lock | Client_talk | Client_close | Client_done

record sys =
  srv :: server
  main_at :: main_pc
  cleanup_at :: cleanup_pc
  clock_at :: clock_pc
  clients :: "client_pc list"

text \<open>Who may hold \<^verbatim>\<open>output_file_mutex\<close>.\<close>

definition mutex_free :: "sys \<Rightarrow> bool" where
  "mutex_free s \<longleftrightarrow> clock_at s \<noteq> Clock_write \<and> Client_talk \<notin> set (clients s)"

text \<open>The clean-up thread looks for the last finished thread of the list; the flag \<^verbatim>\<open>thread_finished\<close> is set when
  the client thread is at its end.\<close>

definition finished_in_list :: "sys \<Rightarrow> nat option" where
  "finished_in_list s =
     fold (\<lambda>i r. if i < length (clients s) \<and> clients s ! i = Client_done then Some i else r) (thread_list (srv s)) None"

definition after_cleanup :: "server \<Rightarrow> ret_t \<Rightarrow> main_pc" where
  "after_cleanup v r = (if clock_thread_initialized v then Join_clock r else Releasing r)"

definition after_timer :: "server \<Rightarrow> ret_t \<Rightarrow> main_pc" where
  "after_timer v r = (if cleanup_thread_initialized v then Join_cleanup r else after_cleanup v r)"

text \<open>\<^verbatim>\<open>server_run\<close> alternates between \<^verbatim>\<open>select\<close> (\<open>Selecting\<close>), the test of \<^verbatim>\<open>should_stop\<close> after an interruption
  (\<open>Interrupted\<close>) and the treatment of a connection (\<open>Accepting\<close>).  It opens the device when the first connection
  is accepted; the thread of the connection is created but not entered into the thread list.\<close>

definition open_on_accept :: "bool \<Rightarrow> server \<Rightarrow> server" where
  "open_on_accept char_device s =
     (if char_device \<and> \<not> output_open s then s\<lparr>output_open := True, held := insert R_file (held s)\<rparr> else s)"

lemma open_on_accept_sel [simp]:
  "timer_armed (open_on_accept cd s) = timer_armed s"
  "thread_list (open_on_accept cd s) = thread_list s" "timer (open_on_accept cd s) = timer s"
  "should_stop (open_on_accept cd s) = should_stop s" "clock_sem (open_on_accept cd s) = clock_sem s"
  "finished_signal (open_on_accept cd s) = finished_signal s"
  "clock_thread_initialized (open_on_accept cd s) = clock_thread_initialized s"
  "cleanup_thread_initialized (open_on_accept cd s) = cleanup_thread_initialized s"
  by (simp_all add: open_on_accept_def)

text \<open>Steps that the outside world causes (connections, signals, the peers of the clients, and failing calls in
  \<^verbatim>\<open>server_run\<close>, in the clock thread, in the clean-up thread and of \<^verbatim>\<open>pthread_join\<close>), and steps of the program
  itself.  A signal that the main thread takes while it is in \<^verbatim>\<open>select\<close> makes that call return \<^verbatim>\<open>EINTR\<close>; a signal
  that another thread takes, or that arrives while the main thread is elsewhere, only runs its handler.
  \<open>Tick_in_select\<close> is a timer signal of the first kind.\<close>

datatype label = Connect | Call_fails | Stop_signal | Tick | Tick_in_select | Peer | Clock_fails | Cleanup_fails | Join_fails | Own

inductive step :: "bool \<Rightarrow> sys \<Rightarrow> label \<Rightarrow> sys \<Rightarrow> bool" for char_device where
  select_ready: "main_at s = Selecting \<Longrightarrow> step char_device s Connect (s\<lparr>main_at := Accepting\<rparr>)"
| select_fails: "main_at s = Selecting \<Longrightarrow> step char_device s Call_fails (s\<lparr>main_at := Exit_begin\<rparr>)"
| run_stops: "main_at s = Interrupted \<Longrightarrow> should_stop (srv s) \<Longrightarrow> step char_device s Own (s\<lparr>main_at := Exit_begin\<rparr>)"
| run_continues: "main_at s = Interrupted \<Longrightarrow> \<not> should_stop (srv s) \<Longrightarrow> step char_device s Own (s\<lparr>main_at := Selecting\<rparr>)"
| accepts: "main_at s = Accepting \<Longrightarrow> step char_device s Own
      (s\<lparr>main_at := Selecting, srv := open_on_accept char_device (srv s), clients := clients s @ [Client_lock]\<rparr>)"
| accept_fails: "main_at s = Accepting \<Longrightarrow> step char_device s Call_fails (s\<lparr>main_at := Exit_begin\<rparr>)"
| create_fails: "main_at s = Accepting \<Longrightarrow> step char_device s Call_fails
      (s\<lparr>main_at := Exit_begin, srv := open_on_accept char_device (srv s)\<rparr>)"
| exit_begins: "main_at s = Exit_begin \<Longrightarrow> exit_timer e (srv s) = Inr (r, v) \<Longrightarrow>
    step char_device s Own (s\<lparr>main_at := after_timer v r,
      srv := (if cleanup_thread_initialized v then post_finished v else v)\<rparr>)"
| joins_cleanup: "main_at s = Join_cleanup r \<Longrightarrow> cleanup_at s = Cleanup_done \<Longrightarrow>
    step char_device s Own (s\<lparr>main_at := after_cleanup (srv s) r\<rparr>)"
| joins_clock: "main_at s = Join_clock r \<Longrightarrow> clock_at s = Clock_done \<Longrightarrow>
    step char_device s Own (s\<lparr>main_at := Releasing r\<rparr>)"
| join_cleanup_fails: "main_at s = Join_cleanup r \<Longrightarrow>
    step char_device s Join_fails (s\<lparr>main_at := after_cleanup (srv s) r\<rparr>)"
| join_clock_fails: "main_at s = Join_clock r \<Longrightarrow> step char_device s Join_fails (s\<lparr>main_at := Releasing r\<rparr>)"
| releases: "main_at s = Releasing r \<Longrightarrow> exit_release char_device e r (srv s) = (r', v) \<Longrightarrow>
    step char_device s Own (s\<lparr>main_at := Main_done r', srv := v\<rparr>)"
| stop: "server_stop (srv s) = Inr v \<Longrightarrow> step char_device s Stop_signal (s\<lparr>srv := v\<rparr>)"
| stop_in_select: "main_at s = Selecting \<Longrightarrow> server_stop (srv s) = Inr v \<Longrightarrow>
    step char_device s Stop_signal (s\<lparr>srv := v, main_at := Interrupted\<rparr>)"
| tick: "timer_armed (srv s) \<Longrightarrow> step char_device s Tick (s\<lparr>srv := timer_callback (srv s)\<rparr>)"
| tick_in_select: "main_at s = Selecting \<Longrightarrow> timer_armed (srv s) \<Longrightarrow>
    step char_device s Tick_in_select (s\<lparr>srv := timer_callback (srv s), main_at := Interrupted\<rparr>)"
| cleanup_wakes: "cleanup_at s = Cleanup_wait \<Longrightarrow> finished_signal (srv s) = Some (Suc n) \<Longrightarrow>
    step char_device s Own (s\<lparr>srv := (srv s)\<lparr>finished_signal := Some n\<rparr>,
      cleanup_at := (case finished_in_list s of None \<Rightarrow> Cleanup_done | Some i \<Rightarrow> Cleanup_join i)\<rparr>)"
| cleanup_joins: "cleanup_at s = Cleanup_join i \<Longrightarrow> i < length (clients s) \<Longrightarrow> clients s ! i = Client_done \<Longrightarrow>
    step char_device s Own (s\<lparr>srv := (srv s)\<lparr>thread_list := remove1 i (thread_list (srv s))\<rparr>,
      cleanup_at := Cleanup_wait\<rparr>)"
| cleanup_wait_fails: "cleanup_at s = Cleanup_wait \<Longrightarrow>
    step char_device s Cleanup_fails (s\<lparr>cleanup_at := Cleanup_done\<rparr>)"
| clock_wakes: "clock_at s = Clock_wait \<Longrightarrow> clock_sem (srv s) = Some (Suc n) \<Longrightarrow>
    step char_device s Own (s\<lparr>srv := (srv s)\<lparr>clock_sem := Some n\<rparr>,
      clock_at := (if should_stop (srv s) then Clock_done else if char_device then Clock_wait else Clock_lock)\<rparr>)"
| clock_locks: "clock_at s = Clock_lock \<Longrightarrow> mutex_free s \<Longrightarrow> step char_device s Own (s\<lparr>clock_at := Clock_write\<rparr>)"
| clock_unlocks: "clock_at s = Clock_write \<Longrightarrow> step char_device s Own (s\<lparr>clock_at := Clock_wait\<rparr>)"
| clock_gives_up: "clock_at s \<noteq> Clock_done \<Longrightarrow> step char_device s Clock_fails (s\<lparr>clock_at := Clock_done\<rparr>)"
| client_locks: "i < length (clients s) \<Longrightarrow> clients s ! i = Client_lock \<Longrightarrow> mutex_free s \<Longrightarrow>
    step char_device s Own (s\<lparr>clients := (clients s)[i := Client_talk]\<rparr>)"
| client_unlocks: "i < length (clients s) \<Longrightarrow> clients s ! i = Client_talk \<Longrightarrow>
    step char_device s Peer (s\<lparr>clients := (clients s)[i := Client_close]\<rparr>)"
| client_ends: "i < length (clients s) \<Longrightarrow> clients s ! i = Client_close \<Longrightarrow>
    step char_device s Own (s\<lparr>clients := (clients s)[i := Client_done], srv := post_finished (srv s)\<rparr>)"

text \<open>The state in which \<^verbatim>\<open>server_init\<close> leaves the process.  A thread that was not created counts as ended.\<close>

definition booted :: "ret_t \<Rightarrow> server \<Rightarrow> sys" where
  "booted r v = \<lparr>srv = v, main_at = (if r = RET_OK then Selecting else Exit_begin),
     cleanup_at = (if cleanup_thread_initialized v then Cleanup_wait else Cleanup_done),
     clock_at = (if clock_thread_initialized v then Clock_wait else Clock_done), clients = []\<rparr>"

text \<open>The process is over when \<^verbatim>\<open>main\<close> returns.\<close>

definition main_done :: "sys \<Rightarrow> bool" where
  "main_done s \<longleftrightarrow> (case main_at s of Main_done r \<Rightarrow> True | _ \<Rightarrow> False)"

inductive reachable :: "bool \<Rightarrow> init_env \<Rightarrow> label set \<Rightarrow> sys \<Rightarrow> bool" for char_device ie L where
  boot: "server_init char_device ie (server_zero_data at_start) = Inr (r, v) \<Longrightarrow> reachable char_device ie L (booted r v)"
| more: "reachable char_device ie L s \<Longrightarrow> \<not> main_done s \<Longrightarrow> step char_device s l s' \<Longrightarrow> l \<in> L \<Longrightarrow> reachable char_device ie L s'"

inductive_cases step_elim: "step char_device s l s'"

lemmas lifecycle_defs = booted_def after_timer_def after_cleanup_def exit_timer_def post_finished_def

section \<open>Invariants\<close>

text \<open>Mutual exclusion: the mutex has one owner at most.\<close>

definition exclusive :: "sys \<Rightarrow> bool" where
  "exclusive s \<longleftrightarrow> length (filter (\<lambda>c. c = Client_talk) (clients s)) + (if clock_at s = Clock_write then 1 else 0) \<le> (1 :: nat)"

lemma count_talk_free: "Client_talk \<notin> set cs \<longleftrightarrow> filter (\<lambda>c. c = Client_talk) cs = []"
  by (auto simp: filter_empty_conv)

lemma count_talk_update:
  assumes "i < length cs"
  shows "length (filter (\<lambda>c. c = Client_talk) (cs[i := x])) + (if cs ! i = Client_talk then 1 else 0)
    = length (filter (\<lambda>c. c = Client_talk) cs) + (if x = Client_talk then 1 else (0 :: nat))"
proof -
  have "cs = take i cs @ cs ! i # drop (Suc i) cs" using assms by (rule id_take_nth_drop)
  then have "length (filter (\<lambda>c. c = Client_talk) cs) = length (filter (\<lambda>c. c = Client_talk) (take i cs @ cs ! i # drop (Suc i) cs))"
    by simp
  moreover have "cs[i := x] = take i cs @ x # drop (Suc i) cs" using assms by (rule upd_conv_take_nth_drop)
  ultimately show ?thesis by simp
qed

lemma step_exclusive: "step cd s l s' \<Longrightarrow> exclusive s \<Longrightarrow> exclusive s'"
proof (induction rule: step.induct)
  case (client_locks i s)
  then show ?case
    using count_talk_update [of i "clients s" Client_talk] by (auto simp: exclusive_def mutex_free_def count_talk_free)
next
  case (client_unlocks i s)
  then show ?case using count_talk_update [of i "clients s" Client_close] by (auto simp: exclusive_def)
next
  case (client_ends i s)
  then show ?case using count_talk_update [of i "clients s" Client_done] by (auto simp: exclusive_def)
next
  case (clock_locks s)
  then show ?case by (auto simp: exclusive_def mutex_free_def count_talk_free)
qed (auto simp: exclusive_def split: if_splits)

lemma reachable_exclusive: "reachable cd ie L s \<Longrightarrow> exclusive s"
proof (induction rule: reachable.induct)
  case (boot r v)
  then show ?case by (simp add: exclusive_def booted_def)
next
  case (more s l s')
  then show ?case using step_exclusive by blast
qed

text \<open>Nothing ever enters the thread list.\<close>

lemma init_thread_list: "server_init cd ie (server_zero_data at_start) = Inr (r, v) \<Longrightarrow>
    thread_list v = [] \<and> \<not> should_stop v"
  by (auto simp: server_init_def init_threads_def init_socket_def server_zero_data_def at_start_def Let_def
      split: if_splits)

lemma step_thread_list:
  "step cd s l s' \<Longrightarrow> thread_list (srv s) = [] \<Longrightarrow> thread_list (srv s') = []"
  by (induction rule: step.induct)
    (auto simp: exit_timer_def exit_release_def server_stop_def timer_callback_def post_finished_def Let_def
      split: option.splits if_splits)

lemma reachable_thread_list: "reachable cd ie L s \<Longrightarrow> thread_list (srv s) = []"
proof (induction rule: reachable.induct)
  case (boot r v)
  then show ?case by (simp add: booted_def init_thread_list)
next
  case (more s l s')
  then show ?case using step_thread_list by blast
qed

lemma finished_in_empty: "thread_list (srv s) = [] \<Longrightarrow> finished_in_list s = None"
  by (simp add: finished_in_list_def)

lemma reachable_no_join: "reachable cd ie L s \<Longrightarrow> cleanup_at s \<noteq> Cleanup_join i"
proof (induction rule: reachable.induct)
  case (boot r v)
  then show ?case by (simp add: booted_def)
next
  case (more s l s')
  from more(3) more(5) reachable_thread_list [OF more(1)] show ?case
    by (cases rule: step.cases) (auto simp: finished_in_empty)
qed

lemma init_open: "server_init cd ie (server_zero_data at_start) = Inr (RET_OK, v) \<Longrightarrow> cd \<or> output_open v"
  by (auto simp: server_init_def init_threads_def init_socket_def server_zero_data_def at_start_def Let_def
      split: if_splits)

text \<open>Without a stop signal the clock thread stays alive, so the join of it never returns.\<close>

definition clock_lives :: "sys \<Rightarrow> bool" where
  "clock_lives s \<longleftrightarrow> \<not> should_stop (srv s) \<and> (clock_thread_initialized (srv s) \<longrightarrow>
     clock_at s \<noteq> Clock_done \<and> \<not> main_done s \<and> (\<forall>r. main_at s \<noteq> Releasing r))"

lemma step_clock_lives:
  "step cd s l s' \<Longrightarrow> l \<noteq> Stop_signal \<Longrightarrow> l \<noteq> Clock_fails \<Longrightarrow> l \<noteq> Join_fails \<Longrightarrow> \<not> main_done s \<Longrightarrow> clock_lives s \<Longrightarrow> clock_lives s'"
  by (induction rule: step.induct)
    (auto simp: clock_lives_def main_done_def lifecycle_defs timer_callback_def exit_release_def Let_def
      split: option.splits if_splits main_pc.splits)

lemma reachable_clock_lives:
  "reachable cd ie L s \<Longrightarrow> Stop_signal \<notin> L \<Longrightarrow> Clock_fails \<notin> L \<Longrightarrow> Join_fails \<notin> L \<Longrightarrow> clock_lives s"
proof (induction rule: reachable.induct)
  case (boot r v)
  then show ?case
    using init_thread_list by (cases r) (auto simp: clock_lives_def booted_def main_done_def)
next
  case (more s l s')
  then show ?case using step_clock_lives by blast
qed

text \<open>What a shutdown rests on, after a successful \<^verbatim>\<open>server_init\<close>.\<close>

definition shutdown_inv :: "sys \<Rightarrow> bool" where
  "shutdown_inv s \<longleftrightarrow> (\<not> main_done s \<longrightarrow> finished_signal (srv s) \<noteq> None \<and> clock_sem (srv s) \<noteq> None
       \<and> (should_stop (srv s) \<and> clock_at s \<noteq> Clock_done \<longrightarrow> clock_sem (srv s) \<noteq> Some 0))
     \<and> (main_at s \<in> {Selecting, Interrupted, Accepting} \<longrightarrow> timer_armed (srv s))
     \<and> timer (srv s) \<noteq> Some False \<and> thread_list (srv s) = [] \<and> (\<forall>i. cleanup_at s \<noteq> Cleanup_join i)
     \<and> (\<forall>r. main_at s = Join_cleanup r \<and> cleanup_at s = Cleanup_wait \<longrightarrow> finished_signal (srv s) \<noteq> Some 0)"

lemma step_shutdown_inv: "step cd s l s' \<Longrightarrow> \<not> main_done s \<Longrightarrow> shutdown_inv s \<Longrightarrow> shutdown_inv s'"
proof (induction rule: step.induct)
  case (exit_begins s e r v)
  then show ?case
    by (auto simp: shutdown_inv_def main_done_def lifecycle_defs split: option.splits if_splits main_pc.splits)
next
  case (releases s r e r' v)
  then show ?case
    by (auto simp: shutdown_inv_def main_done_def exit_release_def Let_def split: if_splits)
next
  case (stop s v)
  then show ?case by (auto simp: shutdown_inv_def main_done_def server_stop_eq split: main_pc.splits)
next
  case (stop_in_select s v)
  then show ?case by (auto simp: shutdown_inv_def main_done_def server_stop_eq)
next
  case (tick s)
  then show ?case
    by (auto simp: shutdown_inv_def main_done_def timer_callback_def split: option.splits main_pc.splits)
next
  case (tick_in_select s)
  then show ?case by (auto simp: shutdown_inv_def main_done_def timer_callback_def split: option.splits)
next
  case (cleanup_wakes s n)
  then show ?case
    by (auto simp: shutdown_inv_def main_done_def finished_in_empty split: main_pc.splits)
qed (auto simp: shutdown_inv_def main_done_def after_cleanup_def post_finished_def split: if_splits main_pc.splits)

lemma init_ok: "server_init cd ie (server_zero_data at_start) = Inr (RET_OK, v) \<Longrightarrow>
    finished_signal v = Some 0 \<and> clock_sem v = Some 0 \<and> timer v = Some True \<and> thread_list v = []
    \<and> \<not> should_stop v \<and> cleanup_thread_initialized v \<and> clock_thread_initialized v \<and> timer_armed v"
  by (auto simp: server_init_def init_threads_def init_socket_def server_zero_data_def at_start_def Let_def
      split: if_splits)

lemma reachable_shutdown_inv:
  assumes "server_init cd ie (server_zero_data at_start) = Inr (RET_OK, v0)"
  shows "reachable cd ie L s \<Longrightarrow> shutdown_inv s"
proof (induction rule: reachable.induct)
  case (boot r v)
  then show ?case using init_ok [OF assms] assms by (simp add: shutdown_inv_def booted_def main_done_def)
next
  case (more s l s')
  then show ?case using step_shutdown_inv by blast
qed

text \<open>The steps of the program and of the peers of clients in their dialogue, and the timer signals that interrupt
  \<^verbatim>\<open>select\<close>; and a bound on how many of them there are until everything is over.\<close>

definition driving :: "label set" where "driving = {Own, Peer, Tick_in_select}"

lemma in_driving [simp, intro]: "Own \<in> driving" "Peer \<in> driving" "Tick_in_select \<in> driving"
  by (simp_all add: driving_def)

fun main_work :: "main_pc \<Rightarrow> nat" where
  "main_work Accepting = 10"
| "main_work Selecting = 6"
| "main_work Interrupted = 5"
| "main_work Exit_begin = 4"
| "main_work (Join_cleanup r) = 3"
| "main_work (Join_clock r) = 2"
| "main_work (Releasing r) = 1"
| "main_work (Main_done r) = 0"

fun clock_work :: "clock_pc \<Rightarrow> nat" where
  "clock_work Clock_lock = 3"
| "clock_work Clock_write = 2"
| "clock_work Clock_wait = 1"
| "clock_work Clock_done = 0"

fun client_work :: "client_pc \<Rightarrow> nat" where
  "client_work Client_lock = 3"
| "client_work Client_talk = 2"
| "client_work Client_close = 1"
| "client_work Client_done = 0"

definition work :: "sys \<Rightarrow> nat" where
  "work s = main_work (main_at s) + clock_work (clock_at s) + (if cleanup_at s = Cleanup_wait then 1 else 0)
     + sum_list (map client_work (clients s))"

lemma step_work:
  assumes "step cd s l s'" and "l \<in> driving" and "should_stop (srv s)" and "shutdown_inv s"
  shows "work s' < work s"
  using assms
proof (induction rule: step.induct)
  case (cleanup_wakes s n)
  then show ?case by (simp add: work_def shutdown_inv_def finished_in_empty)
qed (auto simp: work_def shutdown_inv_def after_timer_def after_cleanup_def driving_def intro!: sum_list_map_update_less)

lemma exit_timer_ok: "timer v \<noteq> Some False \<Longrightarrow> \<exists>r v'. exit_timer e v = Inr (r, v')"
  by (cases "timer v") (auto simp: exit_timer_def)

lemma cleanup_progress:
  assumes inv: "shutdown_inv s" and at: "main_at s = Join_cleanup r" and "\<not> main_done s"
  shows "\<exists>s'. step cd s Own s'"
proof (cases "cleanup_at s")
  case Cleanup_wait
  then have "finished_signal (srv s) \<noteq> None" "finished_signal (srv s) \<noteq> Some 0"
    using inv at assms(3) unfolding shutdown_inv_def by blast+
  then obtain n where "finished_signal (srv s) = Some (Suc n)" by (metis not0_implies_Suc option.exhaust)
  then show ?thesis using cleanup_wakes [OF Cleanup_wait] by blast
next
  case (Cleanup_join i)
  then show ?thesis using inv by (simp add: shutdown_inv_def)
next
  case Cleanup_done
  then show ?thesis using joins_cleanup [OF at] by blast
qed

lemma clock_progress:
  assumes inv: "shutdown_inv s" and stop: "should_stop (srv s)" and at: "main_at s = Join_clock r" and "\<not> main_done s"
  shows "\<exists>s' l. step cd s l s' \<and> l \<in> driving"
proof (cases "clock_at s")
  case Clock_wait
  then have "clock_sem (srv s) \<noteq> None" "clock_sem (srv s) \<noteq> Some 0"
    using inv stop assms(4) unfolding shutdown_inv_def by auto
  then obtain n where "clock_sem (srv s) = Some (Suc n)" by (metis not0_implies_Suc option.exhaust)
  then show ?thesis using clock_wakes [OF Clock_wait] by blast
next
  case Clock_lock
  show ?thesis
  proof (cases "mutex_free s")
    case True
    then show ?thesis using clock_locks [OF Clock_lock] by blast
  next
    case False
    then obtain i where "i < length (clients s)" "clients s ! i = Client_talk"
      using Clock_lock by (auto simp: mutex_free_def in_set_conv_nth)
    then show ?thesis using client_unlocks by blast
  qed
next
  case Clock_write
  then show ?thesis using clock_unlocks by blast
next
  case Clock_done
  then show ?thesis using joins_clock [OF at] by blast
qed

lemma shutdown_progress:
  assumes inv: "shutdown_inv s" and stop: "should_stop (srv s)" and "\<not> main_done s"
  shows "\<exists>s' l. step cd s l s' \<and> l \<in> driving"
proof (cases "main_at s")
  case Selecting
  then have "timer_armed (srv s)" using inv by (simp add: shutdown_inv_def)
  then show ?thesis using tick_in_select [OF Selecting] by blast
next
  case Interrupted
  then show ?thesis using run_stops [OF _ stop] by blast
next
  case Accepting
  then show ?thesis using accepts by blast
next
  case Exit_begin
  obtain r v where "exit_timer undefined (srv s) = Inr (r, v)"
    using exit_timer_ok inv unfolding shutdown_inv_def by blast
  then show ?thesis using exit_begins [OF Exit_begin] by blast
next
  case (Join_cleanup r)
  then show ?thesis using cleanup_progress [OF inv _ assms(3)] by blast
next
  case (Join_clock r)
  then show ?thesis using clock_progress [OF inv stop _ assms(3)] by blast
next
  case (Releasing r)
  then show ?thesis using releases [OF Releasing] by (meson in_driving(1) surj_pair)
next
  case (Main_done r)
  then show ?thesis using assms(3) by (simp add: main_done_def)
qed

section \<open>Examples\<close>

definition all_succeed :: init_env where
  "all_succeed = \<lparr>malloc_signal = True, sem_init_signal = 0, malloc_clock_sem = True, sem_init_clock = 0,
     fopen_ok = True, create_cleanup = 0, create_clock = 0, socket_ret = 3, bind_ret = 0, listen_ret = 0,
     malloc_timer = True, timer_create_ret = 0, timer_settime_ret = 0\<rparr>"

definition quiet_exit :: exit_env where
  "quiet_exit = \<lparr>timer_delete_ret = 0, close_ret = 0, fclose_ret = 0, mutex_destroy_ret = 0,
     sem_destroy_signal = 0, sem_destroy_clock = 0, unlink_ret = 0\<rparr>"

lemma all_succeed_init:
  obtains v where "server_init cd all_succeed (server_zero_data at_start) = Inr (RET_OK, v)"
  by (cases cd) (auto simp: server_init_def init_threads_def init_socket_def all_succeed_def Let_def)

lemma bind_fails_init:
  obtains v where "server_init cd (all_succeed\<lparr>bind_ret := -1\<rparr>) (server_zero_data at_start) = Inr (RET_ERR, v)"
    "clock_thread_initialized v"
  by (cases cd) (auto simp: server_init_def init_threads_def init_socket_def all_succeed_def Let_def)

text \<open>A server with one client, in the middle of its dialogue.\<close>

definition with_client :: "server \<Rightarrow> bool \<Rightarrow> main_pc \<Rightarrow> cleanup_pc \<Rightarrow> clock_pc \<Rightarrow> client_pc \<Rightarrow> sys" where
  "with_client v cd m cu cl c =
     \<lparr>srv = open_on_accept cd v, main_at = m, cleanup_at = cu, clock_at = cl, clients = [c]\<rparr>"

lemma one_client_talks:
  assumes i: "server_init cd ie (server_zero_data at_start) = Inr (RET_OK, v)" and l: "Connect \<in> L" "Own \<in> L"
  shows "reachable cd ie L (with_client v cd Selecting Cleanup_wait Clock_wait Client_talk)"
proof -
  let ?b = "\<lparr>srv = v, main_at = Selecting, cleanup_at = Cleanup_wait, clock_at = Clock_wait, clients = []\<rparr>"
  let ?s = "with_client v cd Selecting Cleanup_wait Clock_wait"
  have b: "booted RET_OK v = ?b" using init_ok [OF i] by (simp add: booted_def)
  have r0: "reachable cd ie L ?b" using boot [OF i] unfolding b .
  note go = more [of cd ie L, rotated 2]
  have "reachable cd ie L (?b\<lparr>main_at := Accepting\<rparr>)"
    using go [OF select_ready [of ?b cd] l(1) r0] by (simp add: main_done_def)
  then have r1: "reachable cd ie L (?s Client_lock)"
    using go [OF accepts [of "?b\<lparr>main_at := Accepting\<rparr>" cd] l(2)] by (simp add: main_done_def with_client_def)
  have "step cd (?s Client_lock) Own (?s Client_talk)"
    using client_locks [of 0 "?s Client_lock" cd] by (simp add: with_client_def mutex_free_def)
  moreover have "\<not> main_done (?s Client_lock)" by (simp add: main_done_def with_client_def)
  ultimately show ?thesis using more [OF r1] l(2) by blast
qed

lemmas init_defs = server_init_def init_threads_def init_socket_def server_zero_data_def at_start_def Let_def

text \<open>What the fields of the state say about the resources.\<close>

fun owns :: "server \<Rightarrow> resource \<Rightarrow> bool" where
  "owns v R_mutex = True"
| "owns v R_signal = (finished_signal v \<noteq> None)"
| "owns v R_clock_sem = (clock_sem v \<noteq> None)"
| "owns v R_file = output_open v"
| "owns v R_path = output_open v"
| "owns v R_socket = (socket_fd v \<noteq> -1)"
| "owns v R_timer = (timer v = Some True)"

lemma init_threads_owns:
  assumes "init_threads cd ie (server_zero_data at_start) = Inr (ok, v)"
  shows "x \<in> held v \<longleftrightarrow> owns v x" and "cd \<Longrightarrow> \<not> output_open v" and "timer v = None \<and> socket_fd v = -1"
proof -
  note d = init_threads_def server_zero_data_def at_start_def Let_def
  show "x \<in> held v \<longleftrightarrow> owns v x" using assms by (cases x) (auto simp: d split: if_splits)
  show "cd \<Longrightarrow> \<not> output_open v" "timer v = None \<and> socket_fd v = -1" using assms by (auto simp: d split: if_splits)
qed

lemma init_parts:
  assumes "server_init cd ie s0 = Inr (r, v)"
  obtains "init_threads cd ie s0 = Inr (False, v)"
  | s ok where "init_threads cd ie s0 = Inr (True, s)" "init_socket ie s = Inr (ok, v)"
  using assms by (auto simp: server_init_def bind_fault_eq_Inr split: if_splits)

lemma init_socket_owns:
  assumes "init_socket ie s = Inr (ok, v)" and "\<And>x. x \<in> held s \<longleftrightarrow> owns s x" and "timer s = None \<and> socket_fd s = -1"
  shows "x \<in> held v \<longleftrightarrow> owns v x" and "output_open v = output_open s"
proof -
  have h: "R_socket \<notin> held s" "R_timer \<notin> held s" using assms(2,3) by simp_all
  show "output_open v = output_open s" using assms(1) by (auto simp: init_socket_def Let_def split: if_splits)
  show "x \<in> held v \<longleftrightarrow> owns v x"
    using assms(1,3) assms(2) [of x] h by (cases x) (auto simp: init_socket_def Let_def split: if_splits)
qed

lemma init_owns:
  assumes "server_init cd ie (server_zero_data at_start) = Inr (r, v)"
  shows "x \<in> held v \<longleftrightarrow> owns v x" and "cd \<Longrightarrow> \<not> output_open v"
proof -
  have "(x \<in> held v \<longleftrightarrow> owns v x) \<and> (cd \<longrightarrow> \<not> output_open v)"
    using assms
  proof (cases rule: init_parts)
    case 1
    then show ?thesis using init_threads_owns by blast
  next
    case (2 s ok)
    note t = init_threads_owns [OF 2(1)]
    show ?thesis using init_socket_owns [OF 2(2) t(1,3)] t(2) by blast
  qed
  then show "x \<in> held v \<longleftrightarrow> owns v x" and "cd \<Longrightarrow> \<not> output_open v" by auto
qed

lemma init_timer:
  assumes "server_init cd ie (server_zero_data at_start) = Inr (r, v)" and "timer v = Some False"
  shows "timer_create_ret ie \<noteq> 0"
  using assms(1)
proof (cases rule: init_parts)
  case 1
  then show ?thesis using init_threads_owns(3) assms(2) by fastforce
next
  case (2 s ok)
  then show ?thesis
    using init_threads_owns(3) [OF 2(1)] assms(2) by (auto simp: init_socket_def Let_def split: if_splits)
qed

text \<open>What the process holds is what its fields name.\<close>

definition owned :: "bool \<Rightarrow> server \<Rightarrow> bool" where
  "owned char_device v \<longleftrightarrow> (\<forall>x. x \<in> held v \<longrightarrow> owns v x) \<and> (char_device \<longrightarrow> R_path \<notin> held v)"

lemma init_owned: "server_init cd ie (server_zero_data at_start) = Inr (r, v) \<Longrightarrow> owned cd v"
  using init_owns [of cd ie r v] by (auto simp: owned_def)

lemma release_leaves_nothing:
  assumes "owned cd v" and "R_timer \<notin> held v"
  shows "held (snd (exit_release cd e r v)) = {}"
proof -
  have "x \<notin> held (snd (exit_release cd e r v))" for x
    using assms by (cases x) (auto simp: owned_def exit_release_def Let_def)
  then show ?thesis by blast
qed

lemma exit_timer_owned:
  assumes "exit_timer e v = Inr (r, w)" and "owned cd v"
  shows "owned cd w" and "R_timer \<notin> held w"
proof -
  have "owns w x" if "x \<in> held w" for x
    using assms that by (cases x) (auto simp: owned_def exit_timer_def split: option.splits if_splits)
  then show "owned cd w" using assms by (auto simp: owned_def exit_timer_def split: option.splits if_splits)
  show "R_timer \<notin> held w" using assms by (auto simp: owned_def exit_timer_def split: option.splits if_splits)
qed

lemma post_finished_owned [simp]: "owned cd v \<Longrightarrow> owned cd (post_finished v)" "held (post_finished v) = held v"
proof -
  show "owned cd (post_finished v)" if "owned cd v"
  proof -
    have "owns (post_finished v) x" if "x \<in> held v" for x
      using \<open>owned cd v\<close> that by (cases x) (auto simp: owned_def post_finished_def)
    then show ?thesis using that by (auto simp: owned_def post_finished_def)
  qed
qed (simp add: post_finished_def)

section \<open>Properties of the server process\<close>



text \<open>Runs of \<open>n\<close> steps with labels of \<open>L\<close>.\<close>

inductive run_on :: "bool \<Rightarrow> label set \<Rightarrow> sys \<Rightarrow> nat \<Rightarrow> sys \<Rightarrow> bool" for char_device L s where
  here: "run_on char_device L s 0 s"
| onward: "run_on char_device L s n s1 \<Longrightarrow> \<not> main_done s1 \<Longrightarrow> step char_device s1 l s2 \<Longrightarrow> l \<in> L \<Longrightarrow>
    run_on char_device L s (Suc n) s2"

lemma step_should_stop: "step cd s l s' \<Longrightarrow> should_stop (srv s) \<Longrightarrow> should_stop (srv s')"
  by (induction rule: step.induct)
    (auto simp: exit_timer_def exit_release_def server_stop_def timer_callback_def post_finished_def Let_def
      split: option.splits if_splits)

text \<open>The server after a stop signal is a system that ends.\<close>

definition drives :: "bool \<Rightarrow> sys \<Rightarrow> sys \<Rightarrow> bool" where
  "drives char_device s s' \<longleftrightarrow> \<not> main_done s \<and> (\<exists>l \<in> driving. step char_device s l s')"

lemma run_on_driving: "run_on cd driving s n s' \<longleftrightarrow> (drives cd ^^ n) s s'"
proof
  show "run_on cd driving s n s' \<Longrightarrow> (drives cd ^^ n) s s'"
  proof (induction rule: run_on.induct)
    case (onward n s1 l s2)
    then have "drives cd s1 s2" by (auto simp: drives_def)
    then show ?case using onward by auto
  qed simp
  show "(drives cd ^^ n) s s' \<Longrightarrow> run_on cd driving s n s'"
  proof (induction n arbitrary: s')
    case (Suc n)
    then obtain s1 where s1: "(drives cd ^^ n) s s1" "drives cd s1 s'" by auto
    then show ?case using run_on.onward [OF Suc.IH [OF s1(1)]] unfolding drives_def by blast
  qed (simp add: run_on.here)
qed

interpretation shutdown: ending_system "drives cd" "\<lambda>s. shutdown_inv s \<and> should_stop (srv s)" work main_done for cd
proof
  show "shutdown_inv s' \<and> should_stop (srv s')" "work s' < work s"
    if "shutdown_inv s \<and> should_stop (srv s)" "drives cd s s'" for s s'
    using that step_shutdown_inv step_should_stop step_work by (auto simp: drives_def)
  show "\<exists>s'. drives cd s s'" if "shutdown_inv s \<and> should_stop (srv s)" "\<not> main_done s" for s
    using that shutdown_progress unfolding drives_def by blast
qed


lemma stop_step:
  assumes i: "server_init cd ie (server_zero_data at_start) = Inr (RET_OK, v)" and r: "reachable cd ie L s" "\<not> main_done s"
    and l: "Stop_signal \<in> L"
  obtains v' where "server_stop (srv s) = Inr v'" "should_stop v'" "reachable cd ie L (s\<lparr>srv := v'\<rparr>)"
proof -
  have "clock_sem (srv s) \<noteq> None"
    using reachable_shutdown_inv [OF i r(1)] r(2) by (simp add: shutdown_inv_def)
  then obtain v' where v': "server_stop (srv s) = Inr v'" "should_stop v'"
    by (auto simp: server_stop_def Let_def)
  then show ?thesis using that more [OF r stop [OF v'(1)] l] by blast
qed


text \<open>C22. Without a stop signal there is no exit: when the clock thread was created, and as long as its calls
  and the joins do not fail, no state without a stop signal has \<^verbatim>\<open>main\<close> past the join of the clock thread.  So a \<^verbatim>\<open>server_init\<close>
  that fails later (say in \<^verbatim>\<open>bind\<close>), or a \<^verbatim>\<open>server_run\<close> that fails, does not end the process: \<^verbatim>\<open>server_exit\<close> waits for a
  thread that nobody stops.\<close>

theorem no_exit_without_stop_signal:
  assumes "reachable cd ie (- {Stop_signal, Clock_fails, Join_fails}) s" and "clock_thread_initialized (srv s)"
  shows "\<not> main_done s \<and> main_at s \<noteq> Releasing r"
  using reachable_clock_lives [OF assms(1)] assms(2) by (simp add: clock_lives_def)

theorem no_exit_without_stop_signal_witness:
  "\<exists>v. server_init False (all_succeed\<lparr>bind_ret := -1\<rparr>) (server_zero_data at_start) = Inr (RET_ERR, v)
     \<and> main_at (booted RET_ERR v) = Exit_begin \<and> \<not> main_done (booted RET_ERR v)"
proof -
  obtain v where v: "server_init False (all_succeed\<lparr>bind_ret := -1\<rparr>) (server_zero_data at_start) = Inr (RET_ERR, v)"
    "clock_thread_initialized v"
    by (rule bind_fails_init)
  have "\<not> main_done (booted RET_ERR v)"
    using no_exit_without_stop_signal [OF boot [OF v(1), of "- {Stop_signal, Clock_fails, Join_fails}"]] v(2) by (simp add: booted_def)
  then show ?thesis using v(1) by (intro exI [of _ v]) (simp add: booted_def)
qed

text \<open>C28. The clean-up thread cleans nothing up: threads are never entered into the list it searches, so in
  every reachable state the list is empty, and the first time the thread is woken (by the first client that
  finishes, or by \<^verbatim>\<open>server_exit\<close>) it ends; no client thread is ever joined or freed.\<close>

theorem cleanup_thread_never_joins:
  assumes "reachable cd ie L s" and "step cd s l s'" and "\<not> main_done s"
  shows "thread_list (srv s) = [] \<and> (cleanup_at s' = cleanup_at s \<or> cleanup_at s = Cleanup_wait \<and> cleanup_at s' = Cleanup_done)"
proof -
  have e: "thread_list (srv s) = []" by (rule reachable_thread_list [OF assms(1)])
  have j: "cleanup_at s \<noteq> Cleanup_join i" for i using reachable_no_join [OF assms(1)] by blast
  show ?thesis using assms(2) e j by (cases rule: step.cases) (auto simp: finished_in_empty)
qed

theorem cleanup_thread_never_joins_witness:
  "\<exists>s s'. reachable False all_succeed UNIV s \<and> step False s Own s' \<and> main_at s' = Selecting
     \<and> clients s' = [Client_done] \<and> cleanup_at s' = Cleanup_done"
proof -
  obtain v where v: "server_init False all_succeed (server_zero_data at_start) = Inr (RET_OK, v)"
    by (rule all_succeed_init)
  let ?s = "with_client v False Selecting Cleanup_wait Clock_wait"
  have t: "reachable False all_succeed UNIV (?s Client_talk)" by (rule one_client_talks [OF v]) simp_all
  have nd: "\<not> main_done (?s c)" for c by (simp add: main_done_def with_client_def)
  have "step False (?s Client_talk) Peer (?s Client_close)"
    using client_unlocks [of 0 "?s Client_talk" False] by (simp add: with_client_def)
  then have c: "reachable False all_succeed UNIV (?s Client_close)" using more [OF t nd] by blast
  let ?d = "(?s Client_done)\<lparr>srv := post_finished (srv (?s Client_close))\<rparr>"
  have "step False (?s Client_close) Own ?d"
    using client_ends [of 0 "?s Client_close" False] by (simp add: with_client_def)
  then have d: "reachable False all_succeed UNIV ?d" using more [OF c nd] by blast
  have ndd: "\<not> main_done ?d" using nd by (simp add: main_done_def with_client_def)
  have "finished_signal (srv ?d) = Some (Suc 0)" using init_ok [OF v] by (simp add: with_client_def post_finished_def)
  then obtain s' where s': "step False ?d Own s'" "cleanup_at s' \<noteq> Cleanup_wait" "main_at s' = Selecting" "clients s' = [Client_done]"
    using cleanup_wakes [of ?d 0 False] by (fastforce simp: with_client_def split: option.splits)
  have "cleanup_at s' = Cleanup_done"
    using cleanup_thread_never_joins [OF d s'(1) ndd] s'(2) by (simp add: with_client_def)
  then show ?thesis using d s' by blast
qed

text \<open>C29. \<^verbatim>\<open>server_exit\<close> does not wait for the clients: after every successful start there is a run in which \<^verbatim>\<open>main\<close>
  has closed the output file and destroyed the mutex and the semaphores while a client thread is still in its
  dialogue with that file.\<close>

theorem exit_closes_file_in_use:
  assumes "server_init cd ie (server_zero_data at_start) = Inr (RET_OK, v)"
  shows "\<exists>s. reachable cd ie UNIV s \<and> main_done s \<and> clients s = [Client_talk]
    \<and> R_file \<notin> held (srv s) \<and> R_mutex \<notin> held (srv s) \<and> finished_signal (srv s) = None"
proof -
  note i = init_ok [OF assms]
  let ?w = "open_on_accept cd v"
  let ?s = "\<lambda>v m cu cl. \<lparr>srv = v, main_at = m, cleanup_at = cu, clock_at = cl, clients = [Client_talk]\<rparr>"
  note go = more [of cd ie UNIV, OF _ _ _ UNIV_I]
  have 0: "reachable cd ie UNIV (?s ?w Selecting Cleanup_wait Clock_wait)"
    using one_client_talks [OF assms, of UNIV] by (simp add: with_client_def)
  let ?v1 = "?w\<lparr>should_stop := True, clock_sem := Some 1\<rparr>"
  have 1: "reachable cd ie UNIV (?s ?v1 Interrupted Cleanup_wait Clock_wait)"
    using go [OF 0 _ stop_in_select [of _ ?v1 cd]] i by (simp add: main_done_def server_stop_def)
  have 2: "reachable cd ie UNIV (?s ?v1 Exit_begin Cleanup_wait Clock_wait)"
    using go [OF 1 _ run_stops [of _ cd]] by (simp add: main_done_def)
  let ?v2 = "?v1\<lparr>timer := None, timer_armed := False, held := held ?v1 - {R_timer}\<rparr>"
  let ?v3 = "?v2\<lparr>finished_signal := Some 1\<rparr>"
  have "exit_timer quiet_exit ?v1 = Inr (RET_OK, ?v2)" using i by (simp add: exit_timer_def quiet_exit_def)
  then have 3: "reachable cd ie UNIV (?s ?v3 (Join_cleanup RET_OK) Cleanup_wait Clock_wait)"
    using go [OF 2 _ exit_begins [of _ quiet_exit RET_OK ?v2 cd]] i by (simp add: main_done_def after_timer_def post_finished_def)
  let ?v4 = "?v3\<lparr>finished_signal := Some 0\<rparr>"
  have 4: "reachable cd ie UNIV (?s ?v4 (Join_cleanup RET_OK) Cleanup_done Clock_wait)"
    using go [OF 3 _ cleanup_wakes [of _ 0 cd]] i by (simp add: main_done_def finished_in_empty)
  have 5: "reachable cd ie UNIV (?s ?v4 (Join_clock RET_OK) Cleanup_done Clock_wait)"
    using go [OF 4 _ joins_cleanup [of _ RET_OK cd]] i by (simp add: main_done_def after_cleanup_def)
  let ?v5 = "?v4\<lparr>clock_sem := Some 0\<rparr>"
  have 6: "reachable cd ie UNIV (?s ?v5 (Join_clock RET_OK) Cleanup_done Clock_done)"
    using go [OF 5 _ clock_wakes [of _ 0 cd]] by (simp add: main_done_def)
  have 7: "reachable cd ie UNIV (?s ?v5 (Releasing RET_OK) Cleanup_done Clock_done)"
    using go [OF 6 _ joins_clock [of _ RET_OK cd]] by (simp add: main_done_def)
  obtain r' v6 where v6: "exit_release cd quiet_exit RET_OK ?v5 = (r', v6)" by (metis prod.collapse)
  have 8: "reachable cd ie UNIV (?s v6 (Main_done r') Cleanup_done Clock_done)"
    using go [OF 7 _ releases [of _ RET_OK cd quiet_exit r' v6]] v6 by (simp add: main_done_def)
  have o: "output_open ?v5" using init_open [OF assms] by (cases cd) (auto simp: open_on_accept_def)
  have "R_file \<notin> held v6 \<and> R_mutex \<notin> held v6 \<and> finished_signal v6 = None"
    using v6 o by (auto simp: exit_release_def Let_def split: if_splits prod.splits)
  then show ?thesis using 8 by (intro exI [of _ "?s v6 (Main_done r') Cleanup_done Clock_done"]) (simp add: main_done_def)
qed

theorem exit_closes_file_in_use_witness:
  "\<exists>s. reachable True all_succeed UNIV s \<and> main_done s \<and> clients s = [Client_talk] \<and> R_file \<notin> held (srv s)"
  by (rule all_succeed_init [of True]) (use exit_closes_file_in_use in blast)

lemma clock_append_file:
  assumes "idle_stream f" and "reg_ready (file_fd f)" and "cstr stamp \<noteq> []" and "length (cstr stamp) < BUFFER_SIZE"
    and "length (contents (file_fd f)) + length (cstr stamp) \<le> limit (file_fd f)"
  obtains f' where "clock_append reg_ops stamp f = ret (RET_OK, f')" "idle_stream f'" "reg_ready (file_fd f')"
    "reg_frame (file_fd f') = (contents (file_fd f) @ cstr stamp, limit (file_fd f))"
proof -
  have ar: "freg.at_rest f" using assms(1,2) by (simp add: freg.at_rest_def reg_ready_def reg_good_def)
  have "reg_room (reg_frame (file_fd f)) (length (cstr stamp) + 0)"
    using assms(5) by (simp add: reg_room_def reg_frame_def)
  from freg.put_piece [OF ar assms(3,4) this] obtain f1 f2 where
    f: "fwrite (sys_write reg_ops) (cstr stamp) f = ret (length (cstr stamp), f1)"
    "fflush (sys_write reg_ops) f1 = ret (0, f2)" "freg.at_rest f2"
    "reg_frame (file_fd f2) = reg_put (reg_frame (file_fd f)) (cstr stamp)"
    by metis
  then show ?thesis
    using that by (simp add: clock_append_def strlen_def freg.at_rest_def reg_frame_def reg_put_def)
qed

text \<open>A tick of the clock appends its time stamp to the regular file between two clients, and leaves the
  file ready for the next one.\<close>

theorem tick_appends_timestamp:
  assumes "between_clients reg_ready sh" and "cstr stamp \<noteq> []" and "length (cstr stamp) < BUFFER_SIZE"
    and "length (file_text sh) + length (cstr stamp) \<le> limit (file_fd (output_file sh))"
  shows "\<exists>sh'. clock_write reg_ops stamp sh = ret (RET_OK, sh') \<and> between_clients reg_ready sh'
    \<and> file_text sh' = file_text sh @ cstr stamp \<and> limit (file_fd (output_file sh')) = limit (file_fd (output_file sh))"
proof -
  obtain f where f: "clock_append reg_ops stamp (output_file sh) = ret (RET_OK, f)" "idle_stream f" "reg_ready (file_fd f)"
    "reg_frame (file_fd f) = (file_text sh @ cstr stamp, limit (file_fd (output_file sh)))"
    using clock_append_file [OF _ _ assms(2-4)] assms(1) unfolding between_clients_def by metis
  then show ?thesis
    using assms(1)
    by (intro exI [of _ "sh\<lparr>output_file := f\<rparr>"]) (simp add: clock_write_def between_clients_def reg_frame_def)
qed

theorem tick_appends_timestamp_witness:
  "\<exists>sh'. clock_write reg_ops (''timestamp'' @ [newline]) (file_shared ''a'') = ret (RET_OK, sh')
     \<and> file_text sh' = ''atimestamp'' @ [newline]"
  using tick_appends_timestamp [OF file_shared_ok(1), of "''timestamp'' @ [newline]" "''a''"] file_shared_ok(2,3)
  by (fastforce simp: BUFFER_SIZE_def)

lemma accepting_waits: "step cd s l s' \<Longrightarrow> main_at s \<in> {Selecting, Accepting} \<Longrightarrow>
    l \<notin> {Call_fails, Stop_signal, Tick_in_select} \<Longrightarrow> main_at s' \<in> {Selecting, Accepting}"
  by (cases rule: step.cases) auto

lemma run_waits: "run_on cd L s n s' \<Longrightarrow> main_at s \<in> {Selecting, Accepting} \<Longrightarrow>
    L \<inter> {Call_fails, Stop_signal, Tick_in_select} = {} \<Longrightarrow> main_at s' \<in> {Selecting, Accepting}"
proof (induction rule: run_on.induct)
  case here
  then show ?case by simp
next
  case (onward n s1 l s2)
  then show ?case using accepting_waits [OF onward(3)] by blast
qed

text \<open>A stop signal that arrives while a connection is being accepted is not noticed when \<^verbatim>\<open>server_run\<close> goes
  back into \<^verbatim>\<open>select\<close>: after every successful start there is a state with the stop flag set from which \<^verbatim>\<open>main\<close> goes
  on to wait for connections and to accept them, whatever the other threads and the peers do, until another
  signal interrupts \<^verbatim>\<open>select\<close>.  (The timer, which runs every ten seconds, sends one.)\<close>

theorem stop_signal_waits_for_tick:
  assumes "server_init cd ie (server_zero_data at_start) = Inr (RET_OK, v)"
  shows "\<exists>s. reachable cd ie {Connect, Stop_signal, Own} s \<and> should_stop (srv s) \<and> main_at s = Selecting
    \<and> (\<forall>n s'. run_on cd (- {Call_fails, Stop_signal, Tick_in_select}) s n s' \<longrightarrow> main_at s' \<in> {Selecting, Accepting})"
proof -
  note go = more [of cd ie "{Connect, Stop_signal, Own}", rotated 2]
  let ?b = "booted RET_OK v"
  let ?a = "?b\<lparr>main_at := Accepting\<rparr>"
  let ?v = "v\<lparr>should_stop := True, clock_sem := Some 1\<rparr>"
  have a: "reachable cd ie {Connect, Stop_signal, Own} ?a"
    using go [OF select_ready [of ?b cd] _ boot [OF assms]] by (simp add: main_done_def booted_def)
  have s: "reachable cd ie {Connect, Stop_signal, Own} (?a\<lparr>srv := ?v\<rparr>)"
    using go [OF stop [of ?a ?v cd] _ a] init_ok [OF assms] by (simp add: main_done_def booted_def server_stop_eq)
  let ?e = "(?a\<lparr>srv := ?v\<rparr>)\<lparr>main_at := Selecting, srv := open_on_accept cd ?v, clients := [Client_lock]\<rparr>"
  have "reachable cd ie {Connect, Stop_signal, Own} ?e"
    using go [OF accepts [of "?a\<lparr>srv := ?v\<rparr>" cd] _ s] by (simp add: main_done_def booted_def)
  then show ?thesis using run_waits [of cd _ ?e] by (intro exI [of _ ?e]) auto
qed

theorem stop_signal_waits_for_tick_witness:
  "\<exists>s. reachable True all_succeed {Connect, Stop_signal, Own} s \<and> should_stop (srv s) \<and> main_at s = Selecting"
  by (rule all_succeed_init [of True]) (use stop_signal_waits_for_tick in blast)

text \<open>A client that says nothing also holds up the shutdown of the server with the regular file: its thread keeps
  the mutex while it waits for input, and the clock thread, which \<^verbatim>\<open>server_exit\<close> joins, waits for the mutex before it
  looks at the stop flag.  The program can then make no step of its own.\<close>

theorem silent_client_blocks_shutdown:
  assumes "clock_at s = Clock_lock" and "clients s = [Client_talk]" and "main_at s = Join_clock r"
    and "cleanup_at s = Cleanup_done" and "step False s l s'"
  shows "l \<noteq> Own"
  using assms(5,1-4) by (cases rule: step.cases) (auto simp: mutex_free_def)

end
