(* ===== verification/Concurrent_Server.thy ===== *)
theory Concurrent_Server
  imports Server_Lifecycle
begin

text \<open>
  The server as it runs: the step relation of \<open>Server_Lifecycle\<close> together with the data its threads work on.
  A world is the process, the output file's stream, the connections and the state of each client thread;
  the critical sections (the dialogue of a client, the write of the clock thread), which the mutex makes
  exclusive, are single steps that run the functions of \<open>Client_Session\<close> and \<open>Server_Lifecycle\<close>.  The interface
  \<open>serial_store\<close> is what the threads rely on in the output file; inside it is proved that every interleaving is
  equivalent to the sequence of its critical sections, and the regular file and the device interpret it.
\<close>

section \<open>Worlds\<close>

record 'b world =
  proc :: sys
  outp :: "'b FILE"
  conns :: "(sock_in \<times> sock_out) list"
  threads :: "(sock_in, sock_out) thread_info list"

text \<open>The critical sections: the dialogue of client \<open>i\<close>, the write of a time stamp.\<close>

datatype event = Talked nat | Ticked string

text \<open>Steps of the process that touch no data: everything but a client's dialogue and the closing of its sockets,
  the write of the clock, and the acceptance of a connection.\<close>

definition silent :: "sys \<Rightarrow> sys \<Rightarrow> bool" where
  "silent s s' \<longleftrightarrow> (clients s' = clients s
       \<or> (\<exists>i < length (clients s). clients s ! i = Client_lock \<and> clients s' = (clients s)[i := Client_talk]))
     \<and> (clock_at s = Clock_write \<longrightarrow> clock_at s' = Clock_write)"

inductive wstep :: "'b fd_ops \<Rightarrow> bool \<Rightarrow> 'b world \<Rightarrow> event list \<Rightarrow> 'b world \<Rightarrow> bool" for ops char_device where
  w_accept: "main_at (proc w) = Accepting \<Longrightarrow> wstep ops char_device w []
      (w\<lparr>proc := (proc w)\<lparr>main_at := Selecting, srv := open_on_accept char_device (srv (proc w)),
            clients := clients (proc w) @ [Client_lock]\<rparr>,
         conns := conns w @ [(i, out)], threads := threads w @ [new_thread_info i out]\<rparr>)"
| w_dialogue: "i < length (clients (proc w)) \<Longrightarrow> clients (proc w) ! i = Client_talk \<Longrightarrow>
    client_dialogue sock_read sock_write ops (threads w ! i) (outp w) = ret (r, ti, f) \<Longrightarrow>
    wstep ops char_device w [Talked i]
      (w\<lparr>proc := (proc w)\<lparr>clients := (clients (proc w))[i := Client_close]\<rparr>, outp := f,
         threads := (threads w)[i := ti\<lparr>thread_ret := r\<rparr>]\<rparr>)"
| w_close: "i < length (clients (proc w)) \<Longrightarrow> clients (proc w) ! i = Client_close \<Longrightarrow>
    close_sockets sock_write close_rets (thread_ret (threads w ! i)) (threads w ! i) = ret (r, ti) \<Longrightarrow>
    wstep ops char_device w []
      (w\<lparr>proc := (proc w)\<lparr>clients := (clients (proc w))[i := Client_done], srv := post_finished (srv (proc w))\<rparr>,
         threads := (threads w)[i := ti\<lparr>thread_ret := r, thread_finished := True\<rparr>]\<rparr>)"
| w_tick: "clock_at (proc w) = Clock_write \<Longrightarrow> clock_append ops stamp (outp w) = ret (RET_OK, f) \<Longrightarrow>
    wstep ops char_device w [Ticked stamp] (w\<lparr>proc := (proc w)\<lparr>clock_at := Clock_wait\<rparr>, outp := f\<rparr>)"
| w_tick_fails: "clock_at (proc w) = Clock_write \<Longrightarrow> clock_append ops stamp (outp w) = ret (RET_ERR, f) \<Longrightarrow>
    wstep ops char_device w [Ticked stamp] (w\<lparr>proc := (proc w)\<lparr>clock_at := Clock_done\<rparr>, outp := f\<rparr>)"
| w_silent: "step char_device (proc w) l s' \<Longrightarrow> silent (proc w) s' \<Longrightarrow>
    wstep ops char_device w [] (w\<lparr>proc := s'\<rparr>)"

text \<open>The runs from a successful or failed \<^verbatim>\<open>server_init\<close>, with their critical sections in order.\<close>

inductive wruns :: "'b fd_ops \<Rightarrow> bool \<Rightarrow> init_env \<Rightarrow> 'b FILE \<Rightarrow> event list \<Rightarrow> 'b world \<Rightarrow> bool"
  for ops char_device ie f where
  w_boot: "server_init char_device ie (server_zero_data at_start) = Inr (r, v) \<Longrightarrow>
    wruns ops char_device ie f [] \<lparr>proc = booted r v, outp = f, conns = [], threads = []\<rparr>"
| w_next: "wruns ops char_device ie f es w \<Longrightarrow> \<not> main_done (proc w) \<Longrightarrow> wstep ops char_device w e w' \<Longrightarrow>
    wruns ops char_device ie f (es @ e) w'"

text \<open>Forgetting the data gives the process: every step here is a step there.\<close>

lemma wstep_proc:
  assumes "wstep ops cd w e w'"
  shows "\<exists>l. step cd (proc w) l (proc w')"
  using assms
proof (cases rule: wstep.cases)
  case (w_accept i out)
  then show ?thesis using accepts [of "proc w" cd] by auto
next
  case (w_dialogue i r ti f)
  then show ?thesis using client_unlocks [of i "proc w" cd] by auto
next
  case (w_close i close_rets r ti)
  then show ?thesis using client_ends [of i "proc w" cd] by auto
next
  case (w_tick stamp f)
  then show ?thesis using clock_unlocks [of "proc w" cd] by auto
next
  case (w_tick_fails stamp f)
  then show ?thesis using clock_gives_up [of "proc w" cd] by auto
next
  case (w_silent l s')
  then show ?thesis by auto
qed

lemma wruns_reachable: "wruns ops cd ie f es w \<Longrightarrow> reachable cd ie UNIV (proc w)"
proof (induction rule: wruns.induct)
  case (w_boot r v)
  then show ?case using boot by simp
next
  case (w_next es w e w')
  then show ?case using wstep_proc [OF w_next(3)] more by blast
qed

section \<open>Events and what they leave in the output file\<close>

fun event_text :: "(sock_in \<times> sock_out) list \<Rightarrow> event \<Rightarrow> string" where
  "event_text cs (Talked i) = incoming (fst (cs ! i))"
| "event_text cs (Ticked stamp) = cstr stamp"

fun talkers :: "event list \<Rightarrow> nat list" where
  "talkers [] = []"
| "talkers (Talked i # es) = i # talkers es"
| "talkers (Ticked stamp # es) = talkers es"

lemma talkers_append [simp]: "talkers (es @ es') = talkers es @ talkers es'"
  by (induction es rule: talkers.induct) simp_all

lemma set_talkers: "i \<in> set (talkers es) \<longleftrightarrow> Talked i \<in> set es"
  by (induction es rule: talkers.induct) auto

abbreviation texts :: "'b world \<Rightarrow> event list \<Rightarrow> string list" where
  "texts w es \<equiv> map (event_text (conns w)) es"

definition good_stamps :: "event list \<Rightarrow> bool" where
  "good_stamps es \<longleftrightarrow> (\<forall>t. Ticked t \<in> set es \<longrightarrow> cstr t \<noteq> [] \<and> length (cstr t) < BUFFER_SIZE)"

definition good_conns :: "'b world \<Rightarrow> bool" where
  "good_conns w \<longleftrightarrow> (\<forall>c \<in> set (conns w). sends c (incoming (fst c)))"

lemma texts_grow:
  assumes "\<forall>i \<in> set (talkers es). i < length cs"
  shows "map (event_text (cs @ ds)) es = map (event_text cs) es"
  using assms by (induction es rule: talkers.induct) (simp_all add: nth_append)

section \<open>What holds whatever the clients send\<close>

text \<open>Each client that has left its dialogue had exactly one; a thread that has not begun has fresh streams.\<close>

definition shape :: "event list \<Rightarrow> 'b world \<Rightarrow> bool" where
  "shape es w \<longleftrightarrow> length (threads w) = length (clients (proc w)) \<and> length (conns w) = length (clients (proc w))
     \<and> distinct (talkers es)
     \<and> set (talkers es) = {i. i < length (clients (proc w)) \<and> clients (proc w) ! i \<in> {Client_close, Client_done}}
     \<and> (\<forall>i < length (clients (proc w)). clients (proc w) ! i \<in> {Client_lock, Client_talk} \<longrightarrow>
          threads w ! i = new_thread_info (fst (conns w ! i)) (snd (conns w ! i)))"

lemma wstep_shape:
  assumes "wstep ops cd w e w'" and "shape es w"
  shows "shape (es @ e) w'"
  using assms(1)
proof (cases rule: wstep.cases)
  case (w_accept i out)
  then show ?thesis using assms(2) by (auto simp: shape_def nth_append less_Suc_eq)
next
  case (w_dialogue i r ti f)
  then show ?thesis using assms(2) by (auto simp: shape_def nth_list_update)
next
  case (w_close i close_rets r ti)
  then show ?thesis using assms(2) by (auto simp: shape_def nth_list_update)
next
  case (w_tick stamp f)
  then show ?thesis using assms(2) by (simp add: shape_def)
next
  case (w_tick_fails stamp f)
  then show ?thesis using assms(2) by (simp add: shape_def)
next
  case (w_silent l s')
  from w_silent(4) consider "clients s' = clients (proc w)"
    | j where "j < length (clients (proc w))" "clients (proc w) ! j = Client_lock"
        "clients s' = (clients (proc w))[j := Client_talk]"
    by (auto simp: silent_def)
  then show ?thesis
  proof cases
    case 1
    then show ?thesis using assms(2) w_silent(1,2) by (simp add: shape_def)
  next
    case 2
    then show ?thesis using assms(2) w_silent(1,2) by (auto simp: shape_def nth_list_update)
  qed
qed

lemma wruns_shape: "wruns ops cd ie f es w \<Longrightarrow> shape es w"
proof (induction rule: wruns.induct)
  case (w_boot r v)
  then show ?case by (simp add: shape_def booted_def)
next
  case (w_next es w e w')
  then show ?case using wstep_shape by blast
qed

lemma reachable_device_clock: "reachable True ie L s \<Longrightarrow> clock_at s \<in> {Clock_wait, Clock_done}"
proof (induction rule: reachable.induct)
  case (boot r v)
  then show ?case by (simp add: booted_def)
next
  case (more s l s')
  from more(3,5) show ?case by (cases rule: step.cases) auto
qed

text \<open>Connections are only added, so the text of an event does not change.\<close>

lemma wstep_conns: "wstep ops cd w e w' \<Longrightarrow> \<exists>ds. conns w' = conns w @ ds"
  by (cases rule: wstep.cases) auto

lemma wstep_texts: "wstep ops cd w e w' \<Longrightarrow> shape es w \<Longrightarrow> texts w' es = texts w es"
  using texts_grow [of es "conns w"] wstep_conns [of ops cd w e w'] by (auto simp: shape_def)

lemma close_sockets_got:
  assumes "close_sockets sock_write rets r ti = ret (r', ti')" and "wbuf (socket_input ti) = []"
    and "sout.sink_ok (socket_output ti)"
  shows "got (file_fd (socket_output ti')) = sout.outgoing (socket_output ti)"
proof -
  have "fclose no_write c (socket_input ti) = ret (if c = 0 then 0 else -1, socket_input ti)" for c
    using assms(2) by (simp add: fclose_def)
  moreover obtain b where "write_all sock_write (file_fd (socket_output ti)) (wbuf (socket_output ti)) = ret (True, b)"
    "got b = sout.outgoing (socket_output ti)"
    using sout.write_all_sink [of "file_fd (socket_output ti)" "wbuf (socket_output ti)"] assms(3) by auto
  ultimately show ?thesis using assms(1) by (auto simp: close_sockets_def fclose_def)
qed

section \<open>The interface\<close>

text \<open>A store that holds a list of texts: a dialogue with a client that sends a line, and a write of the clock, add
  theirs, and the reply is what the new list looks like.  \<open>fits\<close> says which lists it has room for.\<close>

locale serial_store =
  fixes ops :: "'b fd_ops"
    and char_device :: bool
    and holds :: "string list \<Rightarrow> 'b FILE \<Rightarrow> bool"
    and view :: "string list \<Rightarrow> string"
    and fits :: "string list \<Rightarrow> bool"
  assumes talk: "holds ts f \<Longrightarrow> fits (ts @ [w]) \<Longrightarrow> sends (i, out) w \<Longrightarrow>
      \<exists>ti f'. client_dialogue sock_read sock_write ops (new_thread_info i out) f = ret (RET_OK, ti, f')
        \<and> holds (ts @ [w]) f' \<and> wbuf (socket_input ti) = [] \<and> sout.sink_ok (socket_output ti)
        \<and> sout.outgoing (socket_output ti) = view (ts @ [w])"
    and append_stamp: "holds ts f \<Longrightarrow> fits (ts @ [cstr t]) \<Longrightarrow> cstr t \<noteq> [] \<Longrightarrow> length (cstr t) < BUFFER_SIZE \<Longrightarrow>
      \<not> char_device \<Longrightarrow> \<exists>f'. clock_append ops t f = ret (RET_OK, f') \<and> holds (ts @ [cstr t]) f'"
    and fits_prefix: "fits (ts @ us) \<Longrightarrow> fits ts"
begin

text \<open>The invariant of a run: the stream holds the texts of the critical sections so far, and what a client that
  has left its dialogue was or will be sent is the view after its own line.\<close>

definition answered :: "event list \<Rightarrow> 'b world \<Rightarrow> nat \<Rightarrow> bool" where
  "answered es w i \<longleftrightarrow> (let ti = threads w ! i in
     \<exists>k < length es. es ! k = Talked i \<and>
       (if clients (proc w) ! i = Client_close
        then wbuf (socket_input ti) = [] \<and> sout.sink_ok (socket_output ti)
          \<and> sout.outgoing (socket_output ti) = view (texts w (take (Suc k) es))
        else got (file_fd (socket_output ti)) = view (texts w (take (Suc k) es))))"

definition run_inv :: "event list \<Rightarrow> 'b world \<Rightarrow> bool" where
  "run_inv es w \<longleftrightarrow> holds (texts w es) (outp w) \<and> (\<forall>i \<in> set (talkers es). answered es w i)"

lemma answered_append:
  assumes "wstep ops char_device w e w'" and "shape es w" and "answered es w i"
    and "threads w' ! i = threads w ! i" and "clients (proc w') ! i = clients (proc w) ! i"
  shows "answered (es @ e) w' i"
proof -
  obtain k where k: "k < length es" "es ! k = Talked i" "if clients (proc w) ! i = Client_close
        then wbuf (socket_input (threads w ! i)) = [] \<and> sout.sink_ok (socket_output (threads w ! i))
          \<and> sout.outgoing (socket_output (threads w ! i)) = view (texts w (take (Suc k) es))
        else got (file_fd (socket_output (threads w ! i))) = view (texts w (take (Suc k) es))"
    using assms(3) by (auto simp: answered_def Let_def)
  have "texts w' (take (Suc k) es) = texts w (take (Suc k) es)"
    using wstep_texts [OF assms(1,2)] by (metis take_map)
  then show ?thesis
    using k assms(4,5) unfolding answered_def Let_def by (intro exI [of _ k]) (simp add: nth_append del: map_eq_conv)
qed

lemma run_inv_kept:
  assumes "wstep ops char_device w e w'" and "shape es w" and "run_inv es w"
    and "holds (texts w' (es @ e)) (outp w')"
    and "\<And>i. i \<in> set (talkers es) \<Longrightarrow> threads w' ! i = threads w ! i \<and> clients (proc w') ! i = clients (proc w) ! i
      \<or> answered (es @ e) w' i"
    and "\<And>i. i \<in> set (talkers e) \<Longrightarrow> answered (es @ e) w' i"
  shows "run_inv (es @ e) w'"
  using assms answered_append [OF assms(1,2)] unfolding run_inv_def by fastforce

lemma wstep_run_inv:
  assumes s: "wstep ops char_device w e w'" and sh: "shape es w" and inv: "run_inv es w" and "good_conns w'"
    and "good_stamps (es @ e)" and fit: "fits (texts w' (es @ e))"
    and cd: "char_device \<Longrightarrow> clock_at (proc w) \<noteq> Clock_write"
  shows "run_inv (es @ e) w'"
proof -
  note keep = run_inv_kept [OF s sh inv]
  have h: "holds (texts w es) (outp w)" using inv by (simp add: run_inv_def)
  have len: "length (threads w) = length (clients (proc w))" "length (conns w) = length (clients (proc w))"
    using sh by (simp_all add: shape_def)
  have tk: "i < length (clients (proc w)) \<and> clients (proc w) ! i \<in> {Client_close, Client_done}" if "i \<in> set (talkers es)" for i
    using sh that unfolding shape_def by blast
  note tx = wstep_texts [OF s sh]
  from s show ?thesis
  proof (cases rule: wstep.cases)
    case (w_accept i out)
    show ?thesis
      using h tx tk len w_accept by (intro keep) (auto simp: nth_append simp del: map_eq_conv)
  next
    case (w_dialogue i r ti f)
    let ?c = "conns w ! i" and ?t = "incoming (fst (conns w ! i))"
    have i: "i < length (conns w)" using w_dialogue(3) len by simp
    have "sends (fst ?c, snd ?c) ?t" using assms(4) i w_dialogue(2) by (simp add: good_conns_def)
    moreover have "threads w ! i = new_thread_info (fst ?c) (snd ?c)" using sh w_dialogue(3,4) by (simp add: shape_def)
    moreover have tx': "texts w' (es @ e) = texts w es @ [?t]" using w_dialogue(1,2) by simp
    moreover have "fits (texts w es @ [?t])" using fit unfolding tx' .
    ultimately have "r = RET_OK" and f: "holds (texts w es @ [?t]) f"
      and ti: "wbuf (socket_input ti) = []" "sout.sink_ok (socket_output ti)"
        "sout.outgoing (socket_output ti) = view (texts w es @ [?t])"
      using talk [OF h, of ?t "fst ?c" "snd ?c"] w_dialogue(5) by auto
    have "answered (es @ e) w' i"
      using ti w_dialogue(1-3) len tx' by (auto simp: answered_def Let_def intro!: exI [of _ "length es"])
    moreover have "i \<notin> set (talkers es)" using tk w_dialogue(4) by fastforce
    ultimately show ?thesis
      using f tx' tk w_dialogue(1-3) by (intro keep) (auto simp: nth_list_update simp del: map_eq_conv)
  next
    case (w_close i close_rets r ti)
    have t: "i \<in> set (talkers es)" using sh w_close(3,4) by (simp add: shape_def)
    then obtain k where k: "k < length es" "es ! k = Talked i" "wbuf (socket_input (threads w ! i)) = []"
      "sout.sink_ok (socket_output (threads w ! i))"
      "sout.outgoing (socket_output (threads w ! i)) = view (texts w (take (Suc k) es))"
      using inv w_close(4) by (auto simp: run_inv_def answered_def Let_def)
    have "answered (es @ e) w' i"
      using k close_sockets_got [OF w_close(5) k(3,4)] w_close(1-3) len
      by (auto simp: answered_def Let_def intro!: exI [of _ k])
    then have "threads w' ! j = threads w ! j \<and> clients (proc w') ! j = clients (proc w) ! j
        \<or> answered (es @ e) w' j" for j
      using w_close(1,2) by (cases "j = i") auto
    then show ?thesis using h w_close(1,2) by (intro keep) auto
  next
    case (w_tick stamp f)
    then have "cstr stamp \<noteq> []" "length (cstr stamp) < BUFFER_SIZE" using assms(5) by (auto simp: good_stamps_def)
    then have "holds (texts w es @ [cstr stamp]) f"
      using append_stamp [OF h, of stamp] fit cd w_tick by auto
    then show ?thesis using w_tick(1,2) by (intro keep) auto
  next
    case (w_tick_fails stamp f)
    then have "cstr stamp \<noteq> []" "length (cstr stamp) < BUFFER_SIZE" using assms(5) by (auto simp: good_stamps_def)
    then show ?thesis using append_stamp [OF h, of stamp] fit cd w_tick_fails by auto
  next
    case (w_silent l s')
    then have "clients s' ! j = clients (proc w) ! j" if "j \<in> set (talkers es)" for j
      using tk [OF that] by (auto simp: silent_def nth_list_update)
    then show ?thesis using h w_silent(1,2) by (intro keep) simp_all
  qed
qed

lemma wruns_inv:
  "wruns ops char_device ie f es w \<Longrightarrow> holds [] f \<Longrightarrow> good_conns w \<Longrightarrow> good_stamps es \<Longrightarrow> fits (texts w es) \<Longrightarrow>
     run_inv es w"
proof (induction rule: wruns.induct)
  case (w_boot r v)
  then show ?case by (simp add: run_inv_def)
next
  case (w_next es w e w')
  note sh = wruns_shape [OF w_next(1)]
  have g: "good_conns w" "good_stamps es" using wstep_conns [OF w_next(3)] w_next.prems by (auto simp: good_conns_def good_stamps_def)
  have "fits (texts w es)" using w_next.prems(4) wstep_texts [OF w_next(3) sh] fits_prefix by (simp del: map_eq_conv)
  then have inv: "run_inv es w" using w_next.IH w_next.prems(1) g by blast
  have "clock_at (proc w) \<noteq> Clock_write" if char_device
    using reachable_device_clock [of ie UNIV "proc w"] wruns_reachable [OF w_next(1)] that by auto
  then show ?case using wstep_run_inv [OF w_next(3) sh inv w_next.prems(2-4)] by blast
qed

lemma dialogue_returns:
  assumes "wruns ops char_device ie f es w" and "holds [] f" and "good_conns w" and "good_stamps es"
    and "fits (texts w es)" and "i < length (clients (proc w))" and "clients (proc w) ! i = Client_talk"
    and "fits (texts w (es @ [Talked i]))"
  shows "\<exists>r ti f'. client_dialogue sock_read sock_write ops (threads w ! i) (outp w) = ret (r, ti, f')"
proof -
  have h: "holds (texts w es) (outp w)" using wruns_inv [OF assms(1-5)] by (simp add: run_inv_def)
  note sh = wruns_shape [OF assms(1)]
  then have t: "threads w ! i = new_thread_info (fst (conns w ! i)) (snd (conns w ! i))" "i < length (conns w)"
    using assms(6,7) by (simp_all add: shape_def)
  then have "sends (conns w ! i) (incoming (fst (conns w ! i)))" using assms(3) by (simp add: good_conns_def)
  then show ?thesis using talk [OF h, of "incoming (fst (conns w ! i))" "fst (conns w ! i)" "snd (conns w ! i)"] assms(8) t(1)
    by auto
qed

text \<open>Serialisation: the stream holds the texts of the critical sections in their order, and a client that is done
  got the view after the critical sections up to its own.\<close>

lemma serialised:
  assumes "wruns ops char_device ie f es w" and "holds [] f" and "good_conns w" and "good_stamps es"
    and "fits (texts w es)"
  shows "holds (texts w es) (outp w)" and "distinct (talkers es)"
    and "i < length (clients (proc w)) \<Longrightarrow> clients (proc w) ! i = Client_done \<Longrightarrow>
      \<exists>k < length es. es ! k = Talked i \<and> got (file_fd (socket_output (threads w ! i))) = view (take (Suc k) (texts w es))"
    and "i < length (clients (proc w)) \<Longrightarrow> clients (proc w) ! i = Client_talk \<Longrightarrow> fits (texts w (es @ [Talked i])) \<Longrightarrow>
      \<exists>w'. wstep ops char_device w [Talked i] w'"
proof -
  show "\<exists>w'. wstep ops char_device w [Talked i] w'"
    if "i < length (clients (proc w))" "clients (proc w) ! i = Client_talk" "fits (texts w (es @ [Talked i]))"
    using dialogue_returns [OF assms that(1,2)] that w_dialogue by fastforce
  have inv: "run_inv es w" by (rule wruns_inv [OF assms])
  have sh: "shape es w" by (rule wruns_shape [OF assms(1)])
  show "holds (texts w es) (outp w)" using inv by (simp add: run_inv_def)
  show "distinct (talkers es)" using sh by (simp add: shape_def)
  show "\<exists>k < length es. es ! k = Talked i \<and> got (file_fd (socket_output (threads w ! i))) = view (take (Suc k) (texts w es))"
    if "i < length (clients (proc w))" "clients (proc w) ! i = Client_done"
  proof -
    have "i \<in> set (talkers es)" using sh that by (simp add: shape_def)
    then have "answered es w i" using inv by (simp add: run_inv_def)
    then show ?thesis using that(2) by (simp add: answered_def Let_def take_map)
  qed
qed

end

lemma sends_parts:
  "sends (i, out) w \<Longrightarrow> segments_ok i \<and> incoming i = w @ [] \<and> connected out \<and> got out = [] \<and> line w \<and> plain w \<and> nul \<notin> set w"
  by (simp add: sends_def plain_def)

lemma nul_cstr: "nul \<notin> set (cstr t)"
  using set_takeWhileD by (fastforce simp: cstr_def)

text \<open>The regular file: it holds the texts one after the other, as long as it has room for \<open>n\<close> bytes.\<close>

definition file_holds :: "nat \<Rightarrow> string list \<Rightarrow> reg_file FILE \<Rightarrow> bool" where
  "file_holds n ts f \<longleftrightarrow> idle_stream f \<and> reg_ready (file_fd f) \<and> contents (file_fd f) = concat ts
     \<and> limit (file_fd f) = n \<and> nul \<notin> set (concat ts)"

interpretation sfile: serial_store reg_ops False "file_holds n" concat "\<lambda>ts. length (concat ts) \<le> n" for n
proof (unfold_locales, goal_cases)
  case (1 ts f w i out)
  note c = sends_parts [OF 1(3)]
  have f: "idle_stream f" "reg_ready (file_fd f)" "contents (file_fd f) = concat ts" "limit (file_fd f) = n"
    "nul \<notin> set (concat ts)"
    using 1(1) by (simp_all add: file_holds_def)
  have "length (contents (file_fd f)) + length w \<le> limit (file_fd f)" using 1(2) f(3,4) by simp
  from file_protocol_line [OF f(1,2) _ _ _ _ _ this, of i out "[]"] c f(3,5) obtain si' so' f' where
    p: "server_protocol sock_read sock_write reg_ops (fdopen i) (fdopen out) f = ret (RET_OK, si', so', f')"
    "wbuf si' = []" "sout.sink_ok so'" "sout.outgoing so' = concat ts @ w"
    "idle_stream f'" "reg_ready (file_fd f')" "contents (file_fd f') = concat ts @ w" "limit (file_fd f') = limit (file_fd f)"
    by auto
  have "file_holds n (ts @ [w]) f'" using p(5-8) f(4,5) c by (simp add: file_holds_def)
  then show ?case using p(1-4) by (simp add: client_dialogue_def new_thread_info_def)
next
  case (2 ts f t)
  then show ?case
    using clock_append_file [of f t] nul_cstr [of t] by (fastforce simp: file_holds_def reg_frame_def)
next
  case (3 ts us)
  then show ?case by simp
qed

text \<open>The device: it holds the last ten lines.\<close>

definition dev_holds :: "kernel \<Rightarrow> string list \<Rightarrow> dev_fd FILE \<Rightarrow> bool" where
  "dev_holds K ts f \<longleftrightarrow> idle_stream f \<and> dev_good K (file_fd f) \<and> dev_frame (file_fd f) = (keep_last 10 ts, [])
     \<and> nul \<notin> set (concat ts)"

interpretation sdev: serial_store "dev_ops K" True "dev_holds K" last_ten
  "list_all (\<lambda>w. length w \<le> kmalloc_max K)" for K
proof (unfold_locales, goal_cases)
  case (1 ts f w i out)
  note c = sends_parts [OF 1(3)]
  have f: "idle_stream f" "dev_good K (file_fd f)" "dev_frame (file_fd f) = (keep_last 10 ts, [])" "nul \<notin> set (concat ts)"
    using 1(1) by (simp_all add: dev_holds_def)
  have l: "log_write (dev_frame (file_fd f)) w = (keep_last 10 (ts @ [w]), [])"
    using log_write_line c f(3) by (simp add: keep_last_append_keep)
  have nn: "nul \<notin> set (concat (ts @ [w]))" using f(4) c by simp
  have nt: "nul \<notin> set (log_text (log_write (dev_frame (file_fd f)) w))"
    unfolding l log_text_def fst_conv by (rule nul_keep_last [OF nn])
  have "length (snd (dev_frame (file_fd f))) + length w \<le> kmalloc_max K" using 1(2) f(3) by simp
  from dev_protocol_line [OF f(1,2) _ _ _ _ _ this nt, of i out "[]"] c obtain si' so' f' where
    p: "server_protocol sock_read sock_write (dev_ops K) (fdopen i) (fdopen out) f = ret (RET_OK, si', so', f')"
    "wbuf si' = []" "sout.sink_ok so'" "sout.outgoing so' = last_ten (ts @ [w])"
    "idle_stream f'" "dev_good K (file_fd f')" "dev_frame (file_fd f') = (keep_last 10 (ts @ [w]), [])"
    unfolding l by (auto simp: log_text_def last_ten_def)
  have "dev_holds K (ts @ [w]) f'" using p(5-7) nn by (simp add: dev_holds_def)
  then show ?case using p(1-4) by (simp add: client_dialogue_def new_thread_info_def)
next
  case (3 ts us)
  then show ?case by simp
qed simp

text \<open>The clock thread of the server over the device writes nothing.\<close>

lemma device_never_ticks: "wruns ops True ie f es w \<Longrightarrow> Ticked t \<notin> set es"
proof (induction rule: wruns.induct)
  case (w_boot r v)
  then show ?case by simp
next
  case (w_next es w e w')
  have "clock_at (proc w) \<noteq> Clock_write" using reachable_device_clock [OF wruns_reachable [OF w_next(1)]] by auto
  with w_next(3) have "Ticked t \<notin> set e" by (cases rule: wstep.cases) auto
  then show ?case using w_next.IH by simp
qed

text \<open>A run in which one client comes and goes.\<close>

lemma run_one_client:
  assumes v: "server_init cd ie (server_zero_data at_start) = Inr (RET_OK, v)"
    and d: "client_dialogue sock_read sock_write ops (new_thread_info i out) f = ret (RET_OK, ti, f')"
    and c: "wbuf (socket_input ti) = []" "sout.sink_ok (socket_output ti)"
  shows "\<exists>w. wruns ops cd ie f [Talked 0] w \<and> clients (proc w) = [Client_done] \<and> conns w = [(i, out)]"
proof -
  note go = w_next [of ops cd ie f, rotated 2] and nd = main_done_def booted_def
  let ?v = "open_on_accept cd v"
  let ?p = "\<lambda>m cs. (booted RET_OK v)\<lparr>main_at := m, clients := cs, srv := ?v\<rparr>"
  let ?w = "\<lambda>c ti f. \<lparr>proc = ?p Selecting [c], outp = f, conns = [(i, out)], threads = [ti]\<rparr>"
  let ?b = "\<lparr>proc = booted RET_OK v, outp = f, conns = [], threads = []\<rparr>"
  let ?a = "?b\<lparr>proc := (booted RET_OK v)\<lparr>main_at := Accepting\<rparr>\<rparr>"
  have "wstep ops cd ?b [] ?a"
    using w_silent [where w = ?b, OF select_ready] by (simp add: booted_def silent_def)
  from go [OF this w_boot [OF v]] have 1: "wruns ops cd ie f [] ?a" by (simp add: nd)
  have "wstep ops cd ?a [] (?w Client_lock (new_thread_info i out) f)"
    using w_accept [where w = ?a and i = i and out = out] by (simp add: booted_def)
  from go [OF this 1] have 2: "wruns ops cd ie f [] (?w Client_lock (new_thread_info i out) f)" by (simp add: nd)
  have "wstep ops cd (?w Client_lock (new_thread_info i out) f) [] (?w Client_talk (new_thread_info i out) f)"
    using w_silent [where w = "?w Client_lock (new_thread_info i out) f", OF client_locks [where i = 0]]
    by (auto simp: booted_def silent_def mutex_free_def)
  from go [OF this 2] have 3: "wruns ops cd ie f [] (?w Client_talk (new_thread_info i out) f)" by (simp add: nd)
  have "wstep ops cd (?w Client_talk (new_thread_info i out) f) [Talked 0] (?w Client_close (ti\<lparr>thread_ret := RET_OK\<rparr>) f')"
    using w_dialogue [where i = 0 and w = "?w Client_talk (new_thread_info i out) f"] d by (simp add: booted_def)
  from go [OF this 3] have 4: "wruns ops cd ie f [Talked 0] (?w Client_close (ti\<lparr>thread_ret := RET_OK\<rparr>) f')" by (simp add: nd)
  obtain b where "write_all sock_write (file_fd (socket_output ti)) (wbuf (socket_output ti)) = ret (True, b)"
    using sout.write_all_sink [of "file_fd (socket_output ti)" "wbuf (socket_output ti)"] c(2) by auto
  then obtain r ti' where "close_sockets sock_write (0, 0) RET_OK (ti\<lparr>thread_ret := RET_OK\<rparr>) = ret (r, ti')"
    using c(1) by (simp add: close_sockets_def fclose_def)
  then have "\<exists>w. wstep ops cd (?w Client_close (ti\<lparr>thread_ret := RET_OK\<rparr>) f') [] w \<and> clients (proc w) = [Client_done]
      \<and> conns w = [(i, out)]"
    using w_close [where i = 0 and w = "?w Client_close (ti\<lparr>thread_ret := RET_OK\<rparr>) f'"] by fastforce
  then show ?thesis using go [OF _ 4] by (fastforce simp: nd)
qed

section \<open>Properties of the concurrent server\<close>





end
