(* ===== verification/Server_Main.thy ===== *)
theory Server_Main
  imports Server_Lifecycle "HOL-Library.Sublist"
begin

text \<open>
  The main thread of the server as one computation: the options, \<^verbatim>\<open>server_run\<close> as a loop over what \<^verbatim>\<open>select\<close> and
  the calls for a connection return, \<^verbatim>\<open>server_exit\<close>, and \<^verbatim>\<open>main\<close> of \<^verbatim>\<open>server/server.c\<close> over them.  The loop is
  related to the step relation of \<open>Server_Lifecycle\<close>, in which the other threads run beside it.
\<close>

section \<open>Options\<close>

text \<open>The tables, and \<^verbatim>\<open>getopt_long\<close> of the C library for tables without option arguments.  Its state is the rest of
  the word of short options it is in, and the words not yet looked at.  It skips operands (and stops at the first one if
  \<^verbatim>\<open>POSIXLY_CORRECT\<close> is set), ends at the word \<^verbatim>\<open>--\<close>, accepts unambiguous abbreviations of long options, and
  gives \<^verbatim>\<open>'?'\<close> for what it does not know and for a value after \<^verbatim>\<open>=\<close>.\<close>

record option_entry =
  opt_name :: string
  opt_val :: char

definition short_options :: string where "short_options = ''hd''"

definition long_options :: "option_entry list" where
  "long_options = [\<lparr>opt_name = ''help'', opt_val = CHR ''h''\<rparr>, \<lparr>opt_name = ''demonize'', opt_val = CHR ''d''\<rparr>]"

definition short_option :: "char \<Rightarrow> int" where
  "short_option c = of_char (if c \<in> set short_options then c else CHR ''?'')"

definition long_option :: "string \<Rightarrow> int" where
  "long_option word =
     (let name = takeWhile (\<lambda>c. c \<noteq> CHR ''='') word;
          found = (case List.find (\<lambda>opt. opt_name opt = name) long_options of
              Some opt \<Rightarrow> [opt] | None \<Rightarrow> filter (\<lambda>opt. prefix name (opt_name opt)) long_options)
      in case found of
           [opt] \<Rightarrow> of_char (if name = word then opt_val opt else CHR ''?'')
         | _ \<Rightarrow> of_char (CHR ''?''))"

definition is_operand :: "string \<Rightarrow> bool" where
  "is_operand a \<longleftrightarrow> take 1 a \<noteq> ''-'' \<or> a = ''-''"

fun getopt_long :: "bool \<Rightarrow> string \<times> string list \<Rightarrow> int \<times> string \<times> string list" where
  "getopt_long posix (c # word, args) = (short_option c, word, args)"
| "getopt_long posix ([], []) = (-1, [], [])"
| "getopt_long posix ([], a # args) =
     (if a = ''--'' then (-1, [], args)
      else if is_operand a then (if posix then (-1, [], a # args) else getopt_long posix ([], args))
      else if take 2 a = ''--'' then (long_option (drop 2 a), [], args)
      else (short_option (a ! 1), drop 2 a, args))"

definition arg_size :: "string \<times> string list \<Rightarrow> nat" where
  "arg_size st = length (fst st) + sum_list (map length (snd st))"

lemma operand_cases: "\<not> is_operand a \<Longrightarrow> 2 \<le> length a"
  by (cases a; cases "tl a") (auto simp: is_operand_def)

lemma getopt_long_size:
  "getopt_long posix st = (c, st') \<Longrightarrow> c \<noteq> -1 \<Longrightarrow> arg_size st' < arg_size st"
proof (induction posix st rule: getopt_long.induct)
  case (3 posix a args)
  then show ?case
    using operand_cases [of a] by (auto simp: arg_size_def split: if_splits)
qed (auto simp: arg_size_def)

function parse_cmd_line_args :: "bool \<Rightarrow> string \<times> string list \<Rightarrow> bool \<Rightarrow> int \<times> bool" where
  "parse_cmd_line_args posix st demonize =
     (case getopt_long posix st of (c, st') \<Rightarrow>
        if c = -1 then (0, demonize)
        else if c = of_char (CHR ''h'') then (-1, demonize)
        else if c = of_char (CHR ''d'') then parse_cmd_line_args posix st' True
        else (1, demonize))"
  by pat_completeness auto

termination
  by (relation "measure (\<lambda>(posix, st, demonize). arg_size st)") (auto dest: getopt_long_size [OF sym])

declare parse_cmd_line_args.simps [simp del]

text \<open>A word pads to the width of the format.\<close>

definition pad_right :: "nat \<Rightarrow> string \<Rightarrow> string" where
  "pad_right n s = s @ replicate (n - length s) (CHR '' '')"

definition print_cmd_line_info :: "string list \<Rightarrow> string" where
  "print_cmd_line_info argv =
     ''usage: '' @ argv ! 0 @ '' [OPTIONS]'' @ [newline] @ [newline] @ ''OPTIONS'' @ [newline]
     @ pad_right 16 ''--help|-h'' @ '': print help'' @ [newline]
     @ pad_right 16 ''--demonize|-d'' @ '': run in background as a demon process'' @ [newline]"

text \<open>The options a command line gives, in order.\<close>

definition options_of_word :: "string \<Rightarrow> int list" where
  "options_of_word a =
     (if is_operand a then [] else if take 2 a = ''--'' then [long_option (drop 2 a)] else map short_option (tl a))"

definition options_of :: "bool \<Rightarrow> string list \<Rightarrow> int list" where
  "options_of posix args =
     concat (map options_of_word (takeWhile (\<lambda>a. a \<noteq> ''--'' \<and> \<not> (posix \<and> is_operand a)) args))"

fun read_options :: "int list \<Rightarrow> bool \<Rightarrow> int \<times> bool" where
  "read_options [] demonize = (0, demonize)"
| "read_options (c # cs) demonize =
     (if c = of_char (CHR ''h'') then (-1, demonize)
      else if c = of_char (CHR ''d'') then read_options cs True
      else (1, demonize))"

lemma of_char_ge_0 [simp]: "(of_char c :: int) \<noteq> -1"
  by (metis of_nat_of_char of_nat_0_le_iff zero_neq_neg_one neg_0_le_iff_le not_one_le_zero)

lemma option_ge_0: "short_option c \<noteq> -1" "long_option w \<noteq> -1"
  by (simp_all add: short_option_def long_option_def Let_def split: list.split)

lemma getopt_long_options:
  "case getopt_long posix st of (c, w, args) \<Rightarrow>
     map short_option (fst st) @ options_of posix (snd st) = (if c = -1 then [] else c # map short_option w @ options_of posix args)"
proof (induction posix st rule: getopt_long.induct)
  case (3 posix a args)
  have "tl a = a ! 1 # drop 2 a" if "\<not> is_operand a"
    using operand_cases [OF that] by (cases a; cases "tl a") auto
  with 3 show ?case
    by (auto simp: options_of_def options_of_word_def option_ge_0 split: prod.splits if_splits)
qed (auto simp: options_of_def option_ge_0)

lemma parse_reads_options:
  "parse_cmd_line_args posix st demonize = read_options (map short_option (fst st) @ options_of posix (snd st)) demonize"
proof (induction posix st demonize rule: parse_cmd_line_args.induct)
  case (1 posix st demonize)
  obtain c w args where g: "getopt_long posix st = (c, w, args)" by (metis surj_pair)
  then show ?case
    using getopt_long_options [where posix = posix and st = st] 1 by (subst parse_cmd_line_args.simps) (auto split: if_splits)
qed

section \<open>The loop of server-run\<close>

text \<open>What the calls for a connection return, \<^verbatim>\<open>thread_info_t\<close> with the descriptors behind its streams (\<open>None\<close>: a null
  pointer, which the code does not look at), and the state of the loop: the globals, the threads started, the blocks
  allocated for them and the descriptors that \<^verbatim>\<open>accept\<close> and \<^verbatim>\<open>dup\<close> opened.\<close>

record accept_env =
  malloc_info :: bool
  accept_ret :: int
  fopen_device :: bool
  fdopen_input :: bool
  dup_ret :: int
  fdopen_output :: bool
  create_client :: int

record started_thread =
  input_fd :: "int option"
  output_fd :: "int option"

record run_state =
  data :: server
  threads :: "started_thread list"
  blocks :: nat
  fds :: "int list"

definition thread_info_of :: "accept_env \<Rightarrow> started_thread" where
  "thread_info_of e = \<lparr>input_fd = (if fdopen_input e then Some (accept_ret e) else None),
     output_fd = (if dup_ret e \<noteq> -1 \<and> fdopen_output e then Some (dup_ret e) else None)\<rparr>"

text \<open>The treatment of a connection; whether to go on, and the state.\<close>

definition accept_client :: "bool \<Rightarrow> accept_env \<Rightarrow> run_state \<Rightarrow> fault + bool \<times> run_state" where
  "accept_client char_device e s =
     (if \<not> malloc_info e then Inl Null_deref
      else let s = s\<lparr>blocks := blocks s + 1\<rparr> in
      if accept_ret e = -1 then Inr (False, s)
      else let s = s\<lparr>fds := fds s @ [accept_ret e]\<rparr> in
      if char_device \<and> \<not> output_open (data s) \<and> \<not> fopen_device e then Inr (False, s)
      else let s = s\<lparr>data := open_on_accept char_device (data s),
                      fds := fds s @ (if dup_ret e = -1 then [] else [dup_ret e])\<rparr> in
      if create_client e \<noteq> 0 then Inr (False, s)
      else Inr (True, s\<lparr>threads := threads s @ [thread_info_of e]\<rparr>))"

text \<open>What \<^verbatim>\<open>select\<close> returns: interrupted after the handler of a signal ran, failed, or a connection is there.  If the list
  ends, the call waits for ever.\<close>

datatype signal = SIGALRM | SIG_STOP

datatype select_result = Interrupt signal | Select_fails | Ready accept_env

fun handle :: "signal \<Rightarrow> server \<Rightarrow> fault + server" where
  "handle SIGALRM s = Inr (timer_callback s)"
| "handle SIG_STOP s = server_stop s"

fun server_run :: "bool \<Rightarrow> run_state \<Rightarrow> select_result list \<Rightarrow> (ret_t \<times> run_state) run" where
  "server_run char_device s [] = None"
| "server_run char_device s (Interrupt sig # rs) =
     run_bind (Some (handle sig (data s))) (\<lambda>v.
       let s = s\<lparr>data := v\<rparr> in
       if should_stop v then ret (RET_OK, s) else server_run char_device s rs)"
| "server_run char_device s (Select_fails # rs) = ret (RET_ERR, s)"
| "server_run char_device s (Ready e # rs) =
     run_bind (Some (accept_client char_device e s)) (\<lambda>(ok, s).
       if ok then server_run char_device s rs else ret (RET_ERR, s))"

section \<open>The end\<close>

text \<open>\<^verbatim>\<open>server_exit\<close>; the joins return if the thread has ended or the call fails.\<close>

definition server_exit :: "bool \<Rightarrow> exit_env \<Rightarrow> bool \<Rightarrow> bool \<Rightarrow> server \<Rightarrow> (ret_t \<times> server) run" where
  "server_exit char_device e cleanup_joined clock_joined s =
     run_bind (Some (exit_timer e s)) (\<lambda>(r, s).
       let s = (if cleanup_thread_initialized s then post_finished s else s) in
       if cleanup_thread_initialized s \<and> \<not> cleanup_joined then None
       else if clock_thread_initialized s \<and> \<not> clock_joined then None
       else ret (exit_release char_device e r s))"

text \<open>\<^verbatim>\<open>main\<close>: whether the status is \<^verbatim>\<open>EXIT_SUCCESS\<close>, what was printed, whether the log is still open, and what is left.\<close>

record main_result =
  exit_success :: bool
  printed :: string
  log_open :: bool
  left :: run_state

definition log_init :: bool where "log_init = True"

definition log_exit :: bool where "log_exit = False"

definition initial_run :: "server \<Rightarrow> run_state" where
  "initial_run s = \<lparr>data = s, threads = [], blocks = 0, fds = []\<rparr>"

record main_env =
  posixly_correct :: bool
  fork_ret :: int
  init_results :: init_env
  select_results :: "select_result list"
  cleanup_joins :: bool
  clock_joins :: bool
  exit_results :: exit_env

definition server_main :: "bool \<Rightarrow> string list \<Rightarrow> main_env \<Rightarrow> main_result run" where
  "server_main char_device argv e =
     (let log = log_init;
          s = server_zero_data at_start;
          done = (\<lambda>ok out log s. ret \<lparr>exit_success = ok, printed = out, log_open = log, left = s\<rparr>);
          (r, demonize) = parse_cmd_line_args (posixly_correct e) ([], tl argv) False
      in
        if r = -1 then done True (print_cmd_line_info argv) log (initial_run s)
        else if r \<noteq> 0 then done False (print_cmd_line_info argv) log (initial_run s)
        else if demonize \<and> fork_ret e \<noteq> 0 then done True [] log (initial_run s)
        else
          let server_exit = server_exit char_device (exit_results e) (cleanup_joins e) (clock_joins e) in
          run_bind (Some (server_init char_device (init_results e) s)) (\<lambda>(init_ret, s).
          if init_ret \<noteq> RET_OK then
            run_bind (server_exit s) (\<lambda>(_, s). done False [] log (initial_run s))
          else run_bind (server_run char_device (initial_run s) (select_results e)) (\<lambda>(run_ret, st).
          if run_ret \<noteq> RET_OK then
            run_bind (server_exit (data st)) (\<lambda>(_, s). done False [] log_exit (st\<lparr>data := s\<rparr>))
          else run_bind (server_exit (data st)) (\<lambda>(exit_ret, s).
          if exit_ret \<noteq> RET_OK then done False [] log_exit (st\<lparr>data := s\<rparr>)
          else done True [] log (st\<lparr>data := s\<rparr>)))))"

section \<open>What server-run does\<close>

fun connections :: "select_result list \<Rightarrow> accept_env list" where
  "connections [] = []"
| "connections (Ready e # rs) = e # connections rs"
| "connections (_ # rs) = connections rs"

lemma connections_append [simp]: "connections (rs @ rs') = connections rs @ connections rs'"
  by (induction rs rule: connections.induct) auto

text \<open>The descriptors a connection opened, as far as its calls went.\<close>

definition opened :: "accept_env \<Rightarrow> int list" where
  "opened e = accept_ret e # (if dup_ret e = -1 then [] else [dup_ret e])"

lemma accept_client_cases:
  assumes "accept_client cd e s = Inr (ok, s')"
  shows "blocks s' = blocks s + 1 \<and> should_stop (data s') = should_stop (data s)
    \<and> (if ok then threads s' = threads s @ [thread_info_of e] \<and> fds s' = fds s @ opened e
       else threads s' = threads s \<and> fds s' \<in> {fds s, fds s @ [accept_ret e], fds s @ opened e})"
  using assms by (auto simp: accept_client_def opened_def Let_def split: if_splits)

lemma handle_not_stop: "handle SIGALRM v = Inr w \<Longrightarrow> should_stop w = should_stop v"
  by (auto simp: timer_callback_def split: option.splits)

text \<open>A run that served the connections of \<open>pre\<close> and ended with the result \<open>x\<close> of \<^verbatim>\<open>select\<close>.\<close>

fun ended_by :: "run_state \<Rightarrow> select_result list \<Rightarrow> select_result \<Rightarrow> ret_t \<Rightarrow> run_state \<Rightarrow> bool" where
  "ended_by s pre (Interrupt sig) r s' =
     (r = RET_OK \<and> should_stop (data s') \<and> blocks s' = blocks s + length (connections pre)
      \<and> fds s' = fds s @ concat (map opened (connections pre)))"
| "ended_by s pre Select_fails r s' =
     (r = RET_ERR \<and> blocks s' = blocks s + length (connections pre)
      \<and> fds s' = fds s @ concat (map opened (connections pre)))"
| "ended_by s pre (Ready e) r s' =
     (r = RET_ERR \<and> blocks s' = blocks s + length (connections pre) + 1
      \<and> (\<exists>l \<in> {[], [accept_ret e], opened e}. fds s' = fds s @ concat (map opened (connections pre)) @ l))"

lemma ended_by_quiet:
  "ended_by (s\<lparr>data := v\<rparr>) pre x r s' = ended_by s (Interrupt sig # pre) x r s'"
  by (cases x) auto

lemma ended_by_served:
  assumes "accept_client cd e s = Inr (True, s1)"
  shows "ended_by s1 pre x r s' = ended_by s (Ready e # pre) x r s'"
  using accept_client_cases [OF assms] by (cases x) auto

lemma server_run_accounts_for:
  "server_run cd s rs = ret (r, s') \<Longrightarrow>
     \<exists>pre x post. rs = pre @ x # post \<and> threads s' = threads s @ map thread_info_of (connections pre) \<and> ended_by s pre x r s'"
proof (induction cd s rs rule: server_run.induct)
  case (2 cd s sig rs)
  from 2(2) obtain v where v: "handle sig (data s) = Inr v"
    by (cases "handle sig (data s)") (auto simp: ret_def)
  show ?case
  proof (cases "should_stop v")
    case True
    then show ?thesis
      using 2(2) v by (intro exI [of _ "[]"] exI [of _ "Interrupt sig"] exI [of _ rs]) (auto simp: Let_def ret_def)
  next
    case False
    then obtain pre x post where "rs = pre @ x # post" "threads s' = threads s @ map thread_info_of (connections pre)"
      "ended_by (s\<lparr>data := v\<rparr>) pre x r s'"
      using 2 v by (fastforce simp: Let_def)
    then show ?thesis
      by (intro exI [of _ "Interrupt sig # pre"] exI [of _ x] exI [of _ post]) (simp del: ended_by.simps add: ended_by_quiet [where sig = sig and v = v, symmetric])
  qed
next
  case (3 cd s rs)
  then show ?case by (intro exI [of _ "[]"] exI [of _ Select_fails] exI [of _ rs]) (simp add: ret_def)
next
  case (4 cd s e rs)
  from 4(2) obtain ok s1 where a: "accept_client cd e s = Inr (ok, s1)"
    by (cases "accept_client cd e s") (auto simp: ret_def)
  show ?case
  proof (cases ok)
    case True
    then obtain pre x post where "rs = pre @ x # post" "threads s' = threads s1 @ map thread_info_of (connections pre)"
      "ended_by s1 pre x r s'"
      using 4 a by (fastforce)
    then show ?thesis
      using accept_client_cases [OF a] True a
      by (intro exI [of _ "Ready e # pre"] exI [of _ x] exI [of _ post]) (simp add: ended_by_served)
  next
    case False
    then show ?thesis
      using 4(2) a accept_client_cases [OF a]
      by (intro exI [of _ "[]"] exI [of _ "Ready e"] exI [of _ rs]) (auto simp: ret_def)
  qed
qed (simp add: ret_def)

section \<open>The main thread as steps\<close>

lemma run_on_trans: "run_on cd L s1 m s2 \<Longrightarrow> run_on cd L s n s1 \<Longrightarrow> run_on cd L s (n + m) s2"
  by (induction rule: run_on.induct) (auto intro: onward)

lemma run_on_one: "\<not> main_done s \<Longrightarrow> step cd s l s' \<Longrightarrow> l \<in> L \<Longrightarrow> run_on cd L s 1 s'"
  using onward [OF here] by simp

lemma not_main_done [simp]:
  "main_at s = Selecting \<Longrightarrow> \<not> main_done s" "main_at s = Interrupted \<Longrightarrow> \<not> main_done s"
  "main_at s = Accepting \<Longrightarrow> \<not> main_done s" "main_at s = Exit_begin \<Longrightarrow> \<not> main_done s"
  "main_at s = Join_cleanup r \<Longrightarrow> \<not> main_done s" "main_at s = Join_clock r \<Longrightarrow> \<not> main_done s"
  "main_at s = Releasing r \<Longrightarrow> \<not> main_done s"
  by (simp_all add: main_done_def)

lemma sys_update_order: "s\<lparr>main_at := p, srv := v\<rparr> = s\<lparr>srv := v, main_at := p\<rparr>"
  by (cases s) simp

lemma handle_steps:
  assumes "main_at s = Selecting" and "timer_armed (srv s)" and "handle sig (srv s) = Inr v"
  shows "\<exists>l. step cd s l (s\<lparr>srv := v, main_at := Interrupted\<rparr>)"
  using assms tick_in_select [of s cd] stop_in_select [of s _ cd] by (cases sig) auto

lemma handle_armed: "handle sig v = Inr w \<Longrightarrow> timer_armed w = timer_armed v"
  by (cases sig) (auto simp: server_stop_eq timer_callback_def split: option.splits)

lemma accept_client_data:
  assumes "accept_client cd e s = Inr (ok, s')"
  shows "ok \<Longrightarrow> data s' = open_on_accept cd (data s) \<and> length (threads s') = Suc (length (threads s))"
    and "\<not> ok \<Longrightarrow> data s' \<in> {data s, open_on_accept cd (data s)} \<and> threads s' = threads s"
  using assms by (auto simp: accept_client_def Let_def split: if_splits)

lemma failed_accept_steps:
  assumes a: "accept_client cd e st = Inr (False, st')" and s: "main_at s = Selecting" "srv s = data st"
  shows "\<exists>n. run_on cd UNIV s n (s\<lparr>srv := data st', main_at := Exit_begin\<rparr>)"
proof -
  let ?a = "s\<lparr>main_at := Accepting\<rparr>"
  have ra: "run_on cd UNIV s 1 ?a" using run_on_one [OF _ select_ready [of s cd]] s by simp
  have "run_on cd UNIV s (Suc 1) (?a\<lparr>main_at := Exit_begin, srv := data st'\<rparr>)"
  proof (cases "data st' = data st")
    case True
    then have e: "?a\<lparr>main_at := Exit_begin, srv := data st'\<rparr> = ?a\<lparr>main_at := Exit_begin\<rparr>" using s(2) by (cases s) simp
    show ?thesis unfolding e using onward [OF ra _ accept_fails [of ?a cd]] by simp
  next
    case False
    then show ?thesis
      using onward [OF ra _ create_fails [of ?a cd]] s(2) accept_client_data(2) [OF a] by simp
  qed
  then show ?thesis by (auto simp: sys_update_order)
qed

text \<open>Every return of \<^verbatim>\<open>server_run\<close> is a run of the main thread in the step relation, in which the other threads do not move
  yet.\<close>

definition left_loop :: "sys \<Rightarrow> run_state \<Rightarrow> run_state \<Rightarrow> sys" where
  "left_loop s st st' = s\<lparr>srv := data st', main_at := Exit_begin,
     clients := clients s @ replicate (length (threads st') - length (threads st)) Client_lock\<rparr>"

lemma left_loop_accepted:
  assumes "accept_client cd e st = Inr (True, st1)" and "length (threads st1) \<le> length (threads st')"
  shows "left_loop (s\<lparr>main_at := p, srv := v, clients := clients s @ [Client_lock]\<rparr>) st1 st' = left_loop s st st'"
proof -
  have "Client_lock # replicate (length (threads st') - length (threads st1)) Client_lock
      = replicate (length (threads st') - length (threads st)) Client_lock"
    using assms accept_client_data(1) [OF assms(1)] by (simp flip: replicate_Suc add: Suc_diff_le)
  then show ?thesis by (cases s) (simp add: left_loop_def)
qed

lemma server_run_steps:
  "server_run cd st rs = ret (r, st') \<Longrightarrow> main_at s = Selecting \<Longrightarrow> timer_armed (srv s) \<Longrightarrow> srv s = data st \<Longrightarrow>
     (\<exists>n. run_on cd UNIV s n (left_loop s st st')) \<and> length (threads st) \<le> length (threads st')"
proof (induction cd st rs arbitrary: s rule: server_run.induct)
  case (2 cd st sig rs)
  then obtain v where v: "handle sig (data st) = Inr v"
    by (cases "handle sig (data st)") (auto simp: ret_def)
  let ?i = "s\<lparr>srv := v, main_at := Interrupted\<rparr>"
  have i: "run_on cd UNIV s 1 ?i" using handle_steps [of s sig v cd] run_on_one 2 v by (auto simp del: One_nat_def)
  show ?case
  proof (cases "should_stop v")
    case True
    have "run_on cd UNIV s (Suc 1) (?i\<lparr>main_at := Exit_begin\<rparr>)"
      by (rule onward [OF i _ run_stops]) (use True in simp_all)
    then show ?thesis using 2(2) v True by (auto simp: Let_def ret_def left_loop_def)
  next
    case False
    let ?j = "?i\<lparr>main_at := Selecting\<rparr>"
    have j: "run_on cd UNIV s (Suc 1) ?j"
      by (rule onward [OF i _ run_continues]) (use False in simp_all)
    have "(\<exists>n. run_on cd UNIV ?j n (left_loop ?j (st\<lparr>data := v\<rparr>) st')) \<and> length (threads (st\<lparr>data := v\<rparr>)) \<le> length (threads st')"
      using 2 v False handle_armed [OF v] by (intro 2(1)) (auto simp: Let_def)
    then show ?thesis using run_on_trans [OF _ j] by (auto simp: left_loop_def)
  qed
next
  case (3 cd st rs)
  then have e: "left_loop s st st' = s\<lparr>main_at := Exit_begin\<rparr>" by (cases s) (simp add: ret_def left_loop_def)
  show ?case unfolding e using run_on_one [OF _ select_fails [of s cd], of UNIV] 3 by (auto simp: ret_def)
next
  case (4 cd st e rs)
  then obtain ok st1 where a: "accept_client cd e st = Inr (ok, st1)"
    by (cases "accept_client cd e st") (auto simp: ret_def)
  show ?case
  proof (cases ok)
    case True
    let ?a = "s\<lparr>main_at := Accepting\<rparr>"
    let ?j = "s\<lparr>main_at := Selecting, srv := open_on_accept cd (srv s), clients := clients s @ [Client_lock]\<rparr>"
    have ra: "run_on cd UNIV s 1 ?a" using run_on_one [OF _ select_ready [of s cd]] 4 by simp
    have j: "run_on cd UNIV s (Suc 1) ?j" using onward [OF ra _ accepts [of ?a cd]] by simp
    have "(\<exists>n. run_on cd UNIV ?j n (left_loop ?j st1 st')) \<and> length (threads st1) \<le> length (threads st')"
      using 4 a True accept_client_data(1) [OF a] by (intro 4(1)) auto
    then show ?thesis
      using run_on_trans [OF _ j] left_loop_accepted [of cd e st st1 st'] a True accept_client_data(1) [OF a True] by fastforce
  next
    case False
    then have st': "st' = st1" using 4(2) a by (auto simp: ret_def)
    then show ?thesis
      using failed_accept_steps [of cd e st st1 s] a False 4(3,5) accept_client_data(2) [OF a False] by (simp add: left_loop_def)
  qed
qed (simp add: ret_def)

lemma exit_timer_keeps:
  "exit_timer e v = Inr (r, w) \<Longrightarrow> cleanup_thread_initialized w = cleanup_thread_initialized v
     \<and> clock_thread_initialized w = clock_thread_initialized v"
  by (auto simp: exit_timer_def split: option.splits if_splits)

lemma server_exit_parts:
  assumes "server_exit cd e cj kj v = ret (r, w)"
  obtains r1 v1 where "exit_timer e v = Inr (r1, v1)"
    "exit_release cd e r1 (if cleanup_thread_initialized v then post_finished v1 else v1) = (r, w)"
proof -
  from assms obtain r1 v1 where t: "exit_timer e v = Inr (r1, v1)"
    by (cases "exit_timer e v") (auto simp: server_exit_def ret_def)
  then show ?thesis
    using assms that exit_timer_keeps [OF t] by (auto simp: server_exit_def Let_def ret_def split: if_splits)
qed

text \<open>Every return of \<^verbatim>\<open>server_exit\<close> is a run as well; that a join returns is all that matters of it.\<close>

lemma server_exit_steps:
  assumes "server_exit cd e cj kj (srv s) = ret (r, v)" and "main_at s = Exit_begin"
  shows "\<exists>n. run_on cd UNIV s n (s\<lparr>srv := v, main_at := Main_done r\<rparr>)"
proof -
  from assms(1) obtain r1 v1 where t: "exit_timer e (srv s) = Inr (r1, v1)" and
    rel: "exit_release cd e r1 (if cleanup_thread_initialized (srv s) then post_finished v1 else v1) = (r, v)"
    by (rule server_exit_parts)
  let ?v = "if cleanup_thread_initialized v1 then post_finished v1 else v1"
  note k = exit_timer_keeps [OF t]
  have e1: "run_on cd UNIV s 1 (s\<lparr>main_at := after_timer v1 r1, srv := ?v\<rparr>)"
    using run_on_one [OF _ exit_begins [OF assms(2) t]] assms(2) by simp
  have e2: "\<exists>n. run_on cd UNIV s n (s\<lparr>main_at := after_cleanup v1 r1, srv := ?v\<rparr>)"
  proof (cases "cleanup_thread_initialized v1")
    case True
    then show ?thesis
      using onward [OF e1 _ join_cleanup_fails [of "s\<lparr>main_at := after_timer v1 r1, srv := ?v\<rparr>" r1 cd]]
      by (auto simp: after_timer_def after_cleanup_def post_finished_def sys_update_order)
  next
    case False
    then show ?thesis using e1 by (auto simp: after_timer_def)
  qed
  then obtain n where n: "run_on cd UNIV s n (s\<lparr>main_at := after_cleanup v1 r1, srv := ?v\<rparr>)" by blast
  have "\<exists>n. run_on cd UNIV s n (s\<lparr>main_at := Releasing r1, srv := ?v\<rparr>)"
  proof (cases "clock_thread_initialized v1")
    case True
    then show ?thesis
      using onward [OF n _ join_clock_fails [of "s\<lparr>main_at := after_cleanup v1 r1, srv := ?v\<rparr>" r1 cd]]
      by (auto simp: after_cleanup_def sys_update_order)
  next
    case False
    then show ?thesis using n by (auto simp: after_cleanup_def)
  qed
  then obtain m where m: "run_on cd UNIV s m (s\<lparr>main_at := Releasing r1, srv := ?v\<rparr>)" by blast
  have "run_on cd UNIV s (Suc m) (s\<lparr>main_at := Main_done r, srv := v\<rparr>)"
    using onward [OF m _ releases [of "s\<lparr>main_at := Releasing r1, srv := ?v\<rparr>" r1 cd e r v]] rel k by (simp add: sys_update_order)
  then show ?thesis by (auto simp: sys_update_order)
qed

lemma reachable_run_on: "run_on cd UNIV s n s' \<Longrightarrow> reachable cd ie UNIV s \<Longrightarrow> reachable cd ie UNIV s'"
  by (induction rule: run_on.induct) (auto intro: more)

section \<open>What main leaves behind\<close>

lemma handle_owned: "handle sig v = Inr w \<Longrightarrow> owned cd v \<Longrightarrow> owned cd w"
proof -
  assume h: "handle sig v = Inr w" and o: "owned cd v"
  have "owns w x \<longleftrightarrow> owns v x" "held w = held v" for x
    using h by (cases sig; cases x; auto simp: server_stop_eq timer_callback_def split: option.splits)+
  then show ?thesis using o by (simp add: owned_def)
qed

lemma open_on_accept_owned: "owned cd v \<Longrightarrow> owned cd (open_on_accept cd v)"
proof -
  assume o: "owned cd v"
  have "owns (open_on_accept cd v) x" if "x \<in> held (open_on_accept cd v)" for x
    using o that by (cases x) (auto simp: owned_def open_on_accept_def split: if_splits)
  then show ?thesis using o by (auto simp: owned_def open_on_accept_def)
qed

lemma server_run_owned: "server_run cd s rs = ret (r, s') \<Longrightarrow> owned cd (data s) \<Longrightarrow> owned cd (data s')"
proof (induction cd s rs rule: server_run.induct)
  case (2 cd s sig rs)
  then obtain v where v: "handle sig (data s) = Inr v" by (cases "handle sig (data s)") (auto simp: ret_def)
  then show ?case using 2 handle_owned [OF v] by (auto simp: Let_def ret_def split: if_splits)
next
  case (4 cd s e rs)
  then obtain ok s1 where a: "accept_client cd e s = Inr (ok, s1)"
    by (cases "accept_client cd e s") (auto simp: ret_def)
  have "owned cd (data s1)"
    using accept_client_data [OF a] 4(3) open_on_accept_owned by (cases ok) auto
  then show ?case using 4 a by (auto simp: ret_def split: if_splits)
qed (simp_all add: ret_def)

lemma server_exit_leaves_nothing:
  assumes "server_exit cd e cj kj v = ret (r, w)" and "owned cd v"
  shows "held w = {}"
proof -
  from assms(1) obtain r1 v1 where t: "exit_timer e v = Inr (r1, v1)" and
    rel: "exit_release cd e r1 (if cleanup_thread_initialized v then post_finished v1 else v1) = (r, w)"
    by (rule server_exit_parts)
  note o = exit_timer_owned [OF t assms(2)]
  have "owned cd (if cleanup_thread_initialized v then post_finished v1 else v1)"
    "R_timer \<notin> held (if cleanup_thread_initialized v then post_finished v1 else v1)"
    using o by simp_all
  from release_leaves_nothing [OF this, of e r1] show ?thesis by (simp add: rel)
qed

section \<open>The whole program\<close>

text \<open>Whether \<^verbatim>\<open>main\<close> gets to start the server in this process.\<close>

definition starts_server :: "string list \<Rightarrow> main_env \<Rightarrow> bool" where
  "starts_server argv e \<longleftrightarrow>
     (case parse_cmd_line_args (posixly_correct e) ([], tl argv) False of (r, demonize) \<Rightarrow> r = 0 \<and> (demonize \<longrightarrow> fork_ret e = 0))"

lemma main_started:
  assumes "starts_server argv e"
  shows "server_main cd argv e =
    run_bind (Some (server_init cd (init_results e) (server_zero_data at_start))) (\<lambda>(init_ret, s).
      if init_ret \<noteq> RET_OK then
        run_bind (server_exit cd (exit_results e) (cleanup_joins e) (clock_joins e) s) (\<lambda>(_, s).
          ret \<lparr>exit_success = False, printed = [], log_open = True, left = initial_run s\<rparr>)
      else run_bind (server_run cd (initial_run s) (select_results e)) (\<lambda>(run_ret, st).
        run_bind (server_exit cd (exit_results e) (cleanup_joins e) (clock_joins e) (data st)) (\<lambda>(exit_ret, s).
          let ok = run_ret = RET_OK \<and> exit_ret = RET_OK in
          ret \<lparr>exit_success = ok, printed = [], log_open = ok, left = st\<lparr>data := s\<rparr>\<rparr>)))"
  using assms
  by (auto simp: server_main_def starts_server_def log_init_def log_exit_def Let_def fun_eq_iff run_bind_def split_beta
      intro!: arg_cong2 [where f = Option.bind] split: sum.splits if_splits)

lemma not_ok_iff: "r \<noteq> RET_OK \<longleftrightarrow> r = RET_ERR" "r \<noteq> RET_ERR \<longleftrightarrow> r = RET_OK"
  by (cases r; simp)+

lemma main_ran:
  assumes "starts_server argv e" and "server_main cd argv e = ret m"
  obtains (init_fails) v r w where "server_init cd (init_results e) (server_zero_data at_start) = Inr (RET_ERR, v)"
      "server_exit cd (exit_results e) (cleanup_joins e) (clock_joins e) v = ret (r, w)"
      "left m = initial_run w" "\<not> exit_success m"
  | (runs) v run_ret st r w where "server_init cd (init_results e) (server_zero_data at_start) = Inr (RET_OK, v)"
      "server_run cd (initial_run v) (select_results e) = ret (run_ret, st)"
      "server_exit cd (exit_results e) (cleanup_joins e) (clock_joins e) (data st) = ret (r, w)"
      "left m = st\<lparr>data := w\<rparr>" "exit_success m \<longleftrightarrow> run_ret = RET_OK \<and> r = RET_OK"
  using assms(2) that
  by (auto simp: main_started [OF assms(1)] run_bind_eq_ret Let_def ret_def [of "(_, _)"] not_ok_iff split: if_splits)

lemma booted_ok: "server_init cd ie (server_zero_data at_start) = Inr (RET_OK, v) \<Longrightarrow>
    main_at (booted RET_OK v) = Selecting \<and> timer_armed (srv (booted RET_OK v)) \<and> srv (booted RET_OK v) = v
    \<and> clients (booted RET_OK v) = []"
  using init_ok by (simp add: booted_def)

text \<open>Connections whose calls all succeed, and timer signals.\<close>

definition connects :: "accept_env \<Rightarrow> bool" where
  "connects e \<longleftrightarrow> malloc_info e \<and> accept_ret e \<noteq> -1 \<and> fopen_device e \<and> fdopen_input e \<and> dup_ret e \<noteq> -1
     \<and> fdopen_output e \<and> create_client e = 0"

fun serves :: "select_result \<Rightarrow> bool" where
  "serves (Ready e) = connects e"
| "serves (Interrupt SIGALRM) = True"
| "serves _ = False"

lemma accept_connects:
  assumes "connects e"
  shows "accept_client cd e s = Inr (True, s\<lparr>data := open_on_accept cd (data s), threads := threads s @ [thread_info_of e],
    blocks := blocks s + 1, fds := fds s @ opened e\<rparr>)"
  using assms by (simp add: connects_def accept_client_def opened_def Let_def)

lemma server_run_serves:
  "list_all serves rs \<Longrightarrow> \<not> should_stop (data s) \<Longrightarrow> clock_sem (data s) \<noteq> None \<Longrightarrow>
     \<exists>st. server_run cd s (rs @ Interrupt SIG_STOP # post) = ret (RET_OK, st) \<and> timer (data st) = timer (data s)
       \<and> threads st = threads s @ map thread_info_of (connections rs) \<and> blocks st = blocks s + length (connections rs)"
proof (induction rs arbitrary: s)
  case Nil
  then obtain n where "clock_sem (data s) = Some n" by blast
  then show ?case by (simp add: server_stop_def)
next
  case (Cons x rs)
  show ?case
  proof (cases x)
    case (Interrupt sig)
    then have "sig = SIGALRM" using Cons(2) by (cases sig) auto
    then show ?thesis
      using Cons.IH [of "s\<lparr>data := timer_callback (data s)\<rparr>"] Cons.prems Interrupt
      by (auto simp: timer_callback_def Let_def split: option.splits)
  next
    case (Ready e)
    then have "connects e" using Cons(2) by simp
    then show ?thesis
      using Cons.IH [of "s\<lparr>data := open_on_accept cd (data s), threads := threads s @ [thread_info_of e],
        blocks := blocks s + 1, fds := fds s @ opened e\<rparr>"] Cons.prems Ready
      by (simp add: accept_connects)
  qed (use Cons(2) in simp)
qed

lemma quiet_server_exit:
  assumes "timer v = Some True"
  shows "\<exists>w. server_exit cd quiet_exit True True v = ret (RET_OK, w)"
proof -
  have "fst (exit_release cd quiet_exit RET_OK u) = RET_OK" for u
    by (simp add: exit_release_def quiet_exit_def fails_def Let_def)
  then have "\<exists>w. exit_release cd quiet_exit RET_OK u = (RET_OK, w)" for u
    by (metis prod.collapse)
  then show ?thesis using assms by (simp add: server_exit_def exit_timer_def quiet_exit_def Let_def ret_def)
qed

section \<open>Properties of the program\<close>


definition sample_env :: main_env where
  "sample_env = \<lparr>posixly_correct = False, fork_ret = 0, init_results = all_succeed,
     select_results = [Interrupt SIGALRM, Ready \<lparr>malloc_info = True, accept_ret = 4, fopen_device = True, fdopen_input = True,
       dup_ret = 5, fdopen_output = True, create_client = 0\<rparr>, Interrupt SIG_STOP],
     cleanup_joins = True, clock_joins = True, exit_results = quiet_exit\<rparr>"

lemma sample_starts: "starts_server [''aesdsocket'', ''-d''] sample_env"
  by (simp add: starts_server_def parse_reads_options options_of_def options_of_word_def is_operand_def short_option_def
      short_options_def sample_env_def)






text \<open>C23. The options are read from left to right: the words up to \<^verbatim>\<open>--\<close> give a list of options, one per letter of a word of short
  options and one per long option; \<^verbatim>\<open>main\<close> asks for help if the first option other than \<^verbatim>\<open>d\<close> is \<^verbatim>\<open>h\<close>, fails if it is another,
  and runs as a demon if there was a \<^verbatim>\<open>d\<close> before.\<close>

theorem options_read_in_order:
  "parse_cmd_line_args posix ([], args) False =
     (let opts = options_of posix args; is_d = (\<lambda>c. c = of_char (CHR ''d'')) in
      (case dropWhile is_d opts of [] \<Rightarrow> 0 | c # _ \<Rightarrow> if c = of_char (CHR ''h'') then -1 else 1, takeWhile is_d opts \<noteq> []))"
proof -
  have "read_options opts b = (let is_d = (\<lambda>c. c = of_char (CHR ''d'')) in
      (case dropWhile is_d opts of [] \<Rightarrow> 0 | c # _ \<Rightarrow> if c = of_char (CHR ''h'') then -1 else 1, b \<or> takeWhile is_d opts \<noteq> []))" for opts b
    by (induction opts arbitrary: b) (auto simp: Let_def)
  then show ?thesis by (simp add: parse_reads_options Let_def)
qed



text \<open>The handler of SIGINT and SIGTERM is installed before \<^verbatim>\<open>server_init\<close> and stays until the process ends.  Before the semaphore of
  the clock exists, and after \<^verbatim>\<open>server_exit\<close> has freed it, the handler posts a null pointer.\<close>

lemma stop_signal_outside_lifetime:
  assumes "server_exit cd e cj kj v = ret (r, w)"
  shows "server_stop (server_zero_data at_start) = Inl Null_deref" and "server_stop w = Inl Null_deref"
proof -
  show "server_stop (server_zero_data at_start) = Inl Null_deref"
    by (simp add: server_stop_def server_zero_data_def at_start_def)
  from assms obtain r1 v1 where "exit_release cd e r1 (if cleanup_thread_initialized v then post_finished v1 else v1) = (r, w)"
    by (rule server_exit_parts)
  then have "clock_sem w = None" by (auto simp: exit_release_def Let_def split: if_splits)
  then show "server_stop w = Inl Null_deref" by (simp add: server_stop_def)
qed

end
