(* ===== verification/Helper_Threads.thy ===== *)
theory Helper_Threads
  imports Server_Main
begin

text \<open>
  The clock thread and the clean-up thread of \<^verbatim>\<open>server/server_impl.c\<close> as loops over what they wake up to: what the clock
  leaves in the output file, and what the clean-up would do with a list of threads.  Then the client threads that
  \<^verbatim>\<open>server_run\<close> starts without one of their streams.
\<close>

section \<open>The clock thread\<close>

text \<open>What \<^verbatim>\<open>sem_wait\<close> returns to: it failed, or the stop flag and the buffer \<^verbatim>\<open>strftime\<close> filled (\<open>None\<close> if \<^verbatim>\<open>localtime\<close>
  failed).  If the list ends, the thread waits.\<close>

datatype wake = Wait_fails | Woken bool "string option"

fun clock_thread :: "bool \<Rightarrow> 'b fd_ops \<Rightarrow> wake list \<Rightarrow> 'b shared \<Rightarrow> (ret_t \<times> 'b shared) run" where
  "clock_thread char_device ops [] sh = None"
| "clock_thread char_device ops (Wait_fails # ws) sh = ret (RET_ERR, sh)"
| "clock_thread char_device ops (Woken stop stamp # ws) sh =
     (if stop then ret (RET_OK, sh)
      else if char_device then clock_thread char_device ops ws sh
      else case stamp of
          None \<Rightarrow> ret (RET_ERR, sh)
        | Some buf \<Rightarrow> run_bind (clock_write ops buf sh) (\<lambda>(r, sh).
            if r = RET_ERR then ret (RET_ERR, sh) else clock_thread char_device ops ws sh))"

definition clock_thread_wrapper :: "bool \<Rightarrow> 'b fd_ops \<Rightarrow> wake list \<Rightarrow> 'b shared \<Rightarrow> (ret_t \<times> 'b shared) run" where
  "clock_thread_wrapper char_device ops ws arg = clock_thread char_device ops ws arg"

section \<open>The clean-up thread\<close>

text \<open>The list of threads in order, and for each return of \<^verbatim>\<open>sem_wait\<close> (\<open>None\<close>: it failed) the threads whose flag
  \<^verbatim>\<open>thread_finished\<close> is set then.  The last finished thread of the list is joined, removed and freed; without one
  the thread ends.  The result: the status, the list, and the threads that were joined and freed.\<close>

definition last_finished :: "nat list \<Rightarrow> nat list \<Rightarrow> nat option" where
  "last_finished finished ts = fold (\<lambda>i r. if i \<in> set finished then Some i else r) ts None"

fun cleanup_thread :: "nat list option list \<Rightarrow> nat list \<Rightarrow> (ret_t \<times> nat list \<times> nat list) option" where
  "cleanup_thread [] ts = None"
| "cleanup_thread (None # ws) ts = Some (RET_ERR, ts, [])"
| "cleanup_thread (Some finished # ws) ts =
     (case last_finished finished ts of
        None \<Rightarrow> Some (RET_OK, ts, [])
      | Some i \<Rightarrow> map_option (\<lambda>(r, l, freed). (r, l, i # freed)) (cleanup_thread ws (remove1 i ts)))"

definition cleanup_thread_wrapper :: "nat list option list \<Rightarrow> nat list \<Rightarrow> (ret_t \<times> nat list \<times> nat list) option" where
  "cleanup_thread_wrapper ws ts = cleanup_thread ws ts"

lemma last_finished_snoc:
  "last_finished fin (l @ [i]) = (if i \<in> set fin then Some i else last_finished fin l)"
  by (simp add: last_finished_def)

lemma last_finished_eq:
  "last_finished fin l = (case filter (\<lambda>i. i \<in> set fin) l of [] \<Rightarrow> None | is \<Rightarrow> Some (last is))"
proof (induction l rule: rev_induct)
  case Nil
  then show ?case by (simp add: last_finished_def)
next
  case (snoc i l)
  then show ?case by (cases "filter (\<lambda>i. i \<in> set fin) l") (auto simp: last_finished_snoc split: list.splits)
qed

text \<open>It is the search of the step relation.\<close>

lemma finished_in_list_eq:
  "finished_in_list s = last_finished (filter (\<lambda>i. i < length (clients s) \<and> clients s ! i = Client_done) (thread_list (srv s)))
     (thread_list (srv s))"
proof -
  have "fold (\<lambda>i r. if P i then Some i else r) l x = fold (\<lambda>i r. if i \<in> set (filter P ls) then Some i else r) l x"
    if "set l \<subseteq> set ls" for P :: "nat \<Rightarrow> bool" and l ls and x :: "nat option"
    using that by (induction l arbitrary: x) auto
  then show ?thesis by (simp add: finished_in_list_def last_finished_def)
qed

section \<open>Properties of the threads\<close>

text \<open>The clock thread over the regular file appends its time stamps in order until it is stopped, whatever the number of
  ticks.\<close>

theorem clock_thread_appends_stamps:
  assumes "between_clients reg_ready sh" and "list_all (\<lambda>w. cstr w \<noteq> [] \<and> length (cstr w) < BUFFER_SIZE) stamps"
    and "length (file_text sh) + length (concat (map cstr stamps)) \<le> limit (file_fd (output_file sh))"
  shows "\<exists>sh'. clock_thread False reg_ops (map (\<lambda>w. Woken False (Some w)) stamps @ Woken True x # ws) sh = ret (RET_OK, sh')
    \<and> between_clients reg_ready sh' \<and> file_text sh' = file_text sh @ concat (map cstr stamps)"
  using assms
proof (induction stamps arbitrary: sh)
  case (Cons w stamps)
  obtain sh1 where s1: "clock_write reg_ops w sh = ret (RET_OK, sh1)" "between_clients reg_ready sh1"
    "file_text sh1 = file_text sh @ cstr w" "limit (file_fd (output_file sh1)) = limit (file_fd (output_file sh))"
    using tick_appends_timestamp [OF Cons.prems(1), of w] Cons.prems(2,3) by auto
  then show ?case using Cons.IH [of sh1] Cons.prems by auto
qed auto

text \<open>The clean-up thread, if its list were filled, would join and free every finished thread exactly once: woken once per thread
  and once more, with all of them finished, it empties a list of any length and ends.\<close>

theorem cleanup_thread_joins_each_once:
  assumes "distinct l" and "set l \<subseteq> set fin"
  shows "cleanup_thread (replicate (length l) (Some fin) @ Some fin # ws) l = Some (RET_OK, [], rev l)"
  using assms
proof (induction l rule: rev_induct)
  case Nil
  then show ?case by (simp add: last_finished_def)
next
  case (snoc i l)
  then have "remove1 i (l @ [i]) = l" by (simp add: remove1_append)
  then show ?case using snoc by (simp add: last_finished_snoc)
qed

section \<open>Client threads with a null stream\<close>

text \<open>\<^verbatim>\<open>server_run\<close> does not test the results of \<^verbatim>\<open>fdopen\<close> and \<^verbatim>\<open>dup\<close>.  What \<^verbatim>\<open>client_thread\<close> does without an output stream: the
  line is received and stored, and the first \<^verbatim>\<open>fwrite\<close> to the socket, or at the latest \<^verbatim>\<open>fclose\<close>, gets a null pointer.\<close>

definition client_without_output ::
  "('i \<Rightarrow> nat \<Rightarrow> (string option \<times> 'i) run) \<Rightarrow> 'b fd_ops \<Rightarrow> int \<Rightarrow> 'i FILE \<Rightarrow> 'b shared \<Rightarrow> (ret_t \<times> 'b shared) run"
where
  "client_without_output rd ops input_close si sh =
     (if output_file_mutex sh then None
      else run_bind (receive_loop rd ops si (output_file sh)) (\<lambda>(r, si, fo).
        run_bind (if r = Failed then ret fo
                  else run_bind (if r \<noteq> Got_seek then rewind ops fo
                                 else run_bind (fseek ops 0 SEEK_CUR fo) (\<lambda>(_, f). ret f)) (\<lambda>fo.
                    run_bind (fgets (sys_read ops) BUFFER_SIZE fo) (\<lambda>(buf, fo).
                      case buf of None \<Rightarrow> ret fo | Some _ \<Rightarrow> Some (Inl Null_deref)))) (\<lambda>fo.
          run_bind (fclose no_write input_close si) (\<lambda>_. Some (Inl Null_deref)))))"

text \<open>The thread \<^verbatim>\<open>server_run\<close> has started; \<open>ins\<close> and \<open>outs\<close> are the descriptors by their numbers.\<close>

definition started_client_thread ::
  "('i \<Rightarrow> nat \<Rightarrow> (string option \<times> 'i) run) \<Rightarrow> ('s \<Rightarrow> string \<Rightarrow> (nat option \<times> 's) run) \<Rightarrow> 'b fd_ops \<Rightarrow> int \<times> int
    \<Rightarrow> (int \<Rightarrow> 'i) \<Rightarrow> (int \<Rightarrow> 's) \<Rightarrow> started_thread \<Rightarrow> 'b shared \<Rightarrow> (ret_t \<times> 'b shared) run"
where
  "started_client_thread rd wr ops close_rets ins outs th sh =
     (case input_fd th of
        None \<Rightarrow> if output_file_mutex sh then None else Some (Inl Null_deref)
      | Some i \<Rightarrow>
          (case output_fd th of
             None \<Rightarrow> client_without_output rd ops (fst close_rets) (fdopen (ins i)) sh
           | Some out \<Rightarrow> run_bind (client_thread rd wr ops close_rets (new_thread_info (ins i) (outs out)) sh) (\<lambda>(r, _, sh). ret (r, sh))))"

context line_server
begin

lemma no_output_faults:
  assumes "source_ok good_in pending_in broken_in si" and "wbuf si = []" and "at_rest (output_file sh)"
    and "line w" "plain w" "avail pending_in si = w @ rest" and "room (frame (file_fd (output_file sh))) (length w + n)"
    and "\<not> output_file_mutex sh"
  shows "client_without_output rd_in ops input_close si sh = Some (Inl Null_deref)"
proof -
  obtain si' f1 where a: "receive_loop rd_in ops si (output_file sh) = ret (Got_line, si', f1)" "inp.same si si'" "at_rest f1"
    using receive_line [OF assms(1,3,4,5,6,7)] by blast
  obtain f2 where b: "rewind ops f1 = ret f2" "source_ok good pending broken f2" using rewind_store [OF a(3)] by auto
  obtain buf f3 where "fgets (sys_read ops) (Suc 255) f2 = ret (buf, f3)" by (rule fgets_reads [OF b(2), of 255]) simp
  then show ?thesis
    using a(1,2) b(1) assms(2,8) by (cases buf) (simp_all add: client_without_output_def BUFFER_SIZE_Suc fclose_def)
qed

end

lemma null_output_over_file:
  assumes "between_clients reg_ready sh" and "sends (i, out) w"
    and "length (file_text sh) + length w \<le> limit (file_fd (output_file sh))"
  shows "client_without_output sock_read reg_ops input_close (fdopen i) sh = Some (Inl Null_deref)"
proof -
  have "freg.at_rest (output_file sh)" "\<not> output_file_mutex sh"
    using assms(1) by (simp_all add: between_clients_def freg.at_rest_def reg_ready_def reg_good_def)
  moreover have "reg_room (reg_frame (file_fd (output_file sh))) (length w + 0)"
    using assms(3) by (simp add: reg_room_def reg_frame_def)
  ultimately show ?thesis
    using freg.no_output_faults [of "fdopen i" sh w "[]" 0] source_of_fdopen [of i] assms(2) by (simp add: sends_def)
qed

lemma null_output_over_device:
  assumes "between_clients (dev_good K) sh" and "sends (i, out) w" and "length (snd (stored sh)) + length w \<le> kmalloc_max K"
  shows "client_without_output sock_read (dev_ops K) input_close (fdopen i) sh = Some (Inl Null_deref)"
proof -
  have "dev.at_rest K (output_file sh)" "\<not> output_file_mutex sh"
    using assms(1) by (simp_all add: between_clients_def dev.at_rest_def)
  moreover have "dev_room K (stored sh) (length w + 0)" using assms(3) by (simp add: dev_room_def)
  ultimately show ?thesis
    using dev.no_output_faults [of "fdopen i" K sh w "[]" 0] source_of_fdopen [of i] assms(2) by (simp add: sends_def)
qed

text \<open>A connection for which \<^verbatim>\<open>fdopen\<close> or \<^verbatim>\<open>dup\<close> fails, say because the process has no descriptors left: its thread, once it has
  the mutex and over either kind of output file, ends in the use of a null pointer, and with it the server.\<close>

theorem null_stream_faults:
  fixes sh :: "reg_file shared" and dsh :: "dev_fd shared"
  assumes "\<not> fdopen_input e \<or> dup_ret e = -1 \<or> \<not> fdopen_output e" and "sends (ins (accept_ret e), out) w"
    and "between_clients reg_ready sh" "length (file_text sh) + length w \<le> limit (file_fd (output_file sh))"
    and "between_clients (dev_good K) dsh" "length (snd (stored dsh)) + length w \<le> kmalloc_max K"
  shows "started_client_thread sock_read sock_write reg_ops close_rets ins outs (thread_info_of e) sh = Some (Inl Null_deref)"
    and "started_client_thread sock_read sock_write (dev_ops K) close_rets ins outs (thread_info_of e) dsh = Some (Inl Null_deref)"
  using assms null_output_over_file [OF assms(3,2,4)] null_output_over_device [OF assms(5,2,6)]
  by (auto simp: started_client_thread_def thread_info_of_def between_clients_def)

end
