(* ===== verification/Stop_Signals.thy ===== *)
theory Stop_Signals
  imports Server_Main
begin

text \<open>
  SIGINT and SIGTERM at every point of \<^verbatim>\<open>server_init\<close> and of the last part of \<^verbatim>\<open>server_exit\<close>.  \<^verbatim>\<open>main\<close> installs the handler
  before it calls \<^verbatim>\<open>server_init\<close> and never removes it.  Here the two functions are lists of calls, shown equal to the
  functions of \<open>Server_Lifecycle\<close>, and the handler runs as one more call anywhere between them.
\<close>

section \<open>Straight-line programs\<close>

text \<open>A call goes on or returns from the function.\<close>

type_synonym 's call = "'s \<Rightarrow> fault + ret_t option \<times> 's"

fun exec :: "'s call list \<Rightarrow> 's \<Rightarrow> fault + ret_t option \<times> 's" where
  "exec [] s = Inr (None, s)"
| "exec (a # as) s = bind_fault (a s) (\<lambda>(r, s). case r of None \<Rightarrow> exec as s | Some r \<Rightarrow> Inr (Some r, s))"

lemma exec_append:
  "exec (as @ bs) s = bind_fault (exec as s) (\<lambda>(r, s). case r of None \<Rightarrow> exec bs s | Some r \<Rightarrow> Inr (Some r, s))"
proof (induction as arbitrary: s)
  case (Cons a as)
  show ?case
  proof (cases "a s")
    case (Inr x)
    then show ?thesis using Cons by (cases x; cases "fst x") auto
  qed simp
qed simp

text \<open>A call that does not look at what an update \<open>f\<close> of the state changes.\<close>

definition commutes :: "('s \<Rightarrow> 's) \<Rightarrow> 's call \<Rightarrow> bool" where
  "commutes f a \<longleftrightarrow> (\<forall>s. a (f s) = bind_fault (a s) (\<lambda>(r, s). Inr (r, f s)))"

lemma exec_commutes:
  assumes "list_all (commutes f) as"
  shows "exec as (f s) = bind_fault (exec as s) (\<lambda>(r, s). Inr (r, f s))"
  using assms
proof (induction as arbitrary: s)
  case (Cons a as)
  then have a: "a (f s) = bind_fault (a s) (\<lambda>(r, s). Inr (r, f s))" by (simp add: commutes_def)
  show ?case
  proof (cases "a s")
    case (Inr x)
    then show ?thesis using Cons a by (cases x; cases "fst x") auto
  qed (use a in simp)
qed simp

section \<open>The calls of server-init\<close>

text \<open>The globals, and whether \<^verbatim>\<open>clock_sem\<close> points to memory that \<^verbatim>\<open>sem_init\<close> has not filled in yet.\<close>

record starting =
  globals :: server
  clock_sem_raw :: bool

definition on_globals :: "(server \<Rightarrow> fault + ret_t option \<times> server) \<Rightarrow> starting call" where
  "on_globals a s = bind_fault (a (globals s)) (\<lambda>(r, v). Inr (r, s\<lparr>globals := v\<rparr>))"

definition sem_init_finished :: "init_env \<Rightarrow> starting call" where
  "sem_init_finished e = on_globals (\<lambda>s.
     if \<not> malloc_signal e then Inl Null_deref
     else if sem_init_signal e \<noteq> 0 then Inr (Some RET_ERR, s\<lparr>finished_signal := None\<rparr>)
     else Inr (None, s\<lparr>finished_signal := Some 0, held := insert R_signal (held s)\<rparr>))"

definition malloc_clock :: "init_env \<Rightarrow> starting call" where
  "malloc_clock e s = Inr (None, s\<lparr>clock_sem_raw := malloc_clock_sem e\<rparr>)"

definition sem_init_clock_sem :: "init_env \<Rightarrow> starting call" where
  "sem_init_clock_sem e s =
     (if \<not> clock_sem_raw s then Inl Null_deref
      else let s = s\<lparr>clock_sem_raw := False\<rparr>; v = globals s in
      if sem_init_clock e \<noteq> 0 then Inr (Some RET_ERR, s\<lparr>globals := v\<lparr>clock_sem := None\<rparr>\<rparr>)
      else Inr (None, s\<lparr>globals := v\<lparr>clock_sem := Some 0, held := insert R_clock_sem (held v)\<rparr>\<rparr>))"

definition open_output :: "init_env \<Rightarrow> starting call" where
  "open_output e = on_globals (\<lambda>s.
     if \<not> fopen_ok e then Inr (Some RET_ERR, s\<lparr>output_open := False\<rparr>)
     else Inr (None, s\<lparr>output_open := True, held := {R_file, R_path} \<union> held s\<rparr>))"

definition create_cleanup_thread :: "init_env \<Rightarrow> starting call" where
  "create_cleanup_thread e = on_globals (\<lambda>s.
     if create_cleanup e \<noteq> 0 then Inr (Some RET_ERR, s) else Inr (None, s\<lparr>cleanup_thread_initialized := True\<rparr>))"

definition create_clock_thread :: "init_env \<Rightarrow> starting call" where
  "create_clock_thread e = on_globals (\<lambda>s.
     if create_clock e \<noteq> 0 then Inr (Some RET_ERR, s) else Inr (None, s\<lparr>clock_thread_initialized := True\<rparr>))"

definition create_socket :: "init_env \<Rightarrow> starting call" where
  "create_socket e = on_globals (\<lambda>s.
     if socket_ret e = -1 then Inr (Some RET_ERR, s\<lparr>socket_fd := -1\<rparr>)
     else Inr (None, s\<lparr>socket_fd := socket_ret e, held := insert R_socket (held s)\<rparr>))"

definition bind_socket :: "init_env \<Rightarrow> starting call" where
  "bind_socket e = on_globals (\<lambda>s. Inr (if bind_ret e \<noteq> 0 then Some RET_ERR else None, s))"

definition listen_socket :: "init_env \<Rightarrow> starting call" where
  "listen_socket e = on_globals (\<lambda>s. Inr (if listen_ret e = -1 then Some RET_ERR else None, s))"

definition create_timer :: "init_env \<Rightarrow> starting call" where
  "create_timer e = on_globals (\<lambda>s.
     if \<not> malloc_timer e then Inl Null_deref
     else if timer_create_ret e \<noteq> 0 then Inr (Some RET_ERR, s\<lparr>timer := Some False\<rparr>)
     else Inr (None, s\<lparr>timer := Some True, held := insert R_timer (held s)\<rparr>))"

definition arm_timer :: "init_env \<Rightarrow> starting call" where
  "arm_timer e = on_globals (\<lambda>s.
     if timer_settime_ret e \<noteq> 0 then Inr (Some RET_ERR, s) else Inr (None, s\<lparr>timer_armed := True\<rparr>))"

definition later_calls :: "bool \<Rightarrow> init_env \<Rightarrow> starting call list" where
  "later_calls char_device e =
     (if char_device then [] else [open_output e])
     @ [create_cleanup_thread e, create_clock_thread e, create_socket e, bind_socket e, listen_socket e, create_timer e, arm_timer e]"

definition init_calls :: "bool \<Rightarrow> init_env \<Rightarrow> starting call list" where
  "init_calls char_device e = [sem_init_finished e, malloc_clock e, sem_init_clock_sem e] @ later_calls char_device e"

lemmas call_defs = on_globals_def sem_init_finished_def malloc_clock_def sem_init_clock_sem_def open_output_def
  create_cleanup_thread_def create_clock_thread_def create_socket_def bind_socket_def listen_socket_def create_timer_def arm_timer_def

text \<open>Together they are \<^verbatim>\<open>server_init\<close>, which returns \<^verbatim>\<open>RET_OK\<close> at its end.\<close>

lemma exec_init_calls:
  "exec (init_calls cd e) \<lparr>globals = s, clock_sem_raw = False\<rparr> =
     bind_fault (server_init cd e s) (\<lambda>(r, v). Inr (if r = RET_OK then None else Some r, \<lparr>globals = v, clock_sem_raw = False\<rparr>))"
  by (simp add: init_calls_def later_calls_def call_defs server_init_def init_threads_def init_socket_def Let_def insert_commute)

text \<open>The handler as a call.\<close>

definition stop_handler :: "starting call" where
  "stop_handler s = (if clock_sem_raw s then Inl Uninitialised else on_globals (\<lambda>v. bind_fault (server_stop v) (\<lambda>v. Inr (None, v))) s)"

definition stopped :: "starting \<Rightarrow> starting" where
  "stopped s = s\<lparr>globals := (globals s)\<lparr>should_stop := True, clock_sem := map_option Suc (clock_sem (globals s))\<rparr>\<rparr>"

lemma later_calls_commute: "list_all (commutes stopped) (later_calls cd e)"
  by (auto simp: later_calls_def commutes_def call_defs stopped_def split: if_splits)

lemma exec_keeps:
  assumes "list_all (\<lambda>a. \<forall>s r s'. a s = Inr (r, s') \<longrightarrow> Q s' = Q s) as" and "exec as s = Inr (r, s')"
  shows "Q s' = Q s"
  using assms
proof (induction as arbitrary: s)
  case (Cons a as)
  then obtain r1 s1 where a: "a s = Inr (r1, s1)" by (auto simp: bind_fault_eq_Inr)
  then show ?case using Cons by (cases r1) auto
qed simp

lemma later_calls_keep:
  "list_all (\<lambda>a. \<forall>s r s'. a s = Inr (r, s') \<longrightarrow> (clock_sem (globals s'), clock_sem_raw s') = (clock_sem (globals s), clock_sem_raw s))
     (later_calls cd e)"
  by (auto simp: later_calls_def call_defs bind_fault_eq_Inr split: if_splits)

lemma stop_handler_ready:
  "clock_sem (globals s) = Some n \<Longrightarrow> \<not> clock_sem_raw s \<Longrightarrow> stop_handler s = Inr (None, stopped s)"
  by (simp add: stop_handler_def on_globals_def server_stop_def stopped_def)

text \<open>A call \<open>h\<close> that acts as \<open>f\<close> can run between any two calls that commute with \<open>f\<close> and keep what \<open>h\<close> looks at.\<close>

lemma list_all_take: "list_all P l \<Longrightarrow> list_all P (take j l)"
  by (auto simp: list_all_iff dest: in_set_takeD)

lemma list_all_drop: "list_all P l \<Longrightarrow> list_all P (drop j l)"
  by (auto simp: list_all_iff dest: in_set_dropD)

lemma exec_insert:
  assumes c: "list_all (commutes f) l" and k: "list_all (\<lambda>a. \<forall>s r s'. a s = Inr (r, s') \<longrightarrow> Q s' = Q s) l"
    and h: "\<And>s'. Q s' = Q s \<Longrightarrow> h s' = Inr (None, f s')" and "exec l s = Inr (None, s')"
  shows "exec (take j l @ h # drop j l) s = Inr (None, f s')"
proof -
  have "bind_fault (exec (take j l) s) (\<lambda>(r, s). case r of None \<Rightarrow> exec (drop j l) s | Some r \<Rightarrow> Inr (Some r, s)) = Inr (None, s')"
    using assms(4) exec_append [of "take j l" "drop j l" s] by simp
  then obtain s1 where s1: "exec (take j l) s = Inr (None, s1)" "exec (drop j l) s1 = Inr (None, s')"
    by (auto simp: bind_fault_eq_Inr split: option.splits)
  have kt: "list_all (\<lambda>a. \<forall>s r s'. a s = Inr (r, s') \<longrightarrow> Q s' = Q s) (take j l)"
    by (rule list_all_take [OF k])
  have "list_all (commutes f) (drop j l)" by (rule list_all_drop [OF c])
  then have "exec (drop j l) (f s1) = Inr (None, f s')" using exec_commutes s1(2) by fastforce
  then show ?thesis using s1 h exec_keeps [OF kt s1(1)] by (simp add: exec_append)
qed

lemma first_calls:
  assumes "server_init cd e s = Inr (RET_OK, v)"
  shows "malloc_signal e" and "sem_init_signal e = 0" and "malloc_clock_sem e" and "sem_init_clock e = 0"
  using assms by (simp_all add: server_init_def init_threads_def Let_def split: if_splits)

lemma server_run_readies:
  assumes "list_all connects es"
  shows "server_run cd s (map Ready es @ rs) = server_run cd
    (fold (\<lambda>e s. s\<lparr>data := open_on_accept cd (data s), threads := threads s @ [thread_info_of e], blocks := blocks s + 1,
       fds := fds s @ opened e\<rparr>) es s) rs"
  using assms by (induction es arbitrary: s) (simp_all add: accept_connects)

lemma server_run_until_tick:
  assumes es: "list_all connects es" and "should_stop (data s)"
  shows "\<exists>st. server_run cd s (map Ready es @ Interrupt SIGALRM # rs) = ret (RET_OK, st)
      \<and> threads st = threads s @ map thread_info_of es"
    and "server_run cd s (map Ready es) = None"
proof -
  let ?f = "\<lambda>e s. s\<lparr>data := open_on_accept cd (data s), threads := threads s @ [thread_info_of e], blocks := blocks s + 1,
       fds := fds s @ opened e\<rparr>"
  have f: "should_stop (data (fold ?f es s)) = should_stop (data s) \<and> threads (fold ?f es s) = threads s @ map thread_info_of es" for s
    by (induction es arbitrary: s) auto
  have "should_stop (timer_callback v) = should_stop v" for v by (simp add: timer_callback_def split: option.splits)
  then show "\<exists>st. server_run cd s (map Ready es @ Interrupt SIGALRM # rs) = ret (RET_OK, st)
      \<and> threads st = threads s @ map thread_info_of es"
    using f [of s] assms(2) by (simp add: server_run_readies [OF es] Let_def)
  show "server_run cd s (map Ready es) = None" using server_run_readies [OF es, of cd s "[]"] by simp
qed

section \<open>The last part of server-exit\<close>

text \<open>The result so far, the globals, and whether \<^verbatim>\<open>clock_sem\<close> points to a destroyed semaphore.\<close>

record ending =
  result :: ret_t
  remaining :: server
  clock_sem_destroyed :: bool

definition releasing :: "(server \<Rightarrow> bool \<times> server) \<Rightarrow> ending call" where
  "releasing a s = (case a (remaining s) of (failed, v) \<Rightarrow> Inr (None, s\<lparr>result := fails failed (result s), remaining := v\<rparr>))"

definition early_releases :: "exit_env \<Rightarrow> ending call list" where
  "early_releases e =
     [releasing (\<lambda>s. if socket_fd s \<noteq> -1 then (close_ret e = -1, s\<lparr>held := held s - {R_socket}\<rparr>) else (False, s)),
      releasing (\<lambda>s. if output_open s then (fclose_ret e \<noteq> 0, s\<lparr>held := held s - {R_file}\<rparr>) else (False, s)),
      releasing (\<lambda>s. (mutex_destroy_ret e \<noteq> 0, s\<lparr>held := held s - {R_mutex}\<rparr>)),
      releasing (\<lambda>s. if finished_signal s \<noteq> None
        then (sem_destroy_signal e \<noteq> 0, s\<lparr>finished_signal := None, held := held s - {R_signal}\<rparr>) else (False, s))]"

definition destroy_clock_sem :: "exit_env \<Rightarrow> ending call" where
  "destroy_clock_sem e s = Inr (None, if clock_sem (remaining s) = None then s
     else s\<lparr>result := fails (sem_destroy_clock e \<noteq> 0) (result s), clock_sem_destroyed := True\<rparr>)"

definition free_clock_sem :: "ending call" where
  "free_clock_sem s = Inr (None, if clock_sem (remaining s) = None then s
     else s\<lparr>remaining := (remaining s)\<lparr>clock_sem := None, held := held (remaining s) - {R_clock_sem}\<rparr>, clock_sem_destroyed := False\<rparr>)"

definition late_releases :: "bool \<Rightarrow> exit_env \<Rightarrow> ending call list" where
  "late_releases char_device e = releasing (\<lambda>s. (False, s\<lparr>thread_list := []\<rparr>))
     # (if char_device then [] else [releasing (\<lambda>s. (unlink_ret e \<noteq> 0, s\<lparr>held := held s - {R_path}\<rparr>))])"

definition release_calls :: "bool \<Rightarrow> exit_env \<Rightarrow> ending call list" where
  "release_calls char_device e = early_releases e @ [destroy_clock_sem e, free_clock_sem] @ late_releases char_device e"

lemmas release_defs = early_releases_def destroy_clock_sem_def free_clock_sem_def late_releases_def releasing_def

lemma fails_False [simp]: "fails False r = r"
  by (simp add: fails_def)

lemma exec_release_calls:
  "exec (release_calls cd e) \<lparr>result = r, remaining = s, clock_sem_destroyed = False\<rparr> =
     (case exit_release cd e r s of (r, v) \<Rightarrow> Inr (None, \<lparr>result = r, remaining = v, clock_sem_destroyed = False\<rparr>))"
  by (cases "socket_fd s = -1"; cases "output_open s"; cases "finished_signal s"; cases "clock_sem s"; cases cd)
    (simp_all add: release_calls_def release_defs exit_release_def Let_def)

text \<open>The handler, and what it does as long as the semaphore is there.\<close>

definition late_handler :: "ending call" where
  "late_handler s = (if clock_sem_destroyed s then Inl Dangling
     else bind_fault (server_stop (remaining s)) (\<lambda>v. Inr (None, s\<lparr>remaining := v\<rparr>)))"

definition flagged :: "ending \<Rightarrow> ending" where
  "flagged s = s\<lparr>remaining := (remaining s)\<lparr>should_stop := True\<rparr>\<rparr>"

definition posted :: "ending \<Rightarrow> ending" where
  "posted s = s\<lparr>remaining := (remaining s)\<lparr>should_stop := True, clock_sem := map_option Suc (clock_sem (remaining s))\<rparr>\<rparr>"

lemma releases_commute:
  "list_all (commutes posted) (early_releases e)" "list_all (commutes flagged) (late_releases cd e)"
  by (auto simp: commutes_def release_defs posted_def flagged_def)

lemma early_releases_keep:
  "list_all (\<lambda>a. \<forall>s r s'. a s = Inr (r, s') \<longrightarrow> (clock_sem (remaining s'), clock_sem_destroyed s')
     = (clock_sem (remaining s), clock_sem_destroyed s)) (early_releases e)"
  by (auto simp: release_defs split: if_splits)

lemma handler_posts:
  "clock_sem (remaining s) = Some n \<Longrightarrow> \<not> clock_sem_destroyed s \<Longrightarrow> late_handler s = Inr (None, posted s)"
  by (simp add: late_handler_def server_stop_def posted_def)

lemma early_releases_end: "\<exists>s'. exec (early_releases e) s = Inr (None, s')
    \<and> clock_sem (remaining s') = clock_sem (remaining s) \<and> clock_sem_destroyed s' = clock_sem_destroyed s"
  by (simp add: release_defs)

lemma releases_after_post:
  assumes "clock_sem (remaining s) = Some n" and "\<not> clock_sem_destroyed s"
  shows "exec ([destroy_clock_sem e, free_clock_sem] @ late_releases cd e) (posted s)
    = bind_fault (exec ([destroy_clock_sem e, free_clock_sem] @ late_releases cd e) s) (\<lambda>(r, s). Inr (r, flagged s))"
proof -
  have "exec [destroy_clock_sem e, free_clock_sem] (posted s) = Inr (None, flagged s1)"
    "exec [destroy_clock_sem e, free_clock_sem] s = Inr (None, s1)"
    if "s1 = s\<lparr>result := fails (sem_destroy_clock e \<noteq> 0) (result s),
      remaining := (remaining s)\<lparr>clock_sem := None, held := held (remaining s) - {R_clock_sem}\<rparr>\<rparr>" for s1
    using assms that by (simp_all add: destroy_clock_sem_def free_clock_sem_def posted_def flagged_def)
  then show ?thesis using exec_commutes [OF releases_commute(2)] by (simp only: exec_append) simp
qed

text \<open>A stop signal in this part: before the semaphore is destroyed only the flag is set and all is released as without it;
  between the destruction and the assignment of the null pointer the handler uses a destroyed semaphore, and
  afterwards a null pointer.\<close>

theorem stop_signal_during_release:
  fixes r :: ret_t and s :: server
  assumes n: "clock_sem s = Some n"
  defines "s0 \<equiv> \<lparr>result = r, remaining = s, clock_sem_destroyed = False\<rparr>"
  shows "exec (take j (early_releases e) @ late_handler # drop j (early_releases e)
      @ [destroy_clock_sem e, free_clock_sem] @ late_releases cd e) s0
    = (case exit_release cd e r s of (r, v) \<Rightarrow> Inr (None, \<lparr>result = r, remaining = v\<lparr>should_stop := True\<rparr>, clock_sem_destroyed = False\<rparr>))"
    and "exec (early_releases e @ destroy_clock_sem e # late_handler # rest) s0 = Inl Dangling"
    and "exec (early_releases e @ [destroy_clock_sem e, free_clock_sem] @ take j (late_releases cd e) @ late_handler # rest) s0 = Inl Null_deref"
proof -
  obtain s1 where s1: "exec (early_releases e) s0 = Inr (None, s1)" "clock_sem (remaining s1) = Some n" "\<not> clock_sem_destroyed s1"
    using early_releases_end [of e s0] n by (auto simp: s0_def)
  have h: "late_handler s' = Inr (None, posted s')" if "(clock_sem (remaining s'), clock_sem_destroyed s') = (clock_sem (remaining s0), clock_sem_destroyed s0)" for s'
    using that n handler_posts by (simp add: s0_def)
  let ?early = "take j (early_releases e) @ late_handler # drop j (early_releases e)"
  let ?rest = "[destroy_clock_sem e, free_clock_sem] @ late_releases cd e"
  obtain r' v where x: "exit_release cd e r s = (r', v)" by fastforce
  have "exec (early_releases e @ ?rest) s0 = Inr (None, \<lparr>result = r', remaining = v, clock_sem_destroyed = False\<rparr>)"
    using exec_release_calls [of cd e r s] x by (simp only: release_calls_def s0_def prod.case)
  then have "exec ?rest s1 = Inr (None, \<lparr>result = r', remaining = v, clock_sem_destroyed = False\<rparr>)"
    by (simp only: exec_append [of "early_releases e"] s1(1) bind_fault_simps prod.case option.case)
  then have "exec ?rest (posted s1) = Inr (None, flagged \<lparr>result = r', remaining = v, clock_sem_destroyed = False\<rparr>)"
    by (simp only: releases_after_post [OF s1(2,3)] bind_fault_simps prod.case)
  moreover have "exec ?early s0 = Inr (None, posted s1)"
    using exec_insert [OF releases_commute(1) early_releases_keep h s1(1)] by simp
  ultimately have "exec (?early @ ?rest) s0 = Inr (None, flagged \<lparr>result = r', remaining = v, clock_sem_destroyed = False\<rparr>)"
    by (simp only: exec_append [of ?early] bind_fault_simps prod.case option.case)
  then show "exec (take j (early_releases e) @ late_handler # drop j (early_releases e)
      @ [destroy_clock_sem e, free_clock_sem] @ late_releases cd e) s0
    = (case exit_release cd e r s of (r, v) \<Rightarrow> Inr (None, \<lparr>result = r, remaining = v\<lparr>should_stop := True\<rparr>, clock_sem_destroyed = False\<rparr>))"
    by (simp add: x flagged_def)
  show "exec (early_releases e @ destroy_clock_sem e # late_handler # rest) s0 = Inl Dangling"
    using s1 by (simp add: exec_append destroy_clock_sem_def late_handler_def)
  let ?s2 = "s1\<lparr>result := fails (sem_destroy_clock e \<noteq> 0) (result s1), remaining := (remaining s1)\<lparr>clock_sem := None,
    held := held (remaining s1) - {R_clock_sem}\<rparr>, clock_sem_destroyed := False\<rparr>"
  have "\<exists>s'. exec (take j (late_releases cd e)) ?s2 = Inr (None, s') \<and> clock_sem (remaining s') = None \<and> \<not> clock_sem_destroyed s'"
    by (cases j; cases "j - 1") (auto simp: late_releases_def releasing_def)
  then obtain s' where s': "exec (take j (late_releases cd e)) ?s2 = Inr (None, s')" "late_handler s' = Inl Null_deref"
    by (auto simp: late_handler_def server_stop_def)
  then show "exec (early_releases e @ [destroy_clock_sem e, free_clock_sem] @ take j (late_releases cd e) @ late_handler # rest) s0 = Inl Null_deref"
    using s1 by (simp add: exec_append destroy_clock_sem_def free_clock_sem_def)
qed

theorem stop_signal_during_release_witness:
  "exec (early_releases quiet_exit @ destroy_clock_sem quiet_exit # late_handler # [])
     \<lparr>result = RET_OK, remaining = at_start\<lparr>clock_sem := Some 0\<rparr>, clock_sem_destroyed = False\<rparr> = Inl Dangling"
  by (rule stop_signal_during_release(2)) simp

section \<open>Property of the start\<close>

lemma stop_before_semaphore:
  assumes "server_init cd e (server_zero_data at_start) = Inr (RET_OK, v)" and "k < 3"
  shows "exec (take k (init_calls cd e) @ stop_handler # rest) \<lparr>globals = server_zero_data at_start, clock_sem_raw = False\<rparr>
    = Inl (if k = 2 then Uninitialised else Null_deref)"
proof -
  have "k = 0 \<or> k = 1 \<or> k = 2" using assms(2) by linarith
  then show ?thesis
    by (elim disjE) (simp_all add: init_calls_def call_defs stop_handler_def server_stop_def server_zero_data_def at_start_def
        first_calls [OF assms(1)])
qed

lemma stop_after_semaphore:
  assumes i: "server_init cd e (server_zero_data at_start) = Inr (RET_OK, v)"
  shows "exec ([sem_init_finished e, malloc_clock e, sem_init_clock_sem e]
      @ take j (later_calls cd e) @ stop_handler # drop j (later_calls cd e)) \<lparr>globals = server_zero_data at_start, clock_sem_raw = False\<rparr>
    = Inr (None, \<lparr>globals = v\<lparr>should_stop := True, clock_sem := Some 1\<rparr>, clock_sem_raw = False\<rparr>)"
proof -
  let ?s0 = "\<lparr>globals = server_zero_data at_start, clock_sem_raw = False\<rparr>"
  let ?f = "[sem_init_finished e, malloc_clock e, sem_init_clock_sem e]"
  have "\<exists>s1. exec ?f ?s0 = Inr (None, s1) \<and> clock_sem (globals s1) = Some 0 \<and> \<not> clock_sem_raw s1"
    using first_calls [OF i] by (simp add: call_defs)
  then obtain s1 where s1: "exec ?f ?s0 = Inr (None, s1)" "clock_sem (globals s1) = Some 0" "\<not> clock_sem_raw s1" by blast
  have "exec (?f @ later_calls cd e) ?s0 = Inr (None, \<lparr>globals = v, clock_sem_raw = False\<rparr>)"
    using exec_init_calls [of cd e "server_zero_data at_start"] i by (simp only: init_calls_def bind_fault_simps prod.case) simp
  then have l: "exec (later_calls cd e) s1 = Inr (None, \<lparr>globals = v, clock_sem_raw = False\<rparr>)"
    by (simp only: exec_append [of ?f] s1(1) bind_fault_simps prod.case option.case)
  have h: "stop_handler s' = Inr (None, stopped s')" if "(clock_sem (globals s'), clock_sem_raw s') = (clock_sem (globals s1), clock_sem_raw s1)" for s'
    using that s1(2,3) stop_handler_ready by simp
  have "clock_sem v = Some 0" using init_ok [OF i] by simp
  then show ?thesis
    using exec_insert [OF later_calls_commute later_calls_keep h l]
    by (simp only: exec_append [of ?f] s1(1) bind_fault_simps prod.case option.case) (simp add: stopped_def)
qed

text \<open>C38. A stop signal at any point of a start that would succeed: before the clock's semaphore is initialised - the handler is
  already installed - it ends in a use of a null pointer or of uninitialised memory.  From then on it is not lost: whichever
  two calls of \<^verbatim>\<open>server_init\<close> it falls between, the start completes as without it, with the stop flag set and the clock
  woken once; \<^verbatim>\<open>server_run\<close> goes on to serve connections and returns \<^verbatim>\<open>RET_OK\<close> at the first timer signal, not before.\<close>

theorem stop_signal_during_start:
  assumes i: "server_init cd e (server_zero_data at_start) = Inr (RET_OK, v)" and "k \<le> length (init_calls cd e)"
    and es: "list_all connects es"
  defines "w \<equiv> v\<lparr>should_stop := True, clock_sem := Some 1\<rparr>"
  shows "exec (take k (init_calls cd e) @ stop_handler # drop k (init_calls cd e)) \<lparr>globals = server_zero_data at_start, clock_sem_raw = False\<rparr>
      = (if k < 2 then Inl Null_deref else if k = 2 then Inl Uninitialised else Inr (None, \<lparr>globals = w, clock_sem_raw = False\<rparr>))
    \<and> (\<exists>st. server_run cd (initial_run w) (map Ready es @ Interrupt SIGALRM # rs) = ret (RET_OK, st) \<and> threads st = map thread_info_of es)
    \<and> server_run cd (initial_run w) (map Ready es) = None"
proof -
  have "exec (take k (init_calls cd e) @ stop_handler # drop k (init_calls cd e)) \<lparr>globals = server_zero_data at_start, clock_sem_raw = False\<rparr>
      = (if k < 2 then Inl Null_deref else if k = 2 then Inl Uninitialised else Inr (None, \<lparr>globals = w, clock_sem_raw = False\<rparr>))"
  proof (cases "k < 3")
    case True
    then show ?thesis unfolding stop_before_semaphore [OF i True] by simp
  next
    case False
    then obtain j where k: "k = Suc (Suc (Suc j))" by (metis less_Suc_eq not0_implies_Suc numeral_3_eq_3 zero_less_Suc)
    then show ?thesis using stop_after_semaphore [OF i, of j] unfolding w_def by (simp only: init_calls_def take_Suc_Cons drop_Suc_Cons append_Cons append_Nil) simp
  qed
  moreover have "should_stop (data (initial_run w))" "threads (initial_run w) = []" by (simp_all add: w_def initial_run_def)
  ultimately show ?thesis using server_run_until_tick [OF es, of "initial_run w" cd] by simp
qed

theorem stop_signal_during_start_witness:
  "exec (take 2 (init_calls True all_succeed) @ stop_handler # drop 2 (init_calls True all_succeed))
     \<lparr>globals = server_zero_data at_start, clock_sem_raw = False\<rparr> = Inl Uninitialised"
proof -
  obtain v where v: "server_init True all_succeed (server_zero_data at_start) = Inr (RET_OK, v)" by (rule all_succeed_init)
  show ?thesis using stop_signal_during_start [OF v, of 2 "[]"] by (simp add: init_calls_def)
qed

end
