(* ===== verification/System_Calls.thy ===== *)
theory System_Calls
  imports C_Strings
begin

text \<open>
  \<^verbatim>\<open>examples/systemcalls/systemcalls.c\<close>: \<^verbatim>\<open>do_system\<close>, \<^verbatim>\<open>do_exec\<close> and \<^verbatim>\<open>do_exec_redirect\<close>.  The kernel's answers (the
  results of \<^verbatim>\<open>system\<close>, \<^verbatim>\<open>fork\<close>, \<^verbatim>\<open>waitpid\<close>, \<^verbatim>\<open>execv\<close>, \<^verbatim>\<open>open\<close> and \<^verbatim>\<open>close\<close>) are arguments; a function returns either to
  its caller, in the parent, or ends the process in the child, or becomes another program.  The status
  macros of \<^verbatim>\<open>sys/wait.h\<close> are those of the C library on Linux.
\<close>

section \<open>Wait statuses\<close>

type_synonym status = "32 word"

definition WEXITSTATUS :: "status \<Rightarrow> status" where
  "WEXITSTATUS s = Bit_Operations.and (drop_bit 8 s) 0xff"

definition WTERMSIG :: "status \<Rightarrow> status" where
  "WTERMSIG s = Bit_Operations.and s 0x7f"

definition WIFEXITED :: "status \<Rightarrow> bool" where
  "WIFEXITED s \<longleftrightarrow> WTERMSIG s = 0"

definition WIFSTOPPED :: "status \<Rightarrow> bool" where
  "WIFSTOPPED s \<longleftrightarrow> Bit_Operations.and s 0xff = 0x7f"

text \<open>\<^verbatim>\<open>((signed char) ((status & 0x7f) + 1) >> 1) > 0\<close>\<close>

definition WIFSIGNALED :: "status \<Rightarrow> bool" where
  "WIFSIGNALED s \<longleftrightarrow> 0 < sint (signed_drop_bit 1 (ucast (WTERMSIG s + 1) :: 8 word))"

text \<open>How a child process can change its state, and the status that reports it.\<close>

datatype child_event = Exited nat | Signaled nat bool | Stopped nat | Continued

fun encode_status :: "child_event \<Rightarrow> status" where
  "encode_status (Exited code) = push_bit 8 (of_nat (code mod 256))"
| "encode_status (Signaled sig core) = of_nat (sig mod 128) + (if core then 0x80 else 0)"
| "encode_status (Stopped sig) = push_bit 8 (of_nat (sig mod 256)) + 0x7f"
| "encode_status Continued = 0xffff"

section \<open>The functions\<close>

text \<open>\<^verbatim>\<open>system\<close> returns -1 or a status.\<close>

definition do_system :: "status \<Rightarrow> bool" where
  "do_system r =
     (if r = -1 then False
      else if WIFEXITED r then (if WEXITSTATUS r \<noteq> 0 then False else True)
      else False)"

text \<open>Where control is after a call: back in the caller, ended with an exit code, or in the program that
  \<^verbatim>\<open>execv\<close> loaded, with its standard output.\<close>

datatype outcome = Returns bool | Exits int | Runs "string list" "int option"

text \<open>The command is the \<^verbatim>\<open>count\<close> variadic arguments; a negative count, or reading more arguments than were passed,
  is undefined.\<close>

definition collect_args :: "int \<Rightarrow> string list \<Rightarrow> fault + string list" where
  "collect_args count va =
     (if 0 \<le> count \<and> nat count \<le> length va then Inr (take (nat count) va) else Inl Out_of_bounds)"

text \<open>The body of the loop around \<^verbatim>\<open>waitpid\<close>: the value it returns, if it does.\<close>

definition exec_wait_body :: "status \<Rightarrow> bool option" where
  "exec_wait_body st =
     (if WIFEXITED st then (if WEXITSTATUS st \<noteq> 0 then Some False else None)
      else if WIFSIGNALED st then Some False
      else if WIFSTOPPED st then Some False
      else Some False)"

definition redirect_wait_body :: "status \<Rightarrow> bool option" where
  "redirect_wait_body st =
     (if WIFEXITED st then (if WEXITSTATUS st \<noteq> 0 then Some False else Some True)
      else if WIFSIGNALED st then Some False
      else if WIFSTOPPED st then Some False
      else Some False)"

text \<open>The loop over the answers of \<^verbatim>\<open>waitpid\<close>; \<open>None\<close> is a wait that is never answered.\<close>

fun wait_loop :: "(status \<Rightarrow> bool option) \<Rightarrow> (int \<times> status) list \<Rightarrow> bool option" where
  "wait_loop body [] = None"
| "wait_loop body ((wait_ret, st) # answers) =
     (if wait_ret = -1 then Some False
      else case body st of
        Some r \<Rightarrow> Some r
      | None \<Rightarrow> if \<not> WIFEXITED st \<and> \<not> WIFSIGNALED st then wait_loop body answers else Some True)"

text \<open>\<open>exec_ret\<close> is the result of \<^verbatim>\<open>execv\<close>, or \<open>None\<close> when it does not return.\<close>

definition do_exec ::
  "int \<Rightarrow> string list \<Rightarrow> int \<Rightarrow> (int \<times> status) list \<Rightarrow> int option \<Rightarrow> fault + outcome option"
where
  "do_exec count va fork_ret answers exec_ret =
     bind_fault (collect_args count va) (\<lambda>command.
       if fork_ret = -1 then Inr (Some (Returns False))
       else if fork_ret \<noteq> 0 then Inr (map_option Returns (wait_loop exec_wait_body answers))
       else case exec_ret of
              None \<Rightarrow> Inr (Some (Runs command None))
            | Some r \<Rightarrow> if r = -1 then Inr (Some (Exits 1)) else Inr (Some (Returns True)))"

text \<open>The mode for \<^verbatim>\<open>open\<close>, as the code writes it.\<close>

definition open_mode :: nat where "open_mode = 0x660"

definition do_exec_redirect ::
  "(nat \<Rightarrow> int) \<Rightarrow> int \<Rightarrow> string list \<Rightarrow> int \<Rightarrow> (int \<times> status) list \<Rightarrow> int option \<Rightarrow> int \<Rightarrow> fault + outcome option"
where
  "do_exec_redirect open_out count va fork_ret answers exec_ret close_ret =
     bind_fault (collect_args count va) (\<lambda>command.
       if fork_ret = -1 then Inr (Some (Returns False))
       else if fork_ret \<noteq> 0 then Inr (map_option Returns (wait_loop redirect_wait_body answers))
       else
         let output_fd = open_out open_mode in
         if output_fd = -1 then Inr (Some (Exits 1))
         else case exec_ret of
                None \<Rightarrow> Inr (Some (Runs command (Some output_fd)))
              | Some r \<Rightarrow> Inr (Some (Exits (if close_ret = -1 then 1 else if r = -1 then 1 else 0))))"

section \<open>Lemmas\<close>

lemma and_ff: "Bit_Operations.and (x :: 32 word) 0xff = take_bit 8 x"
  by (simp add: take_bit_eq_mask mask_eq_exp_minus_1)

lemma and_7f: "Bit_Operations.and (x :: 32 word) 0x7f = take_bit 7 x"
  by (simp add: take_bit_eq_mask mask_eq_exp_minus_1)

lemma low_bits_of_nat: "n < 2 ^ 32 \<Longrightarrow> take_bit k (of_nat n :: 32 word) = of_nat (n mod 2 ^ k)"
  by (simp add: take_bit_of_nat take_bit_eq_mod flip: take_bit_eq_mod)

text \<open>How the macros read the status of an event.\<close>

fun plausible :: "child_event \<Rightarrow> bool" where
  "plausible (Signaled sig core) = (0 < sig mod 128 \<and> sig mod 128 < 127)"
| "plausible _ = True"

fun succeeded :: "child_event \<Rightarrow> bool" where
  "succeeded (Exited code) = (code mod 256 = 0)"
| "succeeded _ = False"

lemma exited_status:
  "WIFEXITED (encode_status (Exited code))"
  "WEXITSTATUS (encode_status (Exited code)) = of_nat (code mod 256)"
proof -
  have b: "push_bit 8 (of_nat (code mod 256) :: 32 word) = of_nat (code mod 256 * 256)"
    by (simp add: push_bit_eq_mult)
  have s: "code mod 256 * 256 < 2 ^ 32" by (rule le_less_trans [of _ "255 * 256"]) simp_all
  show "WIFEXITED (encode_status (Exited code))"
    unfolding WIFEXITED_def WTERMSIG_def and_7f encode_status.simps b low_bits_of_nat [OF s] by simp
  have "drop_bit 8 (push_bit 8 (of_nat (code mod 256) :: 32 word)) = of_nat (code mod 256)"
    unfolding b word_unat_eq_iff unsigned_drop_bit_eq
    by (simp add: unat_of_nat_small [OF s [THEN less_le_trans]] unat_of_nat_small drop_bit_eq_div take_bit_nat_eq_self
        del: of_nat_mult)
  then show "WEXITSTATUS (encode_status (Exited code)) = of_nat (code mod 256)"
    by (simp add: WEXITSTATUS_def and_ff low_bits_of_nat)
qed

lemma low_of_sum:
  assumes "n + m < 2 ^ 32" and "m mod 128 = 0"
  shows "WTERMSIG (of_nat n + of_nat m) = of_nat (n mod 128)"
proof -
  have "(n + m) mod 128 = n mod 128" using assms(2) by (metis add.right_neutral mod_add_right_eq)
  then show ?thesis
    using low_bits_of_nat [OF assms(1), of 7] by (simp add: WTERMSIG_def and_7f)
qed

lemma not_exited_status:
  assumes "plausible e" and "\<And>c. e \<noteq> Exited c"
  shows "\<not> WIFEXITED (encode_status e)"
proof (cases e)
  case (Signaled sig core)
  have "sig mod 128 < 128" by simp
  then have "encode_status e = of_nat (sig mod 128) + of_nat (if core then 128 else 0)"
    "sig mod 128 + (if core then 128 else 0) < 2 ^ 32"
    using Signaled by auto
  then have "WTERMSIG (encode_status e) = of_nat (sig mod 128)"
    using low_of_sum [of "sig mod 128" "if core then 128 else 0"] by auto
  moreover have "(of_nat (sig mod 128) :: 32 word) \<noteq> 0"
    using assms(1) Signaled unat_of_nat_small [of "sig mod 128", where 'a = 32] by (auto simp: word_unat_eq_iff)
  ultimately show ?thesis by (simp add: WIFEXITED_def)
next
  case (Stopped sig)
  have "sig mod 256 * 256 < 255 * 256 + 1" by simp
  then have s: "127 + sig mod 256 * 256 < 2 ^ 32" by simp
  have "encode_status e = of_nat 127 + of_nat (sig mod 256 * 256)"
    using Stopped by (simp add: push_bit_eq_mult add.commute)
  then have "WTERMSIG (encode_status e) = of_nat (127 mod 128)"
    using low_of_sum [OF s] by (simp add: mod_mult_left_eq)
  then show ?thesis by (simp add: WIFEXITED_def)
next
  case Continued
  then show ?thesis by (simp add: WIFEXITED_def WTERMSIG_def)
qed (use assms(2) in blast)

section \<open>Properties\<close>

lemma wait_answered:
  assumes "plausible e"
  shows "wait_loop exec_wait_body ((w, encode_status e) # answers) = Some (w \<noteq> -1 \<and> succeeded e)"
proof (cases e)
  case (Exited c)
  have "(of_nat (c mod 256) :: 32 word) = 0 \<longleftrightarrow> c mod 256 = 0"
    using unat_of_nat_small [of "c mod 256", where 'a = 32]
    by (auto simp: word_unat_eq_iff intro: le_less_trans [of _ "c mod 256" 256])
  then show ?thesis using Exited exited_status [of c] by (simp add: exec_wait_body_def del: encode_status.simps)
qed (use not_exited_status [OF assms] in \<open>simp_all add: exec_wait_body_def\<close>)

lemma wait_loops_agree: "wait_loop exec_wait_body answers = wait_loop redirect_wait_body answers"
  by (induction answers) (auto simp: exec_wait_body_def redirect_wait_body_def)

text \<open>\<^verbatim>\<open>do_system\<close> is true exactly when the shell ended by itself with exit code zero: not when \<^verbatim>\<open>system\<close> failed,
  nor when the command was killed, stopped or continued.\<close>

theorem do_system_true_iff_exit_zero:
  assumes "plausible e"
  shows "do_system (encode_status e) = succeeded e \<and> \<not> do_system (-1)"
proof -
  have "encode_status e \<noteq> -1 \<or> \<not> succeeded e"
  proof (cases e)
    case (Exited c)
    have "\<not> WIFEXITED (-1)" by (simp add: WIFEXITED_def WTERMSIG_def)
    then show ?thesis using exited_status(1) [of c] Exited by metis
  qed simp_all
  moreover have "wait_loop exec_wait_body [(0, encode_status e)] = Some (succeeded e)"
    using wait_answered [OF assms, of 0 "[]"] by simp
  ultimately show ?thesis
    by (auto simp: do_system_def exec_wait_body_def split: if_splits)
qed

theorem do_system_true_iff_exit_zero_witness:
  "do_system (encode_status (Exited 0)) \<and> \<not> do_system (encode_status (Exited 3))
   \<and> \<not> do_system (encode_status (Signaled 9 False))"
  using do_system_true_iff_exit_zero [of "Exited 0"] do_system_true_iff_exit_zero [of "Exited 3"]
    do_system_true_iff_exit_zero [of "Signaled 9 False"] by simp

text \<open>In the parent, \<^verbatim>\<open>do_exec\<close> returns after one answer of \<^verbatim>\<open>waitpid\<close>, true exactly when the wait succeeded and
  the child exited with code zero; a failed \<^verbatim>\<open>fork\<close> is false.\<close>

theorem do_exec_reports_child:
  assumes "0 \<le> count" and "nat count \<le> length va" and "pid \<noteq> 0" and "pid \<noteq> -1" and "plausible e"
  shows "do_exec count va pid ((w, encode_status e) # answers) x = Inr (Some (Returns (w \<noteq> -1 \<and> succeeded e)))
    \<and> do_exec count va (-1) answers x = Inr (Some (Returns False))"
  using assms by (simp add: do_exec_def collect_args_def wait_answered del: wait_loop.simps)

theorem do_exec_reports_child_witness:
  "do_exec 1 [''/bin/true''] 7 [(7, encode_status (Exited 0))] None = Inr (Some (Returns True))
   \<and> do_exec 1 [''/bin/false''] 7 [(7, encode_status (Exited 1))] None = Inr (Some (Returns False))"
  using do_exec_reports_child [of 1 "[''/bin/true'']" 7 "Exited 0" 7 "[]" None]
    do_exec_reports_child [of 1 "[''/bin/false'']" 7 "Exited 1" 7 "[]" None] by simp

text \<open>C34. The two loops around \<^verbatim>\<open>waitpid\<close> are written differently but are equivalent: in the parent \<^verbatim>\<open>do_exec\<close> and
  \<^verbatim>\<open>do_exec_redirect\<close> return the same for all answers, whatever file is redirected to.\<close>

theorem exec_functions_agree_in_parent:
  assumes "fork_ret \<noteq> 0"
  shows "do_exec count va fork_ret answers x = do_exec_redirect open_out count va fork_ret answers y z"
  using assms
  by (cases "collect_args count va") (simp_all add: do_exec_def do_exec_redirect_def wait_loops_agree)

theorem exec_functions_agree_in_parent_witness:
  "do_exec 1 [''/bin/true''] 7 [(7, 0xffff)] None
     = do_exec_redirect (\<lambda>m. 3) 1 [''/bin/true''] 7 [(7, 0xffff)] (Some (-1)) 0"
  by (rule exec_functions_agree_in_parent) simp

text \<open>The child of \<^verbatim>\<open>do_exec_redirect\<close> never returns into the caller's code: it runs the command with all its
  arguments and its output in the opened file, or exits with code one when the file cannot be opened or the
  command not run.  The file is created with the literal mode \<^verbatim>\<open>0x660\<close>, which gives its owner the right to execute
  it and neither to read nor to write it.\<close>

theorem redirect_child_runs_or_exits:
  assumes "0 \<le> count" and "nat count \<le> length va" and "exec_ret = None \<or> exec_ret = Some (-1)"
  shows "do_exec_redirect open_out count va 0 answers exec_ret close_ret = Inr (Some (
      if open_out open_mode \<noteq> -1 \<and> exec_ret = None
      then Runs (take (nat count) va) (Some (open_out open_mode)) else Exits 1))
    \<and> open_mode div 64 mod 8 = 1 \<and> open_mode div 8 mod 8 = 4 \<and> open_mode mod 8 = 0"
  using assms by (auto simp: do_exec_redirect_def collect_args_def open_mode_def Let_def)

theorem redirect_child_runs_or_exits_witness:
  "do_exec_redirect (\<lambda>m. 5) 2 [''/bin/echo'', ''hi''] 0 [] None 0 = Inr (Some (Runs [''/bin/echo'', ''hi''] (Some 5)))"
  using redirect_child_runs_or_exits [of 2 "[''/bin/echo'', ''hi'']" None "\<lambda>m. 5" "[]" 0] by simp

end
