(* ===== verification/Threading.thy ===== *)
theory Threading
  imports C_Strings
begin

text \<open>
  \<^verbatim>\<open>examples/threading/threading.c\<close>: a thread that sleeps, takes a mutex, sleeps and releases it.  \<open>threadfunc\<close> is
  the function of the thread over the results of the calls it makes, with the calls recorded; \<open>tstep\<close> is
  the interleaving of any number of such threads over one mutex, one step per call.  The milliseconds are
  32-bit integers, whose product with 1000 is undefined when it overflows.
\<close>

section \<open>One thread\<close>

record thread_data =
  wait_to_obtain_ms :: "32 word"
  wait_to_release_ms :: "32 word"
  thread_complete_success :: bool

datatype tcall = Sleep "32 word" | Lock | Unlock

text \<open>The results of the four calls.\<close>

record tenv =
  usleep1 :: int
  lock_ret :: int
  usleep2 :: int
  unlock_ret :: int

definition ms_to_us :: "32 word \<Rightarrow> fault + 32 word" where
  "ms_to_us ms = (if - (2 ^ 31) \<le> sint ms * 1000 \<and> sint ms * 1000 < 2 ^ 31 then Inr (ms * 1000) else Inl Overflow)"

definition threadfunc :: "tenv \<Rightarrow> thread_data \<Rightarrow> fault + thread_data \<times> tcall list" where
  "threadfunc e td =
     (let td = td\<lparr>thread_complete_success := True\<rparr> in
      bind_fault (ms_to_us (wait_to_obtain_ms td)) (\<lambda>us1.
        if usleep1 e \<noteq> 0 then Inr (td\<lparr>thread_complete_success := False\<rparr>, [Sleep us1])
        else if lock_ret e \<noteq> 0 then Inr (td\<lparr>thread_complete_success := False\<rparr>, [Sleep us1, Lock])
        else
          bind_fault (ms_to_us (wait_to_release_ms td)) (\<lambda>us2.
            let td = (if usleep2 e \<noteq> 0 then td\<lparr>thread_complete_success := False\<rparr> else td) in
            if unlock_ret e \<noteq> 0 then Inr (td\<lparr>thread_complete_success := False\<rparr>, [Sleep us1, Lock, Sleep us2, Unlock])
            else Inr (td, [Sleep us1, Lock, Sleep us2, Unlock]))))"

text \<open>\<^verbatim>\<open>start_thread_obtaining_mutex\<close>: the result, the thread's data if the allocation succeeded, and whether the
  thread runs (and so owns the data).  \<^verbatim>\<open>thread_complete_success\<close> is not set before the thread sets it.\<close>

definition start_thread_obtaining_mutex ::
  "thread_data option \<Rightarrow> int \<Rightarrow> 32 word \<Rightarrow> 32 word \<Rightarrow> bool \<times> thread_data option \<times> bool"
where
  "start_thread_obtaining_mutex malloc_ret create_ret obtain_ms release_ms =
     (case malloc_ret of
        None \<Rightarrow> (False, None, False)
      | Some td \<Rightarrow>
          let td = td\<lparr>wait_to_obtain_ms := obtain_ms, wait_to_release_ms := release_ms\<rparr> in
          if create_ret \<noteq> 0 then (False, Some td, False) else (True, Some td, True))"

section \<open>Many threads\<close>

datatype tpc = Sleeping | Wants_lock | Holding | Wants_unlock | Ended bool

text \<open>The threads and the owner of the mutex.  The flag records a failed second sleep.\<close>

record threads =
  pcs :: "(tpc \<times> bool) list"
  owner :: "nat option"

inductive tstep :: "threads \<Rightarrow> threads \<Rightarrow> bool" where
  wakes: "i < length (pcs s) \<Longrightarrow> pcs s ! i = (Sleeping, ok) \<Longrightarrow> tstep s (s\<lparr>pcs := (pcs s)[i := (Wants_lock, ok)]\<rparr>)"
| sleep_fails: "i < length (pcs s) \<Longrightarrow> pcs s ! i = (Sleeping, ok) \<Longrightarrow>
    tstep s (s\<lparr>pcs := (pcs s)[i := (Ended False, ok)]\<rparr>)"
| locks: "i < length (pcs s) \<Longrightarrow> pcs s ! i = (Wants_lock, ok) \<Longrightarrow> owner s = None \<Longrightarrow>
    tstep s (s\<lparr>pcs := (pcs s)[i := (Holding, ok)], owner := Some i\<rparr>)"
| lock_fails: "i < length (pcs s) \<Longrightarrow> pcs s ! i = (Wants_lock, ok) \<Longrightarrow>
    tstep s (s\<lparr>pcs := (pcs s)[i := (Ended False, ok)]\<rparr>)"
| rests: "i < length (pcs s) \<Longrightarrow> pcs s ! i = (Holding, ok) \<Longrightarrow>
    tstep s (s\<lparr>pcs := (pcs s)[i := (Wants_unlock, ok)]\<rparr>)"
| rest_fails: "i < length (pcs s) \<Longrightarrow> pcs s ! i = (Holding, ok) \<Longrightarrow>
    tstep s (s\<lparr>pcs := (pcs s)[i := (Wants_unlock, False)]\<rparr>)"
| unlocks: "i < length (pcs s) \<Longrightarrow> pcs s ! i = (Wants_unlock, ok) \<Longrightarrow>
    tstep s (s\<lparr>pcs := (pcs s)[i := (Ended ok, ok)], owner := None\<rparr>)"

inductive treach :: "nat \<Rightarrow> threads \<Rightarrow> bool" for n where
  begin_all: "treach n \<lparr>pcs = replicate n (Sleeping, True), owner = None\<rparr>"
| goes_on: "treach n s \<Longrightarrow> tstep s s' \<Longrightarrow> treach n s'"

definition holds_lock :: "tpc \<Rightarrow> bool" where
  "holds_lock p \<longleftrightarrow> p = Holding \<or> p = Wants_unlock"

definition lock_inv :: "threads \<Rightarrow> bool" where
  "lock_inv s \<longleftrightarrow> (\<forall>i < length (pcs s). holds_lock (fst (pcs s ! i)) \<longleftrightarrow> owner s = Some i)
     \<and> (\<forall>i. owner s = Some i \<longrightarrow> i < length (pcs s))"

lemma tstep_lock_inv: "tstep s s' \<Longrightarrow> lock_inv s \<Longrightarrow> lock_inv s' \<and> length (pcs s') = length (pcs s)"
proof (induction rule: tstep.induct)
  case (unlocks i s ok)
  then have "owner s = Some i" unfolding lock_inv_def holds_lock_def by (metis fst_conv)
  then show ?case using unlocks by (auto simp: lock_inv_def nth_list_update holds_lock_def)
qed (auto simp: lock_inv_def nth_list_update holds_lock_def)

lemma treach_lock_inv: "treach n s \<Longrightarrow> lock_inv s \<and> length (pcs s) = n"
proof (induction rule: treach.induct)
  case begin_all
  then show ?case by (simp add: lock_inv_def holds_lock_def)
next
  case (goes_on s s')
  then show ?case using tstep_lock_inv by simp
qed

fun tpc_work :: "tpc \<Rightarrow> nat" where
  "tpc_work Sleeping = 4"
| "tpc_work Wants_lock = 3"
| "tpc_work Holding = 2"
| "tpc_work Wants_unlock = 1"
| "tpc_work (Ended b) = 0"

definition twork :: "threads \<Rightarrow> nat" where
  "twork s = sum_list (map (\<lambda>p. tpc_work (fst p)) (pcs s))"

lemma tstep_twork: "tstep s s' \<Longrightarrow> twork s' < twork s"
  by (induction rule: tstep.induct) (simp_all add: twork_def sum_list_map_update_less)

lemma tstep_progress:
  assumes inv: "lock_inv s" and i: "i < length (pcs s)" "\<forall>b. fst (pcs s ! i) \<noteq> Ended b"
  shows "\<exists>s'. tstep s s'"
proof (cases "fst (pcs s ! i)")
  case Sleeping
  then show ?thesis using wakes [OF i(1)] by (metis prod.collapse)
next
  case Wants_lock
  show ?thesis
  proof (cases "owner s")
    case None
    then show ?thesis using locks [OF i(1)] Wants_lock by (metis prod.collapse)
  next
    case (Some j)
    then have j: "j < length (pcs s)" "holds_lock (fst (pcs s ! j))" using inv by (auto simp: lock_inv_def)
    then show ?thesis using rests [OF j(1)] unlocks [OF j(1)] by (metis holds_lock_def prod.collapse)
  qed
next
  case Holding
  then show ?thesis using rests [OF i(1)] by (metis prod.collapse)
next
  case Wants_unlock
  then show ?thesis using unlocks [OF i(1)] by (metis prod.collapse)
next
  case (Ended b)
  then show ?thesis using i(2) by blast
qed

definition all_ended :: "threads \<Rightarrow> bool" where
  "all_ended s \<longleftrightarrow> (\<forall>i < length (pcs s). \<exists>b. fst (pcs s ! i) = Ended b) \<and> owner s = None"

lemma ended_frees_mutex:
  assumes inv: "lock_inv s" and e: "\<forall>i < length (pcs s). \<exists>b. fst (pcs s ! i) = Ended b"
  shows "owner s = None"
proof (rule ccontr)
  assume "owner s \<noteq> None"
  then obtain j where "j < length (pcs s)" "holds_lock (fst (pcs s ! j))" using inv by (auto simp: lock_inv_def)
  then show False using e by (auto simp: holds_lock_def)
qed

interpretation thr: ending_system tstep lock_inv twork all_ended
proof
  show "\<exists>s'. tstep s s'" if "lock_inv s" "\<not> all_ended s" for s
    using that tstep_progress ended_frees_mutex unfolding all_ended_def by metis
qed (use tstep_lock_inv tstep_twork in blast)+

lemma twork_le: "twork s \<le> 4 * length (pcs s)"
proof -
  have "tpc_work p \<le> 4" for p by (cases p) auto
  then show ?thesis using sum_list_map_le [of "pcs s" "\<lambda>p. tpc_work (fst p)" 4] by (simp add: twork_def mult.commute)
qed

section \<open>Properties\<close>

text \<open>A thread that got the mutex releases it on every path, also when the sleep inside the critical section
  fails, and it never unlocks a mutex it did not get; it reports success exactly when none of its four calls
  failed.\<close>

theorem threadfunc_releases_mutex:
  assumes "threadfunc e td = Inr (td', calls)"
  shows "(Unlock \<in> set calls) = (usleep1 e = 0 \<and> lock_ret e = 0)
    \<and> (Lock \<in> set calls) = (usleep1 e = 0)
    \<and> thread_complete_success td' = (usleep1 e = 0 \<and> lock_ret e = 0 \<and> usleep2 e = 0 \<and> unlock_ret e = 0)
    \<and> wait_to_obtain_ms td' = wait_to_obtain_ms td \<and> wait_to_release_ms td' = wait_to_release_ms td"
  using assms by (cases td) (auto simp: threadfunc_def Let_def bind_fault_eq_Inr split: if_splits)

theorem threadfunc_releases_mutex_witness:
  "\<exists>td' calls. threadfunc \<lparr>usleep1 = 0, lock_ret = 0, usleep2 = -1, unlock_ret = 0\<rparr>
       \<lparr>wait_to_obtain_ms = 5, wait_to_release_ms = 7, thread_complete_success = False\<rparr> = Inr (td', calls)
     \<and> Unlock \<in> set calls \<and> \<not> thread_complete_success td'"
proof -
  let ?e = "\<lparr>usleep1 = 0, lock_ret = 0, usleep2 = -1, unlock_ret = 0 :: int\<rparr>"
  let ?td = "\<lparr>wait_to_obtain_ms = 5, wait_to_release_ms = 7, thread_complete_success = False\<rparr>"
  obtain td' calls where r: "threadfunc ?e ?td = Inr (td', calls)"
    by (simp add: threadfunc_def ms_to_us_def Let_def)
  then show ?thesis using threadfunc_releases_mutex [OF r] by auto
qed



text \<open>\<^verbatim>\<open>start_thread_obtaining_mutex\<close> is true exactly when the allocation and the creation of the thread
  succeed, and the thread then owns data with the given waits; when the creation fails, the data stays
  allocated without an owner.\<close>

theorem start_thread_result:
  "case start_thread_obtaining_mutex m c o_ms r_ms of (ok, data, runs) \<Rightarrow>
     ok = (m \<noteq> None \<and> c = 0) \<and> runs = ok \<and> (data \<noteq> None) = (m \<noteq> None)
     \<and> (\<forall>td. data = Some td \<longrightarrow> wait_to_obtain_ms td = o_ms \<and> wait_to_release_ms td = r_ms)"
  by (auto simp: start_thread_obtaining_mutex_def Let_def split: option.splits)

end
