(* ===== verification/Small_Programs.thy ===== *)
theory Small_Programs
  imports Client_Session
begin

text \<open>
  The writer utility \<^verbatim>\<open>finder-app/writer.c\<close>, over the buffered streams and the regular file of the server's
  model; the functions and the main program of \<^verbatim>\<open>examples/autotest-validate\<close>, and the unit test of the user name.
\<close>

section \<open>The writer\<close>

text \<open>The arguments with the program's name, the file that \<^verbatim>\<open>fopen\<close> with mode \<^verbatim>\<open>w+\<close> gives (emptied), the result of
  \<^verbatim>\<open>close\<close>.  The result: whether the exit status is \<^verbatim>\<open>EXIT_SUCCESS\<close>, the file, and whether the log was closed.\<close>

definition writer_main :: "string list \<Rightarrow> reg_file option \<Rightarrow> int \<Rightarrow> (bool \<times> reg_file option \<times> bool) run" where
  "writer_main argv fopen_ret close_ret =
     (if length argv \<noteq> 3 then ret (False, None, True)
      else
        let str = argv ! 2 in
        case fopen_ret of
          None \<Rightarrow> ret (False, None, False)
        | Some f \<Rightarrow>
            run_bind (fwrite reg_write (cstr str) (fdopen f)) (\<lambda>(_, fp).
              run_bind (fclose reg_write close_ret fp) (\<lambda>(r, fp).
                if r \<noteq> 0 then ret (False, Some (file_fd fp), False)
                else ret (True, Some (file_fd fp), True))))"

lemma write_all_file:
  assumes "bs \<noteq> []" and "offset f = length (contents f)" and "offset f + length bs \<le> limit f"
  shows "write_all reg_write f bs =
    ret (True, f\<lparr>contents := contents f @ bs, offset := offset f + length bs\<rparr>)"
proof -
  have "reg_write f bs = ret (Some (length bs), f\<lparr>contents := contents f @ bs, offset := offset f + length bs\<rparr>)"
    using assms by (simp add: reg_write_def Let_def)
  then show ?thesis using assms(1) by (subst write_all.simps) simp
qed

text \<open>The writer leaves exactly its string in the file, replacing what was there, and reports success, whenever
  the file can be opened and has room and the close succeeds; every other outcome of \<^verbatim>\<open>fopen\<close> or \<^verbatim>\<open>fclose\<close> and
  every other number of arguments is reported as failure.\<close>

lemma writer_stores_string:
  assumes "contents f = []" and "offset f = 0" and "length (cstr str) \<le> limit f"
  shows "writer_main [prog, name, str] (Some f) close_ret
      = ret (close_ret = 0, Some (f\<lparr>contents := cstr str, offset := length (cstr str)\<rparr>), close_ret = 0)"
proof (cases "cstr str = []")
  case True
  then have "f\<lparr>contents := cstr str, offset := length (cstr str)\<rparr> = f" using assms by simp
  then show ?thesis using True by (simp add: writer_main_def fwrite_def fclose_def)
next
  case ne: False
  have w: "write_all reg_write f (cstr str) = ret (True, f\<lparr>contents := cstr str, offset := length (cstr str)\<rparr>)"
    using write_all_file [OF ne] assms by simp
  show ?thesis
  proof (cases "length (cstr str) < BUFSIZ")
    case True
    then have "fwrite reg_write (cstr str) (fdopen f)
        = ret (length (cstr str), (fdopen f)\<lparr>wbuf := cstr str, dir := Writing\<rparr>)"
      using ne by (simp add: fwrite_def)
    then show ?thesis using w by (simp add: writer_main_def fclose_def)
  next
    case False
    then have "fwrite reg_write (cstr str) (fdopen f)
        = ret (length (cstr str), (fdopen f)\<lparr>file_fd := f\<lparr>contents := cstr str, offset := length (cstr str)\<rparr>,
            wbuf := [], err_seen := err_seen (fdopen f), dir := Writing\<rparr>)"
      using ne w by (simp add: fwrite_def)
    then show ?thesis by (simp add: writer_main_def fclose_def)
  qed
qed

section \<open>The validation functions\<close>

definition this_function_returns_true :: bool where "this_function_returns_true = True"

definition this_function_returns_false :: bool where "this_function_returns_false = False"

definition my_username :: string where "my_username = ''EsGeh''"

text \<open>The main program prints two lines and falls off its end, so its exit status is 0.\<close>

definition true_false :: "bool \<Rightarrow> string" where
  "true_false b = (if b then ''true'' else ''false'')"

definition autotest_main :: "int \<times> string" where
  "autotest_main =
     (0, ''this_function_returns_true returned '' @ true_false this_function_returns_true @ [newline]
        @ ''this_function_returns_false returned '' @ true_false this_function_returns_false @ [newline])"

text \<open>The unit test of the user name.  \<^verbatim>\<open>malloc_username_from_conf_file\<close> and the assertion of the framework are not in
  the repository: the first gives a block with a string or a null pointer, the second tells whether it holds for
  the two pointers; when it does not, it leaves the test by a jump.  The result: whether the test passed, and
  whether the block is still allocated.\<close>

definition test_validate_my_username :: "string option \<Rightarrow> (string option \<Rightarrow> string option \<Rightarrow> bool) \<Rightarrow> bool \<times> bool" where
  "test_validate_my_username malloc_username_from_conf_file assert_equal_string =
     (let username_from_config = malloc_username_from_conf_file;
          username = Some my_username
      in if \<not> assert_equal_string username_from_config username then (False, username_from_config \<noteq> None)
         else (True, False))"

text \<open>With an assertion that compares the strings, the test passes for the name in \<^verbatim>\<open>conf/username.txt\<close> and no
  other; the block leaks exactly when it fails.\<close>

lemma test_passes_iff:
  assumes "\<And>s t. assert_equal s t \<longleftrightarrow> s = t"
  shows "test_validate_my_username conf assert_equal = (conf = Some ''EsGeh'', conf \<noteq> Some ''EsGeh'' \<and> conf \<noteq> None)"
  using assms by (auto simp: test_validate_my_username_def my_username_def)

lemma autotest_prints:
  "autotest_main = (0, ''this_function_returns_true returned true'' @ [newline]
     @ ''this_function_returns_false returned false'' @ [newline])"
  by (simp add: autotest_main_def true_false_def this_function_returns_true_def this_function_returns_false_def)

section \<open>Properties\<close>



text \<open>The validation program and its unit test: the program prints that the first function returned true and the second
  false and exits with 0; with the assertion the framework documents, the test passes exactly for the configured name \<open>EsGeh\<close>,
  and the block of the configured name leaks exactly when the test fails.\<close>

theorem autotest_validates:
  assumes "\<And>s t. assert_equal s t \<longleftrightarrow> s = t"
  shows "fst autotest_main = 0
    \<and> snd autotest_main = ''this_function_returns_true returned true'' @ [newline] @ ''this_function_returns_false returned false'' @ [newline]
    \<and> (fst (test_validate_my_username conf assert_equal) \<longleftrightarrow> conf = Some ''EsGeh'')
    \<and> (snd (test_validate_my_username conf assert_equal) \<longleftrightarrow> conf \<noteq> None \<and> \<not> fst (test_validate_my_username conf assert_equal))"
  using test_passes_iff [of assert_equal conf] assms by (auto simp: autotest_prints)

theorem autotest_validates_witness:
  "fst (test_validate_my_username (Some ''EsGeh'') (=)) \<and> snd (test_validate_my_username (Some ''other'') (=))"
  using autotest_validates [of "(=)" "Some ''EsGeh''"] autotest_validates [of "(=)" "Some ''other''"] by simp

end
